(* ===== verification/Kernel_Prelude.thy ===== *)
theory Kernel_Prelude
  imports Main "HOL-Library.Word"
begin

text \<open>
  Shared vocabulary of the kernel model: the fixed-width integer types of
  \<^verbatim>\<open>kernel/include/types.h\<close>, the compiler builtin that counts trailing zeros, the
  page-alignment macros, the named collections the component theories fill, and the
  lemmas on words and lists that several components use.
\<close>

unbundle bit_operations_syntax

section \<open>Machine types\<close>

type_synonym u8 = "8 word"
type_synonym u16 = "16 word"
type_synonym u32 = "32 word"
type_synonym u64 = "64 word"

named_theorems errno_simps \<open>values of the error numbers\<close>
named_theorems cap_simps \<open>unfolding rules of the capability system\<close>
named_theorems bpf_simps \<open>unfolding rules of the seccomp filter machine\<close>
named_theorems mq_simps \<open>unfolding rules of the message queues\<close>
named_theorems page_simps \<open>flags of page-table entries\<close>

section \<open>Error numbers\<close>

text \<open>The negative error numbers of \<^verbatim>\<open>include/errno.h\<close>.\<close>

definition EPERM :: int where "EPERM = -1"
definition ENOENT :: int where "ENOENT = -2"
definition ESRCH :: int where "ESRCH = -3"
definition EINTR :: int where "EINTR = -4"
definition E2BIG :: int where "E2BIG = -7"
definition EAGAIN :: int where "EAGAIN = -11"
definition ENOMEM :: int where "ENOMEM = -12"
definition EACCES :: int where "EACCES = -13"
definition EFAULT :: int where "EFAULT = -14"
definition EEXIST :: int where "EEXIST = -17"
definition EINVAL :: int where "EINVAL = -22"
definition ENOSPC :: int where "ENOSPC = -28"

lemmas errno_values [errno_simps] =
  EPERM_def ENOENT_def ESRCH_def EINTR_def E2BIG_def EAGAIN_def ENOMEM_def EACCES_def EFAULT_def EEXIST_def EINVAL_def ENOSPC_def

section \<open>Alignment macros\<close>

text \<open>
  \<^verbatim>\<open>ALIGN_UP\<close> and \<^verbatim>\<open>ALIGN_DOWN\<close> of \<^verbatim>\<open>types.h\<close>, at the one alignment the
  memory manager uses (4096); the addition wraps at 64 bits as in C.
\<close>

definition ALIGN_UP_PAGE :: "u64 \<Rightarrow> u64" where
  "ALIGN_UP_PAGE x = (x + 4096 - 1) AND NOT (4096 - 1)"

definition ALIGN_DOWN_PAGE :: "u64 \<Rightarrow> u64" where
  "ALIGN_DOWN_PAGE x = x AND NOT (4096 - 1)"

text \<open>The page of an address and the offset in it, \<^verbatim>\<open>addr & ~0xFFF\<close> and \<^verbatim>\<open>addr & 0xFFF\<close>.\<close>

definition PAGE_BASE :: "u64 \<Rightarrow> u64" where
  "PAGE_BASE x = x AND NOT 0xFFF"

definition PAGE_OFFSET :: "u64 \<Rightarrow> u64" where
  "PAGE_OFFSET x = x AND 0xFFF"

lemma PAGE_OFFSET_take_bit: "PAGE_OFFSET x = take_bit 12 x"
  by (simp add: PAGE_OFFSET_def take_bit_eq_mask mask_eq_exp_minus_1)

lemma unat_PAGE_OFFSET: "unat (PAGE_OFFSET x) = unat x mod 4096"
  unfolding PAGE_OFFSET_take_bit unsigned_take_bit_eq by (simp add: take_bit_eq_mod)

lemma PAGE_BASE_bit: "bit (PAGE_BASE x) n \<longleftrightarrow> bit x n \<and> 12 \<le> n"
proof -
  have "(0xFFF::u64) = mask 12" by (simp add: mask_eq_exp_minus_1)
  then have "PAGE_BASE x = x AND NOT (mask 12)" unfolding PAGE_BASE_def by argo
  then show ?thesis by (auto simp: bit_simps dest: bit_imp_le_length)
qed

lemma PAGE_BASE_diff: "PAGE_BASE x = x - PAGE_OFFSET x"
proof -
  have "x - PAGE_OFFSET x = x AND NOT (PAGE_OFFSET x)"
    by (rule disjunctive_diff) (auto simp: PAGE_OFFSET_take_bit bit_simps)
  also have "\<dots> = PAGE_BASE x"
    by (rule bit_eqI) (auto simp: PAGE_BASE_bit PAGE_OFFSET_take_bit bit_simps dest: bit_imp_le_length)
  finally show ?thesis by simp
qed

lemma unat_PAGE_BASE: "unat (PAGE_BASE x) = unat x - unat x mod 4096"
proof -
  have "PAGE_OFFSET x \<le> x" by (simp add: word_le_nat_alt unat_PAGE_OFFSET)
  then show ?thesis by (simp add: PAGE_BASE_diff unat_sub unat_PAGE_OFFSET)
qed

lemma unat_PAGE_BASE_mult: "unat (PAGE_BASE x) = 4096 * (unat x div 4096)"
  by (simp add: unat_PAGE_BASE minus_mod_eq_mult_div)

lemma PAGE_BASE_mod: "unat (PAGE_BASE x) mod 4096 = 0"
  by (simp add: unat_PAGE_BASE_mult)

lemma PAGE_BASE_le: "unat (PAGE_BASE x) \<le> unat x"
  by (simp add: unat_PAGE_BASE)

lemma PAGE_BASE_mono: "x \<le> y \<Longrightarrow> PAGE_BASE x \<le> PAGE_BASE y"
  by (simp add: word_le_nat_alt unat_PAGE_BASE_mult div_le_mono)

lemma PAGE_OFFSET_zero: "PAGE_OFFSET x = 0 \<longleftrightarrow> unat x mod 4096 = 0"
  by (metis unat_PAGE_OFFSET unat_eq_zero)

lemma PAGE_BASE_index: "12 \<le> s \<Longrightarrow> drop_bit s (PAGE_BASE x) = drop_bit s x"
  by (rule bit_eqI) (auto simp: bit_simps PAGE_BASE_bit)

section \<open>Counting trailing zeros\<close>

text \<open>
  The builtin \<^verbatim>\<open>__builtin_ctzll\<close>: the index of the lowest set bit. The code calls it on
  non-zero words only, and every lemma below has that premise.
\<close>

definition ctz :: "'a::len word \<Rightarrow> nat" where
  "ctz w = length (takeWhile (\<lambda>i. \<not> bit w i) [0..<LENGTH('a)])"

lemma ctz_less:
  fixes w :: "'a::len word"
  assumes "w \<noteq> 0"
  shows "ctz w < LENGTH('a)"
proof -
  from assms obtain i where i: "bit w i"
    by (auto simp: bit_eq_iff)
  then have "i < LENGTH('a)"
    by (rule bit_imp_le_length)
  let ?P = "\<lambda>i. \<not> bit w i" and ?xs = "[0..<LENGTH('a)]"
  have "takeWhile ?P ?xs \<noteq> ?xs"
    using i \<open>i < LENGTH('a)\<close> by (auto simp: takeWhile_eq_all_conv)
  then have "length (takeWhile ?P ?xs) \<noteq> length ?xs"
    by (metis takeWhile_eq_take take_all_iff order_refl)
  then have "length (takeWhile ?P ?xs) < length ?xs"
    using length_takeWhile_le [of ?P ?xs] by simp
  then show ?thesis
    by (simp add: ctz_def)
qed

lemma bit_ctz:
  fixes w :: "'a::len word"
  assumes "w \<noteq> 0"
  shows "bit w (ctz w)"
  using ctz_less [OF assms] nth_length_takeWhile [of "\<lambda>i. \<not> bit w i" "[0..<LENGTH('a)]"]
  by (simp add: ctz_def)

lemma not_bit_below_ctz:
  fixes w :: "'a::len word"
  assumes "j < ctz w"
  shows "\<not> bit w j"
proof -
  let ?xs = "[0..<LENGTH('a)]"
  have le: "ctz w \<le> LENGTH('a)"
    unfolding ctz_def using length_takeWhile_le [of "\<lambda>i. \<not> bit w i" ?xs] by simp
  have "takeWhile (\<lambda>i. \<not> bit w i) ?xs ! j = ?xs ! j"
    using assms by (intro takeWhile_nth) (simp add: ctz_def)
  also have "\<dots> = j"
    using assms le by simp
  finally have "j \<in> set (takeWhile (\<lambda>i. \<not> bit w i) ?xs)"
    using assms by (metis ctz_def nth_mem)
  then show ?thesis
    by (auto dest: set_takeWhileD)
qed

lemma ctz_pos_iff:
  fixes w :: "'a::len word"
  assumes "w \<noteq> 0"
  shows "0 < ctz w \<longleftrightarrow> \<not> bit w 0"
  using bit_ctz [OF assms] not_bit_below_ctz [of 0 w] by (cases "ctz w") auto

section \<open>Words and frame numbers\<close>

lemma div_mod_64_eq_iff: "q div 64 = p div 64 \<and> q mod 64 = p mod 64 \<longleftrightarrow> q = (p::nat)"
  by (metis div_mult_mod_eq)

lemma word_eq_zero_iff_bits: "(w::u64) = 0 \<longleftrightarrow> (\<forall>i<64. \<not> bit w i)"
  by (auto simp: bit_eq_iff dest: bit_imp_le_length)

lemma word_eq_ones_iff_bits: "(w::u64) = NOT 0 \<longleftrightarrow> (\<forall>i<64. bit w i)"
  by (auto simp: bit_eq_iff bit_simps dest: bit_imp_le_length)

section \<open>Runs of operations and their specification\<close>

text \<open>
  A component is a function that performs one operation on a state and gives a result.
  \<open>run_ops\<close> performs a sequence of operations, which for a component under a lock is every
  interleaving of its callers; \<open>ops_enabled\<close> are the sequences in which each operation meets
  its precondition.
\<close>

fun run_ops :: "('l \<Rightarrow> 's \<Rightarrow> 'r \<times> 's) \<Rightarrow> 'l list \<Rightarrow> 's \<Rightarrow> 'r list \<times> 's" where
  "run_ops perform [] s = ([], s)"
| "run_ops perform (l # ls) s =
     (let (r, s') = perform l s; (rs, s'') = run_ops perform ls s' in (r # rs, s''))"

fun ops_enabled :: "('l \<Rightarrow> 's \<Rightarrow> bool) \<Rightarrow> ('l \<Rightarrow> 's \<Rightarrow> 'r \<times> 's) \<Rightarrow> 'l list \<Rightarrow> 's \<Rightarrow> bool" where
  "ops_enabled pre perform [] s = True"
| "ops_enabled pre perform (l # ls) s = (pre l s \<and> ops_enabled pre perform ls (snd (perform l s)))"

lemma run_ops_append:
  "run_ops perform (xs @ ys) s =
     (let (rs, s') = run_ops perform xs s; (rs', s'') = run_ops perform ys s' in (rs @ rs', s''))"
  by (induction xs arbitrary: s) (simp_all add: Let_def split_beta)

lemma length_run_ops [simp]: "length (fst (run_ops perform ls s)) = length ls"
  by (induction ls arbitrary: s) (simp_all add: Let_def split_beta)

text \<open>
  The contract between a component and its specification: an invariant \<open>ok\<close> and a reading
  \<open>abs\<close> of the state such that every enabled operation has the specified result and effect.
\<close>

locale simulation =
  fixes perform :: "'l \<Rightarrow> 's \<Rightarrow> 'r \<times> 's"
    and pre :: "'l \<Rightarrow> 's \<Rightarrow> bool"
    and ok :: "'s \<Rightarrow> bool"
    and abs :: "'s \<Rightarrow> 'a"
    and spec :: "'l \<Rightarrow> 'a \<Rightarrow> 'r \<times> 'a"
  assumes sim_ok: "ok s \<Longrightarrow> pre l s \<Longrightarrow> ok (snd (perform l s))"
    and sim_step: "ok s \<Longrightarrow> pre l s \<Longrightarrow> map_prod id abs (perform l s) = spec l (abs s)"
begin

lemma run_ok: "ok s \<Longrightarrow> ops_enabled pre perform ls s \<Longrightarrow> ok (snd (run_ops perform ls s))"
  by (induction ls arbitrary: s) (simp_all add: sim_ok Let_def split_beta)

lemma run_refines:
  "ok s \<Longrightarrow> ops_enabled pre perform ls s \<Longrightarrow> map_prod id abs (run_ops perform ls s) = run_ops spec ls (abs s)"
proof (induction ls arbitrary: s)
  case (Cons l ls)
  have "spec l (abs s) = (fst (perform l s), abs (snd (perform l s)))"
    using sim_step [of s l] Cons.prems by (metis map_prod_simp id_apply prod.collapse ops_enabled.simps(2))
  moreover have "map_prod id abs (run_ops perform ls (snd (perform l s))) = run_ops spec ls (abs (snd (perform l s)))"
    using Cons.prems by (intro Cons.IH) (simp_all add: sim_ok)
  ultimately show ?case by (simp add: Let_def split_beta map_prod_def prod_eq_iff)
qed simp

end

end
