(* ===== verification/Pmm_Bitmap.thy ===== *)
theory Pmm_Bitmap
  imports Kernel_Prelude
begin

text \<open>
  The frame bitmap of \<^verbatim>\<open>kernel/core/mem/pmm.c\<close>: one bit per 4 KB physical frame, 1 for
  free. This theory holds the bit helpers, the word-at-a-time search for a run of free
  frames that \<^verbatim>\<open>pmm_alloc_pages\<close> performs, a frame-by-frame reference search, and
  the proof that the two agree.

  The array \<^verbatim>\<open>uint64_t pmm_bitmap[BITMAP_WORDS]\<close> is a function from word indices to
  words; the code only indexes it below \<^verbatim>\<open>BITMAP_WORDS\<close>. Frame numbers, word indices
  and run lengths stay far below \<open>2 ^ 64\<close> and are natural numbers.
\<close>

section \<open>Bit helpers\<close>

type_synonym bitmap = "nat \<Rightarrow> u64"

definition MIN_PAGE_SIZE :: nat where
  "MIN_PAGE_SIZE = 4096"

definition BITMAP_TOTAL_PAGES :: nat where
  "BITMAP_TOTAL_PAGES = 2 ^ 22"

definition BITMAP_WORDS :: nat where
  "BITMAP_WORDS = BITMAP_TOTAL_PAGES div 64"

definition pfn_of :: "u64 \<Rightarrow> nat" where
  "pfn_of addr = unat (addr div 4096)"

definition addr_of_pfn :: "nat \<Rightarrow> u64" where
  "addr_of_pfn pfn = of_nat pfn * 4096"

definition bitmap_set_free :: "bitmap \<Rightarrow> nat \<Rightarrow> bitmap" where
  "bitmap_set_free bm pfn =
     bm(pfn div 64 := bm (pfn div 64) OR push_bit (pfn mod 64) 1)"

definition bitmap_set_used :: "bitmap \<Rightarrow> nat \<Rightarrow> bitmap" where
  "bitmap_set_used bm pfn =
     bm(pfn div 64 := bm (pfn div 64) AND NOT (push_bit (pfn mod 64) 1))"

definition bitmap_is_free :: "bitmap \<Rightarrow> nat \<Rightarrow> bool" where
  "bitmap_is_free bm pfn \<longleftrightarrow> (drop_bit (pfn mod 64) (bm (pfn div 64)) AND 1) \<noteq> 0"

text \<open>The loops that mark a whole run.\<close>

primrec bitmap_set_used_run :: "bitmap \<Rightarrow> nat \<Rightarrow> nat \<Rightarrow> bitmap" where
  "bitmap_set_used_run bm start 0 = bm"
| "bitmap_set_used_run bm start (Suc n) =
     bitmap_set_used (bitmap_set_used_run bm start n) (start + n)"

lemma bitmap_is_free_bit: "bitmap_is_free bm p \<longleftrightarrow> bit (bm (p div 64)) (p mod 64)"
proof -
  have "(drop_bit n w AND 1) \<noteq> 0 \<longleftrightarrow> bit w n" for n and w :: u64
    by (simp add: and_one_eq bit_iff_odd_drop_bit mod2_eq_if)
  then show ?thesis
    by (simp add: bitmap_is_free_def)
qed

lemma is_free_set_free [simp]:
  "bitmap_is_free (bitmap_set_free bm p) q \<longleftrightarrow> q = p \<or> bitmap_is_free bm q"
  using div_mod_64_eq_iff [of q p]
  by (auto simp: bitmap_is_free_bit bitmap_set_free_def bit_simps)

lemma is_free_set_used [simp]:
  "bitmap_is_free (bitmap_set_used bm p) q \<longleftrightarrow> q \<noteq> p \<and> bitmap_is_free bm q"
  using div_mod_64_eq_iff [of q p]
  by (auto simp: bitmap_is_free_bit bitmap_set_used_def bit_simps)

lemma is_free_set_used_run [simp]:
  "bitmap_is_free (bitmap_set_used_run bm start n) q \<longleftrightarrow>
     \<not> (start \<le> q \<and> q < start + n) \<and> bitmap_is_free bm q"
  by (induction n) auto

text \<open>Two bitmaps with the same free frames are the same bitmap.\<close>

lemma bitmap_eq_iff: "bm = bm' \<longleftrightarrow> (\<forall>p. bitmap_is_free bm p \<longleftrightarrow> bitmap_is_free bm' p)"
proof
  assume eq: "\<forall>p. bitmap_is_free bm p \<longleftrightarrow> bitmap_is_free bm' p"
  show "bm = bm'"
  proof
    fix w
    have "bit (bm w) i = bit (bm' w) i" if "i < 64" for i
      using eq [rule_format, of "w * 64 + i"] that by (simp add: bitmap_is_free_bit)
    then show "bm w = bm' w"
      by (intro bit_word_eqI) simp
  qed
qed simp

lemma set_free_set_used:
  "bitmap_is_free bm p \<Longrightarrow> bitmap_set_free (bitmap_set_used bm p) p = bm"
  by (auto simp: bitmap_eq_iff)

lemma unat_addr_of_pfn: "p < 2 ^ 52 \<Longrightarrow> unat (addr_of_pfn p) = p * 4096"
  by (simp add: addr_of_pfn_def unat_word_ariths unsigned_of_nat take_bit_eq_mod)

lemma pfn_of_addr_of_pfn [simp]: "p < 2 ^ 52 \<Longrightarrow> pfn_of (addr_of_pfn p) = p"
  by (simp add: pfn_of_def unat_div unat_addr_of_pfn)

section \<open>The word-at-a-time search for a run\<close>

text \<open>
  The search keeps a candidate run \<open>[run_start, run_start + run_len)\<close> across words; it
  ends as soon as the run is long enough.
\<close>

datatype scan = Found nat | Scanning nat nat

text \<open>
  The inner loop over a word that is neither empty nor full: \<open>b\<close> is the bit position,
  used and free blocks are skipped with the trailing-zero count.
\<close>

function scan_mixed :: "nat \<Rightarrow> u64 \<Rightarrow> nat \<Rightarrow> nat \<Rightarrow> nat \<Rightarrow> nat \<Rightarrow> scan" where
  "scan_mixed count word base_pfn b run_start run_len =
     (if b < 64 then
        let remaining = drop_bit b word in
        if remaining = 0 then Scanning run_start 0
        else let skip = ctz remaining in
        if 0 < skip then scan_mixed count word base_pfn (b + skip) run_start 0
        else let inv = NOT remaining;
                 free_run = (if inv = 0 then 64 - b
                             else let f = ctz inv in if 64 < b + f then 64 - b else f);
                 run_start' = (if run_len = 0 then base_pfn + b else run_start);
                 run_len' = run_len + free_run
             in if count \<le> run_len' then Found run_start'
                else scan_mixed count word base_pfn (b + free_run) run_start' run_len'
      else Scanning run_start run_len)"
  by pat_completeness auto
termination
proof (relation "measure (\<lambda>(count, word, base_pfn, b, rs, rl). 64 - b)", goal_cases)
  case 1
  show ?case by simp
next
  case (2 count word base_pfn b rs rl r s)
  then show ?case by simp
next
  case (3 count word base_pfn b rs rl r s i f)
  have "bit r 0"
    using 3 ctz_pos_iff [of r] by simp
  then have "i \<noteq> 0 \<Longrightarrow> 0 < ctz i"
    using 3 ctz_pos_iff [of i] by (simp add: bit_simps)
  with 3 show ?case
    by (auto simp: Let_def split: if_splits)
qed

declare scan_mixed.simps [simp del]

definition scan_word :: "nat \<Rightarrow> u64 \<Rightarrow> nat \<Rightarrow> nat \<Rightarrow> nat \<Rightarrow> scan" where
  "scan_word count word base_pfn run_start run_len =
     (if word = 0 then Scanning run_start 0
      else if word = NOT 0 then
        let run_start' = (if run_len = 0 then base_pfn else run_start);
            run_len' = run_len + 64
        in if count \<le> run_len' then Found run_start' else Scanning run_start' run_len'
      else scan_mixed count word base_pfn 0 run_start run_len)"

text \<open>The loop over the words \<open>[wi, end_word)\<close>.\<close>

function scan_words :: "bitmap \<Rightarrow> nat \<Rightarrow> nat \<Rightarrow> nat \<Rightarrow> nat \<Rightarrow> nat \<Rightarrow> scan" where
  "scan_words bm count wi end_word run_start run_len =
     (if wi < end_word then
        case scan_word count (bm wi) (wi * 64) run_start run_len of
          Found s \<Rightarrow> Found s
        | Scanning rs rl \<Rightarrow> scan_words bm count (Suc wi) end_word rs rl
      else Scanning run_start run_len)"
  by pat_completeness auto
termination
  by (relation "measure (\<lambda>(bm, count, wi, end_word, rs, rl). end_word - wi)") auto

declare scan_words.simps [simp del]

text \<open>
  The two passes: from the hint to the end of the bitmap, then from word 0 to the hint,
  each starting with an empty candidate.
\<close>

definition find_run :: "bitmap \<Rightarrow> nat \<Rightarrow> nat \<Rightarrow> nat option" where
  "find_run bm hint count =
     (case scan_words bm count hint BITMAP_WORDS 0 0 of
        Found s \<Rightarrow> Some s
      | Scanning _ _ \<Rightarrow>
          (case scan_words bm count 0 hint 0 0 of
             Found s \<Rightarrow> Some s
           | Scanning _ _ \<Rightarrow> None))"


section \<open>The frame-by-frame reference search\<close>

function scan_frames :: "bitmap \<Rightarrow> nat \<Rightarrow> nat \<Rightarrow> nat \<Rightarrow> nat \<Rightarrow> nat \<Rightarrow> scan" where
  "scan_frames bm count p hi run_start run_len =
     (if p < hi then
        if bitmap_is_free bm p then
          let run_start' = (if run_len = 0 then p else run_start)
          in if count \<le> Suc run_len then Found run_start'
             else scan_frames bm count (Suc p) hi run_start' (Suc run_len)
        else scan_frames bm count (Suc p) hi run_start 0
      else Scanning run_start run_len)"
  by pat_completeness auto
termination
  by (relation "measure (\<lambda>(bm, count, p, hi, rs, rl). hi - p)") auto

declare scan_frames.simps [simp del]

lemma scan_frames_end: "hi \<le> p \<Longrightarrow> scan_frames bm count p hi rs rl = Scanning rs rl"
  by (simp add: scan_frames.simps)

lemma scan_frames_used_block:
  assumes "0 < n" and "p + n \<le> hi" and "\<forall>i<n. \<not> bitmap_is_free bm (p + i)"
  shows "scan_frames bm count p hi rs rl = scan_frames bm count (p + n) hi rs 0"
  using assms
proof (induction n arbitrary: p rl)
  case 0
  then show ?case by simp
next
  case (Suc n)
  have step: "scan_frames bm count p hi rs rl = scan_frames bm count (Suc p) hi rs 0"
    using Suc.prems(2) Suc.prems(3) [rule_format, of 0] by (simp add: scan_frames.simps [of bm count p])
  show ?case
  proof (cases "n = 0")
    case True
    with step show ?thesis by simp
  next
    case False
    have "\<forall>i<n. \<not> bitmap_is_free bm (Suc p + i)"
      using Suc.prems(3) by (metis Suc_less_eq add_Suc_shift)
    with False Suc.prems have "scan_frames bm count (Suc p) hi rs 0
        = scan_frames bm count (Suc p + n) hi rs 0"
      by (intro Suc.IH) auto
    with step show ?thesis by simp
  qed
qed

lemma scan_frames_free_block:
  assumes "0 < n" and "p + n \<le> hi" and "\<forall>i<n. bitmap_is_free bm (p + i)"
  shows "scan_frames bm count p hi rs rl =
    (let rs' = (if rl = 0 then p else rs)
     in if count \<le> rl + n then Found rs' else scan_frames bm count (p + n) hi rs' (rl + n))"
  using assms
proof (induction n arbitrary: p rs rl)
  case 0
  then show ?case by simp
next
  case (Suc n)
  let ?rs = "if rl = 0 then p else rs"
  have step: "scan_frames bm count p hi rs rl =
      (if count \<le> Suc rl then Found ?rs else scan_frames bm count (Suc p) hi ?rs (Suc rl))"
    using Suc.prems(2) Suc.prems(3) [rule_format, of 0]
    by (simp add: scan_frames.simps [of bm count p] Let_def)
  show ?case
  proof (cases "n = 0 \<or> count \<le> Suc rl")
    case True
    with step show ?thesis by auto
  next
    case False
    have "\<forall>i<n. bitmap_is_free bm (Suc p + i)"
      using Suc.prems(3) by (metis Suc_less_eq add_Suc_shift)
    with False Suc.prems have "scan_frames bm count (Suc p) hi ?rs (Suc rl) =
      (let rs' = (if Suc rl = 0 then Suc p else ?rs)
       in if count \<le> Suc rl + n then Found rs'
          else scan_frames bm count (Suc p + n) hi rs' (Suc rl + n))"
      by (intro Suc.IH) auto
    with step False show ?thesis by (simp add: Let_def)
  qed
qed

lemma scan_frames_split:
  assumes "p \<le> mid" and "mid \<le> hi"
  shows "scan_frames bm count p hi rs rl =
    (case scan_frames bm count p mid rs rl of
       Found s \<Rightarrow> Found s
     | Scanning rs' rl' \<Rightarrow> scan_frames bm count mid hi rs' rl')"
  using assms
proof (induction bm count p mid rs rl rule: scan_frames.induct)
  case (1 bm count p mid rs rl)
  show ?case
  proof (cases "p < mid")
    case False
    with "1.prems" show ?thesis by (simp add: scan_frames_end)
  next
    case True
    with "1.prems" have "p < hi" by simp
    show ?thesis
      using "1.IH" "1.prems" True \<open>p < hi\<close>
      by (simp add: scan_frames.simps [of bm count p hi] scan_frames.simps [of bm count p mid] Let_def)
  qed
qed

section \<open>The word search is the frame search\<close>

lemma is_free_in_word: "b < 64 \<Longrightarrow> bitmap_is_free bm (wi * 64 + b) \<longleftrightarrow> bit (bm wi) b"
  by (simp add: bitmap_is_free_bit)

lemma scan_mixed_eq_frames:
  assumes "b \<le> 64" and "word = bm wi" and "base_pfn = wi * 64"
  shows "scan_mixed count word base_pfn b rs rl =
    scan_frames bm count (wi * 64 + b) (wi * 64 + 64) rs rl"
  using assms
proof (induction count word base_pfn b rs rl rule: scan_mixed.induct)
  case (1 count word base_pfn b rs rl)
  define remaining where "remaining = drop_bit b word"
  have free_bits: "bitmap_is_free bm (wi * 64 + b + i) \<longleftrightarrow> bit remaining i" if "b + i < 64" for i
    using is_free_in_word [OF that, of bm wi] "1.prems"
    by (simp add: remaining_def bit_drop_bit_eq add.assoc)
  consider (over) "b = 64" | (empty) "b < 64" "remaining = 0"
    | (used) "b < 64" "remaining \<noteq> 0" "0 < ctz remaining"
    | (free) "b < 64" "remaining \<noteq> 0" "ctz remaining = 0"
    using "1.prems"(1) by fastforce
  then show ?case
  proof cases
    case over
    then show ?thesis by (simp add: scan_mixed.simps scan_frames_end)
  next
    case empty
    have "scan_frames bm count (wi * 64 + b) (wi * 64 + 64) rs rl =
        scan_frames bm count (wi * 64 + b + (64 - b)) (wi * 64 + 64) rs 0"
      using empty by (intro scan_frames_used_block) (auto simp: free_bits)
    with empty show ?thesis
      by (simp add: scan_mixed.simps [of count word] remaining_def scan_frames_end)
  next
    case used
    have lt: "b + ctz remaining < 64"
      using bit_ctz [OF used(2)] unfolding remaining_def
      by (auto simp: bit_drop_bit_eq dest: bit_imp_le_length)
    have "scan_frames bm count (wi * 64 + b) (wi * 64 + 64) rs rl =
        scan_frames bm count (wi * 64 + b + ctz remaining) (wi * 64 + 64) rs 0"
      using used lt by (intro scan_frames_used_block) (auto simp: free_bits not_bit_below_ctz)
    also have "\<dots> = scan_mixed count word base_pfn (b + ctz remaining) rs 0"
      using "1.IH"(1) [OF _ _ _ _ _ _] used lt "1.prems" by (simp add: remaining_def add.assoc)
    finally show ?thesis
      using used by (simp add: scan_mixed.simps [of count word] remaining_def Let_def)
  next
    case free
    define inv where "inv = NOT remaining"
    define free_run where "free_run = (if inv = 0 then 64 - b
      else let f = ctz inv in if 64 < b + f then 64 - b else f)"
    define rs' where "rs' = (if rl = 0 then base_pfn + b else rs)"
    have "inv \<noteq> 0 \<Longrightarrow> 0 < ctz inv"
      using free ctz_pos_iff [of remaining] ctz_pos_iff [of inv]
      by (simp add: inv_def bit_simps)
    then have pos: "0 < free_run" and le: "b + free_run \<le> 64"
      using free(1) by (auto simp: free_run_def Let_def)
    have "bit remaining i" if "i < free_run" for i
    proof -
      have "\<not> bit inv i"
        using that not_bit_below_ctz [of i inv] by (auto simp: free_run_def Let_def split: if_splits)
      with that le show ?thesis by (simp add: inv_def bit_simps)
    qed
    with le have frames: "\<forall>i<free_run. bitmap_is_free bm (wi * 64 + b + i)"
      by (simp add: free_bits)
    have "scan_frames bm count (wi * 64 + b) (wi * 64 + 64) rs rl =
       (if count \<le> rl + free_run then Found rs'
        else scan_frames bm count (wi * 64 + b + free_run) (wi * 64 + 64) rs' (rl + free_run))"
      using pos le frames "1.prems"(3)
      by (subst scan_frames_free_block [of free_run]) (auto simp: rs'_def Let_def)
    also have "\<dots> = (if count \<le> rl + free_run then Found rs'
        else scan_mixed count word base_pfn (b + free_run) rs' (rl + free_run))"
      using "1.IH"(2) [OF free(1) remaining_def free(2) refl _ inv_def _ rs'_def refl]
        free le "1.prems" by (simp add: free_run_def add.assoc)
    finally show ?thesis
      using free by (simp add: scan_mixed.simps [of count word base_pfn b] remaining_def [symmetric]
        inv_def [symmetric] free_run_def [symmetric] rs'_def [symmetric] Let_def)
  qed
qed


lemma scan_word_eq_frames:
  "scan_word count (bm wi) (wi * 64) rs rl =
    scan_frames bm count (wi * 64) (wi * 64 + 64) rs rl"
proof -
  consider (empty) "bm wi = 0" | (full) "bm wi = NOT 0" | (mixed) "bm wi \<noteq> 0" "bm wi \<noteq> NOT 0"
    by blast
  then show ?thesis
  proof cases
    case empty
    then have "\<forall>i<64. \<not> bitmap_is_free bm (wi * 64 + i)"
      by (simp add: bitmap_is_free_bit)
    with empty show ?thesis
      by (subst scan_frames_used_block [of 64]) (auto simp: scan_word_def scan_frames_end)
  next
    case full
    then have "\<forall>i<64. bitmap_is_free bm (wi * 64 + i)"
      by (simp add: bitmap_is_free_bit)
    with full show ?thesis
      by (subst scan_frames_free_block [of 64]) (auto simp: scan_word_def scan_frames_end Let_def)
  next
    case mixed
    with scan_mixed_eq_frames [of 0 "bm wi" bm wi] show ?thesis
      by (simp add: scan_word_def)
  qed
qed

lemma scan_words_eq_frames:
  assumes "wi \<le> end_word"
  shows "scan_words bm count wi end_word rs rl =
    scan_frames bm count (wi * 64) (end_word * 64) rs rl"
  using assms
proof (induction bm count wi end_word rs rl rule: scan_words.induct)
  case (1 bm count wi end_word rs rl)
  show ?case
  proof (cases "wi < end_word")
    case False
    with "1.prems" show ?thesis by (simp add: scan_words.simps scan_frames_end)
  next
    case True
    have "scan_words bm count wi end_word rs rl =
        (case scan_frames bm count (wi * 64) (wi * 64 + 64) rs rl of
           Found s \<Rightarrow> Found s
         | Scanning rs' rl' \<Rightarrow> scan_frames bm count (wi * 64 + 64) (end_word * 64) rs' rl')"
      using True "1.IH" by (simp add: scan_words.simps [of bm count wi] scan_word_eq_frames
          add.commute split: scan.splits)
    also have "\<dots> = scan_frames bm count (wi * 64) (end_word * 64) rs rl"
      using True by (subst (2) scan_frames_split [of _ "wi * 64 + 64"]) auto
    finally show ?thesis .
  qed
qed

section \<open>What the search finds\<close>

definition run_at :: "bitmap \<Rightarrow> nat \<Rightarrow> nat \<Rightarrow> bool" where
  "run_at bm s count \<longleftrightarrow> (\<forall>i<count. bitmap_is_free bm (s + i))"

text \<open>
  The state of the frame search at \<open>p\<close> after starting at \<open>lo\<close>: the candidate is the
  maximal free run that ends at \<open>p\<close>, it is shorter than \<open>count\<close>, and no run of
  \<open>count\<close> frames ends at or before \<open>p\<close>.
\<close>

definition scan_inv :: "bitmap \<Rightarrow> nat \<Rightarrow> nat \<Rightarrow> nat \<Rightarrow> nat \<Rightarrow> nat \<Rightarrow> bool" where
  "scan_inv bm count lo p rs rl \<longleftrightarrow>
     lo + rl \<le> p \<and> rl < count \<and> (0 < rl \<longrightarrow> rs + rl = p) \<and> run_at bm (p - rl) rl \<and>
     (p - rl = lo \<or> \<not> bitmap_is_free bm (p - rl - 1)) \<and>
     (\<forall>s. lo \<le> s \<longrightarrow> s + count \<le> p \<longrightarrow> \<not> run_at bm s count)"

lemma scan_inv_start: "0 < count \<Longrightarrow> scan_inv bm count lo lo rs 0"
  by (auto simp: scan_inv_def run_at_def)

lemma scan_inv_used:
  assumes "scan_inv bm count lo p rs rl" and "\<not> bitmap_is_free bm p"
  shows "scan_inv bm count lo (Suc p) rs 0"
proof -
  have "\<not> run_at bm s count" if "lo \<le> s" "s + count \<le> Suc p" for s
  proof (cases "s + count = Suc p")
    case True
    have "0 < count"
      using assms(1) by (auto simp: scan_inv_def)
    with True have "s + (count - 1) = p" by simp
    with \<open>0 < count\<close> assms(2) show ?thesis
      unfolding run_at_def by (metis diff_less zero_less_one)
  next
    case False
    with that assms(1) show ?thesis by (simp add: scan_inv_def)
  qed
  with assms show ?thesis
    by (auto simp: scan_inv_def run_at_def)
qed

lemma scan_inv_free:
  assumes "scan_inv bm count lo p rs rl" and "bitmap_is_free bm p" and "Suc rl < count"
  shows "scan_inv bm count lo (Suc p) (if rl = 0 then p else rs) (Suc rl)"
proof -
  have le: "lo + rl \<le> p"
    using assms(1) by (simp add: scan_inv_def)
  have "\<not> run_at bm s count" if "lo \<le> s" "s + count \<le> Suc p" for s
  proof (cases "s + count = Suc p")
    case True
    with assms(3) le have lt: "s < p - rl" by linarith
    with that assms(1) have "\<not> bitmap_is_free bm (p - rl - 1)"
      by (auto simp: scan_inv_def)
    moreover have "s + (p - rl - 1 - s) = p - rl - 1" and "p - rl - 1 - s < count"
      using lt True by linarith+
    ultimately show ?thesis
      unfolding run_at_def by metis
  next
    case False
    with that assms(1) show ?thesis by (simp add: scan_inv_def)
  qed
  moreover have "run_at bm (p - rl) (Suc rl)"
    using assms(1,2) le by (auto simp: scan_inv_def run_at_def less_Suc_eq)
  ultimately show ?thesis
    using assms le by (auto simp: scan_inv_def)
qed

lemma scan_inv_found:
  assumes "scan_inv bm count lo p rs rl" and "bitmap_is_free bm p" and "count \<le> Suc rl"
  defines "s \<equiv> if rl = 0 then p else rs"
  shows "lo \<le> s" and "s + count = Suc p" and "run_at bm s count"
    and "\<forall>s'. lo \<le> s' \<longrightarrow> s' < s \<longrightarrow> \<not> run_at bm s' count"
proof -
  have count: "count = Suc rl" and le: "lo + rl \<le> p"
    using assms(1,3) by (auto simp: scan_inv_def)
  have s: "s = p - rl"
    using assms(1) by (auto simp: s_def scan_inv_def)
  show "lo \<le> s" and "s + count = Suc p"
    using s count le by auto
  show "run_at bm s count"
    using assms(1,2) s count le by (auto simp: scan_inv_def run_at_def less_Suc_eq)
  show "\<forall>s'. lo \<le> s' \<longrightarrow> s' < s \<longrightarrow> \<not> run_at bm s' count"
    using assms(1) s count le by (auto simp: scan_inv_def)
qed

lemma scan_frames_correct:
  assumes "scan_inv bm count lo p rs rl" and "p \<le> hi"
  shows "case scan_frames bm count p hi rs rl of
      Found s \<Rightarrow> lo \<le> s \<and> s + count \<le> hi \<and> run_at bm s count \<and>
        (\<forall>s'. lo \<le> s' \<longrightarrow> s' < s \<longrightarrow> \<not> run_at bm s' count)
    | Scanning _ _ \<Rightarrow> \<forall>s. lo \<le> s \<longrightarrow> s + count \<le> hi \<longrightarrow> \<not> run_at bm s count"
  using assms
proof (induction bm count p hi rs rl rule: scan_frames.induct)
  case (1 bm count p hi rs rl)
  consider (over) "p = hi" | (used) "p < hi" "\<not> bitmap_is_free bm p"
    | (found) "p < hi" "bitmap_is_free bm p" "count \<le> Suc rl"
    | (longer) "p < hi" "bitmap_is_free bm p" "Suc rl < count"
    using "1.prems"(2) by linarith
  then show ?case
  proof cases
    case over
    with "1.prems" show ?thesis by (simp add: scan_frames_end scan_inv_def)
  next
    case used
    with "1.IH"(2) scan_inv_used [OF "1.prems"(1)] show ?thesis
      by (simp add: scan_frames.simps [of bm count p])
  next
    case found
    with scan_inv_found [OF "1.prems"(1)] show ?thesis
      by (simp add: scan_frames.simps [of bm count p] Let_def)
  next
    case longer
    with "1.IH"(1) scan_inv_free [OF "1.prems"(1)] show ?thesis
      by (simp add: scan_frames.simps [of bm count p] Let_def)
  qed
qed


lemma scan_words_Found:
  assumes "scan_words bm count wi end_word rs 0 = Found s" and "0 < count" and "wi \<le> end_word"
  shows "wi * 64 \<le> s" and "s + count \<le> end_word * 64" and "run_at bm s count"
    and "\<forall>s'. wi * 64 \<le> s' \<longrightarrow> s' < s \<longrightarrow> \<not> run_at bm s' count"
  using scan_frames_correct [OF scan_inv_start [OF assms(2), of bm "wi * 64" rs],
      of "end_word * 64"] assms(1,3)
  by (simp_all add: scan_words_eq_frames)

lemma scan_words_Scanning:
  assumes "scan_words bm count wi end_word rs 0 = Scanning rs' rl'"
    and "0 < count" and "wi \<le> end_word"
  shows "\<forall>s. wi * 64 \<le> s \<longrightarrow> s + count \<le> end_word * 64 \<longrightarrow> \<not> run_at bm s count"
  using scan_frames_correct [OF scan_inv_start [OF assms(2), of bm "wi * 64" rs],
      of "end_word * 64"] assms(1,3)
  by (simp add: scan_words_eq_frames)

text \<open>
  A run of \<open>count\<close> frames that lies on one side of the hint word: this is what the two
  passes can see. A run that begins below the hint and ends above it is on neither side.
\<close>

definition run_beside_hint :: "bitmap \<Rightarrow> nat \<Rightarrow> nat \<Rightarrow> nat \<Rightarrow> bool" where
  "run_beside_hint bm hint count s \<longleftrightarrow> run_at bm s count \<and>
     (hint * 64 \<le> s \<and> s + count \<le> BITMAP_TOTAL_PAGES \<or> s + count \<le> hint * 64)"

lemma BITMAP_WORDS_64: "BITMAP_WORDS * 64 = BITMAP_TOTAL_PAGES"
  by (simp add: BITMAP_WORDS_def BITMAP_TOTAL_PAGES_def)

lemma find_run_Some:
  assumes "find_run bm hint count = Some s" and "0 < count" and "hint \<le> BITMAP_WORDS"
  shows "run_beside_hint bm hint count s"
proof (cases "scan_words bm count hint BITMAP_WORDS 0 0 = Found s")
  case True
  with scan_words_Found [OF True assms(2,3)] show ?thesis
    by (simp add: run_beside_hint_def BITMAP_WORDS_64)
next
  case False
  with assms(1) have "scan_words bm count 0 hint 0 0 = Found s"
    by (auto simp: find_run_def split: scan.splits)
  from scan_words_Found [OF this assms(2)] show ?thesis
    by (simp add: run_beside_hint_def)
qed

lemma find_run_None:
  assumes "0 < count" and "hint \<le> BITMAP_WORDS"
  shows "find_run bm hint count = None \<longleftrightarrow> (\<nexists>s. run_beside_hint bm hint count s)"
proof
  assume "find_run bm hint count = None"
  then obtain a b c d where "scan_words bm count hint BITMAP_WORDS 0 0 = Scanning a b"
    and "scan_words bm count 0 hint 0 0 = Scanning c d"
    by (auto simp: find_run_def split: scan.splits)
  from scan_words_Scanning [OF this(1)] scan_words_Scanning [OF this(2)] assms
  show "\<nexists>s. run_beside_hint bm hint count s"
    by (auto simp: run_beside_hint_def BITMAP_WORDS_64)
next
  assume "\<nexists>s. run_beside_hint bm hint count s"
  with find_run_Some [OF _ assms] show "find_run bm hint count = None"
    by (cases "find_run bm hint count") auto
qed

end
