(* ===== verification/Pmm.thy ===== *)
theory Pmm
  imports Pmm_Bitmap
begin

text \<open>
  The physical memory manager of \<^verbatim>\<open>kernel/core/mem/pmm.c\<close>: boot-time population, the
  global bitmap pool, the per-CPU page caches in front of it, the contiguous allocator
  and the huge-page wrapper.

  The module's static variables are the fields of one record. A cache's
  \<^verbatim>\<open>pages[0..count)\<close> is a list (its last element is \<^verbatim>\<open>pages[count-1]\<close>, the next one
  to be handed out). The embedded free list of order 0 is the list of its node addresses;
  boot code pushes on it and no allocator reads it. Byte counters keep their 64-bit width
  and wrap. Each critical section (the code between taking and dropping a lock) is one
  function, and the public operations compose the sections in the code's order; log
  output is not modelled. \<open>rd\<close> is the kernel's 64-bit read of physical memory, \<open>cpu\<close>
  the result of \<^verbatim>\<open>cpu_id()\<close>, and \<open>kernel_end\<close> the linker's \<^verbatim>\<open>__kernel_end\<close>.
\<close>

section \<open>State\<close>

record page_cache =
  cache_pages :: "u64 list"
  alloc_fast :: u64
  alloc_slow :: u64

record pmm =
  pmm_bitmap :: bitmap
  pmm_bitmap_hint :: nat
  cpu_caches :: "nat \<Rightarrow> page_cache"
  free_list0 :: "u64 list"
  total_memory :: u64
  used_memory :: u64
  memory_start :: u64
  memory_end :: u64
  pmm_initrd_start :: u64
  pmm_initrd_end :: u64
  huge_pages_allocated :: u64
  huge_pages_freed :: u64
  huge_page_alloc_failures :: u64

record memory_map_entry =
  mm_base :: u64
  mm_length :: u64
  mm_type :: u32

definition PER_CPU_CACHE_SIZE :: nat where
  "PER_CPU_CACHE_SIZE = 16"

definition MAX_CPUS :: nat where
  "MAX_CPUS = 8"

definition PMM_INITIAL_MAX_PHYS :: u64 where
  "PMM_INITIAL_MAX_PHYS = 0x40000000"

definition SLAB_MAGIC :: u64 where
  "SLAB_MAGIC = 0x51AB0BACE51AB0B"

definition HUGE_PAGE_SIZE :: u64 where
  "HUGE_PAGE_SIZE = 0x200000"

definition PAGES_PER_HUGE_PAGE :: nat where
  "PAGES_PER_HUGE_PAGE = 512"

section \<open>Boot-time population\<close>

definition pmm_reserve_initrd :: "u64 \<Rightarrow> u64 \<Rightarrow> pmm \<Rightarrow> pmm" where
  "pmm_reserve_initrd start sz s =
     s\<lparr>pmm_initrd_start := start, pmm_initrd_end := ALIGN_UP_PAGE (start + sz)\<rparr>"

definition pmm_add_page_locked :: "u64 \<Rightarrow> pmm \<Rightarrow> pmm" where
  "pmm_add_page_locked addr s =
     (let s' = s\<lparr>free_list0 := addr # free_list0 s\<rparr>;
          pfn = pfn_of addr
      in if pfn < BITMAP_TOTAL_PAGES
         then s'\<lparr>pmm_bitmap := bitmap_set_free (pmm_bitmap s') pfn\<rparr> else s')"

text \<open>The three conditions under which both population loops skip a page.\<close>

definition pmm_skip_page :: "pmm \<Rightarrow> u64 \<Rightarrow> u64 \<Rightarrow> bool" where
  "pmm_skip_page s kernel_end_phys addr \<longleftrightarrow>
     addr < 0x100000 \<or>
     (0x100000 \<le> addr \<and> addr < kernel_end_phys) \<or>
     (pmm_initrd_start s \<noteq> 0 \<and> pmm_initrd_start s \<le> addr \<and> addr < pmm_initrd_end s)"

text \<open>The body of the population loop of boot, for one frame.\<close>

definition pmm_init_page :: "u64 \<Rightarrow> nat \<Rightarrow> pmm \<Rightarrow> pmm" where
  "pmm_init_page kernel_end_phys pfn s =
     (let addr = addr_of_pfn pfn in
      if pmm_skip_page s kernel_end_phys addr then s else pmm_add_page_locked addr s)"

text \<open>
  One usable entry of the boot memory map, below the initial 1 GB limit. \<open>base\<close> and
  \<open>region_end\<close> are page-aligned, so the address loop visits the frames between them.
\<close>

definition pmm_init_entry :: "u64 \<Rightarrow> memory_map_entry \<Rightarrow> pmm \<Rightarrow> pmm" where
  "pmm_init_entry kernel_end_phys e s =
     (if mm_type e = 1 then
        let base = ALIGN_UP_PAGE (mm_base e);
            region_end = ALIGN_DOWN_PAGE (mm_base e + mm_length e)
        in if region_end \<le> base then s
           else if PMM_INITIAL_MAX_PHYS \<le> base then s
           else let region_end = (if PMM_INITIAL_MAX_PHYS < region_end
                                  then PMM_INITIAL_MAX_PHYS else region_end);
                    s = s\<lparr>total_memory := total_memory s + (region_end - base),
                          memory_start := (if memory_start s = 0 \<or> base < memory_start s
                                           then base else memory_start s),
                          memory_end := (if memory_end s < region_end
                                         then region_end else memory_end s)\<rparr>
                in fold (pmm_init_page kernel_end_phys) [pfn_of base ..< pfn_of region_end] s
      else s)"

definition pmm_init :: "u64 \<Rightarrow> memory_map_entry list \<Rightarrow> pmm \<Rightarrow> pmm" where
  "pmm_init kernel_end mmap s =
     fold (pmm_init_entry (ALIGN_UP_PAGE kernel_end)) mmap
       (s\<lparr>free_list0 := [],
          cpu_caches := (\<lambda>i. if i < MAX_CPUS
            then \<lparr>cache_pages = [], alloc_fast = 0, alloc_slow = 0\<rparr> else cpu_caches s i)\<rparr>)"

definition pmm_add_remaining_page :: "u64 \<Rightarrow> nat \<Rightarrow> pmm \<Rightarrow> pmm" where
  "pmm_add_remaining_page kernel_end_phys pfn s =
     (let addr = addr_of_pfn pfn in
      if pmm_skip_page s kernel_end_phys addr then s
      else if BITMAP_TOTAL_PAGES \<le> pfn_of addr then s
      else s\<lparr>pmm_bitmap := bitmap_set_free (pmm_bitmap s) (pfn_of addr)\<rparr>)"

definition pmm_add_remaining_entry ::
    "u64 \<Rightarrow> memory_map_entry \<Rightarrow> pmm \<times> u64 \<Rightarrow> pmm \<times> u64" where
  "pmm_add_remaining_entry kernel_end_phys e = (\<lambda>(s, added_memory).
     if mm_type e = 1 then
        let base = ALIGN_UP_PAGE (mm_base e);
            region_end = ALIGN_DOWN_PAGE (mm_base e + mm_length e)
        in if region_end \<le> base then (s, added_memory)
           else if region_end \<le> PMM_INITIAL_MAX_PHYS then (s, added_memory)
           else let base = (if base < PMM_INITIAL_MAX_PHYS then PMM_INITIAL_MAX_PHYS else base)
                in (fold (pmm_add_remaining_page kernel_end_phys)
                      [pfn_of base ..< pfn_of region_end] s,
                    added_memory + (region_end - base))
     else (s, added_memory))"

definition pmm_add_remaining_pages :: "u64 \<Rightarrow> memory_map_entry list \<Rightarrow> pmm \<Rightarrow> pmm" where
  "pmm_add_remaining_pages kernel_end mmap s =
     (let (s', added_memory) =
        fold (pmm_add_remaining_entry (ALIGN_UP_PAGE kernel_end)) mmap (s, 0)
      in s'\<lparr>total_memory := total_memory s' + added_memory\<rparr>)"

section \<open>The global pool: single pages\<close>

definition scan_limit :: "pmm \<Rightarrow> nat" where
  "scan_limit s =
     (let total_pfns = unat (total_memory s div 4096)
      in if total_pfns = 0 \<or> BITMAP_TOTAL_PAGES < total_pfns
         then BITMAP_TOTAL_PAGES else total_pfns)"

text \<open>One word of the rotating scan: its lowest free frame, if the scan accepts it.\<close>

definition slow_pick :: "bitmap \<Rightarrow> nat \<Rightarrow> nat \<Rightarrow> nat option" where
  "slow_pick bm total_pfns w =
     (let bits = bm w in
      if bits = 0 then None
      else let pfn = w * 64 + ctz bits
           in if pfn = 0 \<or> total_pfns \<le> pfn then None else Some pfn)"

function slow_scan :: "bitmap \<Rightarrow> nat \<Rightarrow> nat \<Rightarrow> nat \<Rightarrow> nat \<Rightarrow> (nat \<times> nat) option" where
  "slow_scan bm hint total_words total_pfns scanned =
     (if scanned < total_words then
        let w = hint + scanned;
            w = (if total_words \<le> w then w - total_words else w)
        in case slow_pick bm total_pfns w of
             Some pfn \<Rightarrow> Some (w, pfn)
           | None \<Rightarrow> slow_scan bm hint total_words total_pfns (Suc scanned)
      else None)"
  by pat_completeness auto
termination
  by (relation "measure (\<lambda>(bm, hint, tw, tp, scanned). tw - scanned)") auto

declare slow_scan.simps [simp del]

definition pmm_alloc_page_slow :: "pmm \<Rightarrow> u64 \<times> pmm" where
  "pmm_alloc_page_slow s =
     (let total_pfns = scan_limit s;
          total_words = (total_pfns + 63) div 64;
          hint = (if pmm_bitmap_hint s < total_words then pmm_bitmap_hint s else 0)
      in case slow_scan (pmm_bitmap s) hint total_words total_pfns 0 of
           None \<Rightarrow> (0, s)
         | Some (w, pfn) \<Rightarrow>
             (addr_of_pfn pfn,
              s\<lparr>pmm_bitmap := bitmap_set_used (pmm_bitmap s) pfn,
                used_memory := used_memory s + 4096,
                pmm_bitmap_hint := w\<rparr>))"

definition pmm_free_page_slow :: "u64 \<Rightarrow> pmm \<Rightarrow> pmm" where
  "pmm_free_page_slow page_addr s =
     (if page_addr = 0 then s
      else let s' = s\<lparr>used_memory := used_memory s - 4096\<rparr>;
               pfn = pfn_of page_addr
           in if pfn < BITMAP_TOTAL_PAGES
              then s'\<lparr>pmm_bitmap := bitmap_set_free (pmm_bitmap s') pfn,
                      pmm_bitmap_hint := pfn div 64\<rparr>
              else s')"

section \<open>The global pool: batches\<close>

text \<open>The inner loop of a refill: take frames from one word until it or the demand is done.\<close>

lemma card_bits_clear_less:
  fixes bits :: u64
  assumes "bits \<noteq> 0"
  shows "card {i. bit (bits AND NOT (push_bit (ctz bits) 1)) i} < card {i. bit bits i}"
proof (rule psubset_card_mono)
  show "finite {i. bit bits i}"
    by (rule finite_subset [of _ "{..<64}"]) (auto dest: bit_imp_le_length)
  show "{i. bit (bits AND NOT (push_bit (ctz bits) 1)) i} \<subset> {i. bit bits i}"
    using bit_ctz [OF assms] ctz_less [OF assms] by (auto simp: bit_simps)
qed

function batch_word :: "nat \<Rightarrow> nat \<Rightarrow> nat \<Rightarrow> u64 \<Rightarrow> u64 list \<Rightarrow> pmm \<Rightarrow> u64 list \<times> pmm" where
  "batch_word want total_pfns w bits out s =
     (if bits \<noteq> 0 \<and> length out < want then
        let b = ctz bits;
            pfn = w * 64 + b;
            bits' = bits AND NOT (push_bit b 1)
        in if pfn = 0 \<or> total_pfns \<le> pfn then batch_word want total_pfns w bits' out s
           else batch_word want total_pfns w bits' (out @ [addr_of_pfn pfn])
                  (s\<lparr>pmm_bitmap := bitmap_set_used (pmm_bitmap s) pfn,
                     used_memory := used_memory s + 4096\<rparr>)
      else (out, s))"
  by pat_completeness auto
termination
  by (relation "measure (\<lambda>(want, tp, w, bits, out, s). card {i. bit bits i})")
    (use card_bits_clear_less in auto)

declare batch_word.simps [simp del]

function batch_scan ::
    "nat \<Rightarrow> nat \<Rightarrow> nat \<Rightarrow> nat \<Rightarrow> nat \<Rightarrow> u64 list \<Rightarrow> pmm \<Rightarrow> u64 list \<times> pmm" where
  "batch_scan want hint total_words total_pfns scanned out s =
     (if scanned < total_words \<and> length out < want then
        let w = hint + scanned;
            w = (if total_words \<le> w then w - total_words else w);
            bits = pmm_bitmap s w
        in if bits = 0 then batch_scan want hint total_words total_pfns (Suc scanned) out s
           else let (out', s') = batch_word want total_pfns w bits out s
                in batch_scan want hint total_words total_pfns (Suc scanned) out'
                     (s'\<lparr>pmm_bitmap_hint := w\<rparr>)
      else (out, s))"
  by pat_completeness auto
termination
  by (relation "measure (\<lambda>(want, hint, tw, tp, scanned, out, s). tw - scanned)") auto

declare batch_scan.simps [simp del]

definition pmm_alloc_batch_slow :: "nat \<Rightarrow> pmm \<Rightarrow> u64 list \<times> pmm" where
  "pmm_alloc_batch_slow want s =
     (if want = 0 then ([], s)
      else let total_pfns = scan_limit s;
               total_words = (total_pfns + 63) div 64;
               hint = (if pmm_bitmap_hint s < total_words then pmm_bitmap_hint s else 0)
           in batch_scan want hint total_words total_pfns 0 [] s)"

primrec pmm_free_batch_slow :: "u64 list \<Rightarrow> pmm \<Rightarrow> pmm" where
  "pmm_free_batch_slow [] s = s"
| "pmm_free_batch_slow (page # pages) s = pmm_free_batch_slow pages (pmm_free_page_slow page s)"

section \<open>The per-CPU caches\<close>

definition this_cpu :: "nat \<Rightarrow> nat" where
  "this_cpu cpu = (if MAX_CPUS \<le> cpu then 0 else cpu)"

definition set_cache :: "nat \<Rightarrow> u64 list \<Rightarrow> pmm \<Rightarrow> pmm" where
  "set_cache c pages s =
     s\<lparr>cpu_caches := (cpu_caches s)(c := (cpu_caches s c)\<lparr>cache_pages := pages\<rparr>)\<rparr>"

abbreviation cached :: "pmm \<Rightarrow> nat \<Rightarrow> u64 list" where
  "cached s c \<equiv> cache_pages (cpu_caches s c)"

text \<open>First critical section of an allocation: a hit pops the cache, a miss is counted.\<close>

definition alloc_fast_section :: "nat \<Rightarrow> pmm \<Rightarrow> u64 option \<times> pmm" where
  "alloc_fast_section c s =
     (let cache = cpu_caches s c in
      if cache_pages cache \<noteq> [] then
        (Some (last (cache_pages cache)),
         s\<lparr>cpu_caches := (cpu_caches s)(c := cache\<lparr>cache_pages := butlast (cache_pages cache),
             alloc_fast := alloc_fast cache + 1\<rparr>)\<rparr>)
      else (None, s\<lparr>cpu_caches := (cpu_caches s)(c := cache\<lparr>alloc_slow := alloc_slow cache + 1\<rparr>)\<rparr>))"

text \<open>One iteration of the refill loop: into the cache, or back to the pool when full.\<close>

definition refill_step :: "nat \<Rightarrow> u64 \<Rightarrow> pmm \<Rightarrow> pmm" where
  "refill_step c page s =
     (if length (cached s c) < PER_CPU_CACHE_SIZE
      then set_cache c (cached s c @ [page]) s
      else pmm_free_page_slow page s)"

text \<open>Last section: hand out the top of the refilled cache, or NULL.\<close>

definition alloc_last_section :: "nat \<Rightarrow> pmm \<Rightarrow> u64 \<times> pmm" where
  "alloc_last_section c s =
     (if cached s c \<noteq> [] then (last (cached s c), set_cache c (butlast (cached s c)) s) else (0, s))"

definition pmm_alloc_page :: "nat \<Rightarrow> pmm \<Rightarrow> u64 \<times> pmm" where
  "pmm_alloc_page cpu s =
     (let c = this_cpu cpu in
      case alloc_fast_section c s of
        (Some page, s1) \<Rightarrow> (page, s1)
      | (None, s1) \<Rightarrow>
          (let (refill_pages, s2) = pmm_alloc_batch_slow PER_CPU_CACHE_SIZE s1;
               s3 = fold (refill_step c) refill_pages s2
           in alloc_last_section c s3))"

text \<open>The guards of \<^verbatim>\<open>pmm_free_page\<close>; a page that fails one is not freed.\<close>

definition pmm_free_guard :: "(u64 \<Rightarrow> u64) \<Rightarrow> u64 \<Rightarrow> pmm \<Rightarrow> bool" where
  "pmm_free_guard rd page_addr s \<longleftrightarrow>
     page_addr \<noteq> 0 \<and>
     page_addr AND (4096 - 1) = 0 \<and>
     \<not> page_addr < 0x100000 \<and>
     \<not> BITMAP_TOTAL_PAGES \<le> pfn_of page_addr \<and>
     \<not> bitmap_is_free (pmm_bitmap s) (pfn_of page_addr) \<and>
     \<not> (pmm_initrd_start s \<noteq> 0 \<and> pmm_initrd_start s \<le> page_addr \<and> page_addr < pmm_initrd_end s) \<and>
     rd page_addr \<noteq> SLAB_MAGIC"

text \<open>
  The cache section of a free: reject a page that is already in this cache, push it, or
  drain half of a full cache and push. The result is the drained pages, in drain order.
\<close>

definition free_cache_section :: "nat \<Rightarrow> u64 \<Rightarrow> pmm \<Rightarrow> u64 list \<times> pmm" where
  "free_cache_section c page_addr s =
     (let pages = cached s c in
      if page_addr \<in> set pages then ([], s)
      else if length pages < PER_CPU_CACHE_SIZE then ([], set_cache c (pages @ [page_addr]) s)
      else let keep = length pages - length pages div 2
           in (rev (drop keep pages), set_cache c (take keep pages @ [page_addr]) s))"

definition pmm_free_page :: "(u64 \<Rightarrow> u64) \<Rightarrow> nat \<Rightarrow> u64 \<Rightarrow> pmm \<Rightarrow> pmm" where
  "pmm_free_page rd cpu page_addr s =
     (if pmm_free_guard rd page_addr s then
        let (drain_pages, s1) = free_cache_section (this_cpu cpu) page_addr s
        in pmm_free_batch_slow drain_pages s1
      else s)"

definition pmm_reclaim_cpu_cache :: "nat \<Rightarrow> pmm \<Rightarrow> nat \<times> pmm" where
  "pmm_reclaim_cpu_cache cpu s =
     (if MAX_CPUS \<le> cpu then (0, s)
      else let pages_to_free = cached s cpu;
               s1 = set_cache cpu [] s
           in (length pages_to_free, fold pmm_free_page_slow pages_to_free s1))"

section \<open>The contiguous allocator\<close>

definition pmm_alloc_pages :: "nat \<Rightarrow> nat \<Rightarrow> pmm \<Rightarrow> u64 \<times> pmm" where
  "pmm_alloc_pages cpu count s =
     (if count = 0 then (0, s)
      else if count = 1 then pmm_alloc_page cpu s
      else case find_run (pmm_bitmap s) (pmm_bitmap_hint s) count of
        None \<Rightarrow> (0, s)
      | Some run_start \<Rightarrow>
          (let next_hint_pfn = run_start + count
           in (addr_of_pfn run_start,
               s\<lparr>pmm_bitmap := bitmap_set_used_run (pmm_bitmap s) run_start count,
                 used_memory := used_memory s + of_nat count * 4096,
                 pmm_bitmap_hint := (if next_hint_pfn < BITMAP_TOTAL_PAGES
                                     then next_hint_pfn div 64 else 0)\<rparr>)))"

primrec free_pages_loop :: "(u64 \<Rightarrow> u64) \<Rightarrow> nat \<Rightarrow> nat \<Rightarrow> pmm \<Rightarrow> pmm" where
  "free_pages_loop rd pfn 0 s = s"
| "free_pages_loop rd pfn (Suc n) s =
     (if BITMAP_TOTAL_PAGES \<le> pfn then s
      else if rd (addr_of_pfn pfn) = SLAB_MAGIC then free_pages_loop rd (Suc pfn) n s
      else if bitmap_is_free (pmm_bitmap s) pfn then free_pages_loop rd (Suc pfn) n s
      else free_pages_loop rd (Suc pfn) n
             (s\<lparr>pmm_bitmap := bitmap_set_free (pmm_bitmap s) pfn,
                used_memory := used_memory s - 4096\<rparr>))"

definition pmm_free_pages :: "(u64 \<Rightarrow> u64) \<Rightarrow> nat \<Rightarrow> u64 \<Rightarrow> nat \<Rightarrow> pmm \<Rightarrow> pmm" where
  "pmm_free_pages rd cpu base count s =
     (if base = 0 \<or> count = 0 then s
      else if pmm_initrd_start s \<noteq> 0 \<and> base < pmm_initrd_end s \<and>
              pmm_initrd_start s < base + of_nat count * 4096 then s
      else if count = 1 then pmm_free_page rd cpu base s
      else let start_pfn = pfn_of base;
               s' = free_pages_loop rd start_pfn count s
           in if start_pfn div 64 < pmm_bitmap_hint s'
              then s'\<lparr>pmm_bitmap_hint := start_pfn div 64\<rparr> else s')"

section \<open>Statistics and huge pages\<close>

definition pmm_get_total_memory :: "pmm \<Rightarrow> u64" where
  "pmm_get_total_memory s = total_memory s"

definition pmm_get_used_memory :: "pmm \<Rightarrow> u64" where
  "pmm_get_used_memory s = used_memory s"

definition pmm_get_free_memory :: "pmm \<Rightarrow> u64" where
  "pmm_get_free_memory s = total_memory s - used_memory s"

definition pmm_alloc_huge_page :: "(u64 \<Rightarrow> u64) \<Rightarrow> nat \<Rightarrow> pmm \<Rightarrow> u64 \<times> pmm" where
  "pmm_alloc_huge_page rd cpu s =
     (let (base, s1) = pmm_alloc_pages cpu PAGES_PER_HUGE_PAGE s in
      if base = 0 then
        (0, s1\<lparr>huge_page_alloc_failures := huge_page_alloc_failures s1 + 1\<rparr>)
      else if base AND (HUGE_PAGE_SIZE - 1) \<noteq> 0 then
        let s2 = pmm_free_pages rd cpu base PAGES_PER_HUGE_PAGE s1
        in (0, s2\<lparr>huge_page_alloc_failures := huge_page_alloc_failures s2 + 1\<rparr>)
      else (base, s1\<lparr>huge_pages_allocated := huge_pages_allocated s1 + 1\<rparr>))"

definition pmm_free_huge_page :: "(u64 \<Rightarrow> u64) \<Rightarrow> nat \<Rightarrow> u64 \<Rightarrow> pmm \<Rightarrow> pmm" where
  "pmm_free_huge_page rd cpu base s =
     (if base = 0 then s
      else if base AND (HUGE_PAGE_SIZE - 1) \<noteq> 0 then s
      else let s1 = pmm_free_pages rd cpu base PAGES_PER_HUGE_PAGE s
           in s1\<lparr>huge_pages_freed := huge_pages_freed s1 + 1\<rparr>)"

definition pmm_get_huge_page_stats :: "pmm \<Rightarrow> u64 \<times> u64 \<times> u64" where
  "pmm_get_huge_page_stats s =
     (huge_pages_allocated s, huge_pages_freed s, huge_page_alloc_failures s)"

end
