(* ===== verification/Pmm_Pool.thy ===== *)
theory Pmm_Pool
  imports Pmm
begin

text \<open>
  What the global pool of the physical memory manager guarantees: an allocation removes
  free frames from the bitmap and accounts for them, a release puts frames back. The two
  effects are the relations \<open>takes\<close> and \<open>gives\<close>; the locale \<open>frame_pool\<close> is the
  contract between the pool and everything that draws from it, and both slow paths of
  the code are shown to satisfy it.
\<close>

section \<open>Frames\<close>

definition frame_ok :: "u64 \<Rightarrow> bool" where
  "frame_ok a \<longleftrightarrow> a AND 4095 = 0 \<and> 0x100000 \<le> a \<and> pfn_of a < BITMAP_TOTAL_PAGES"

abbreviation free_in :: "pmm \<Rightarrow> nat \<Rightarrow> bool" where
  "free_in s p \<equiv> bitmap_is_free (pmm_bitmap s) p"

text \<open>
  The pool's invariant: the hint is a word of the bitmap, and only frames at or above
  1 MB and inside the bitmap are ever free.
\<close>

definition pool_inv :: "pmm \<Rightarrow> bool" where
  "pool_inv s \<longleftrightarrow> pmm_bitmap_hint s < BITMAP_WORDS \<and>
     (\<forall>p. free_in s p \<longrightarrow> 256 \<le> p \<and> p < BITMAP_TOTAL_PAGES)"

lemma pool_inv_free: "pool_inv s \<Longrightarrow> free_in s p \<Longrightarrow> 256 \<le> p \<and> p < BITMAP_TOTAL_PAGES"
  by (simp add: pool_inv_def)

lemma unat_addr_of_frame: "p < BITMAP_TOTAL_PAGES \<Longrightarrow> unat (addr_of_pfn p) = p * 4096"
  by (rule unat_addr_of_pfn) (simp add: BITMAP_TOTAL_PAGES_def)

lemma pfn_of_addr_of_frame [simp]: "p < BITMAP_TOTAL_PAGES \<Longrightarrow> pfn_of (addr_of_pfn p) = p"
  by (rule pfn_of_addr_of_pfn) (simp add: BITMAP_TOTAL_PAGES_def)

lemma aligned_addr: "a AND 4095 = 0 \<longleftrightarrow> unat a mod 4096 = 0" for a :: u64
proof -
  have "a AND 4095 = take_bit 12 a"
    by (simp add: take_bit_eq_mask mask_eq_exp_minus_1)
  moreover have "unat (take_bit 12 a) = unat a mod 4096"
    by (simp add: unsigned_take_bit_eq) (simp add: take_bit_eq_mod)
  ultimately show ?thesis
    by (metis unat_eq_0)
qed

lemma addr_of_pfn_of:
  assumes "a AND 4095 = 0"
  shows "addr_of_pfn (pfn_of a) = a"
proof -
  have "unat (addr_of_pfn (pfn_of a)) = unat a"
  proof -
    have "unat a div 4096 < 2 ^ 52"
      using unsigned_less [of a, where 'a = nat] by (simp add: less_mult_imp_div_less)
    with assms show ?thesis
      by (simp add: aligned_addr unat_addr_of_pfn pfn_of_def unat_div div_mult_self_is_m
          flip: dvd_eq_mod_eq_0)
  qed
  then show ?thesis
    by (simp add: word_unat_eq_iff)
qed

lemma frame_ok_iff: "frame_ok a \<longleftrightarrow> (\<exists>p. 256 \<le> p \<and> p < BITMAP_TOTAL_PAGES \<and> a = addr_of_pfn p)"
proof
  assume *: "frame_ok a"
  then have "1048576 \<le> unat a"
    by (simp add: frame_ok_def word_le_nat_alt)
  then have "256 \<le> pfn_of a"
    by (simp add: pfn_of_def unat_div)
  with * show "\<exists>p. 256 \<le> p \<and> p < BITMAP_TOTAL_PAGES \<and> a = addr_of_pfn p"
    by (intro exI [of _ "pfn_of a"]) (simp add: frame_ok_def addr_of_pfn_of)
next
  assume "\<exists>p. 256 \<le> p \<and> p < BITMAP_TOTAL_PAGES \<and> a = addr_of_pfn p"
  then show "frame_ok a"
    by (auto simp: frame_ok_def aligned_addr unat_addr_of_frame word_le_nat_alt)
qed

lemma frame_ok_addr: "256 \<le> p \<Longrightarrow> p < BITMAP_TOTAL_PAGES \<Longrightarrow> frame_ok (addr_of_pfn p)"
  by (auto simp: frame_ok_iff)

lemma frame_ok_nonzero: "frame_ok a \<Longrightarrow> a \<noteq> 0"
  by (auto simp: frame_ok_def)

lemma frame_ok_pfn: "frame_ok a \<Longrightarrow> addr_of_pfn (pfn_of a) = a"
  by (simp add: frame_ok_def addr_of_pfn_of)

lemma pfn_of_inj_on_frames: "frame_ok a \<Longrightarrow> frame_ok b \<Longrightarrow> pfn_of a = pfn_of b \<longleftrightarrow> a = b"
  by (metis frame_ok_pfn)

section \<open>The two effects on the pool\<close>

text \<open>Only the pool's own fields differ between the two states.\<close>

definition pool_only :: "pmm \<Rightarrow> pmm \<Rightarrow> bool" where
  "pool_only s s' \<longleftrightarrow> s' = s\<lparr>pmm_bitmap := pmm_bitmap s', pmm_bitmap_hint := pmm_bitmap_hint s',
     used_memory := used_memory s'\<rparr>"

definition takes :: "u64 list \<Rightarrow> pmm \<Rightarrow> pmm \<Rightarrow> bool" where
  "takes fs s s' \<longleftrightarrow> distinct fs \<and> (\<forall>a \<in> set fs. frame_ok a \<and> free_in s (pfn_of a)) \<and>
     (\<forall>p. free_in s' p \<longleftrightarrow> free_in s p \<and> p \<notin> pfn_of ` set fs) \<and>
     used_memory s' = used_memory s + of_nat (length fs) * 4096 \<and>
     pool_inv s' \<and> pool_only s s'"

definition gives :: "u64 list \<Rightarrow> pmm \<Rightarrow> pmm \<Rightarrow> bool" where
  "gives fs s s' \<longleftrightarrow>
     (\<forall>p. free_in s' p \<longleftrightarrow> free_in s p \<or> p \<in> pfn_of ` set fs) \<and>
     used_memory s' = used_memory s - of_nat (length fs) * 4096 \<and>
     pool_inv s' \<and> pool_only s s'"

lemma pool_only_refl [simp]: "pool_only s s"
  by (simp add: pool_only_def)

lemma pool_only_trans: "pool_only s s' \<Longrightarrow> pool_only s' s'' \<Longrightarrow> pool_only s s''"
  by (cases s, cases s', cases s'') (simp add: pool_only_def)

lemma takes_Nil [simp]: "pool_inv s \<Longrightarrow> takes [] s s"
  by (simp add: takes_def)

lemma gives_Nil [simp]: "pool_inv s \<Longrightarrow> gives [] s s"
  by (simp add: gives_def)

lemma takes_append:
  assumes "takes fs s s'" and "takes gs s' s''"
  shows "takes (fs @ gs) s s''"
  using assms pool_only_trans [of s s' s'']
  by (auto simp: takes_def algebra_simps)

lemma gives_append:
  assumes "gives fs s s'" and "gives gs s' s''"
  shows "gives (fs @ gs) s s''"
proof -
  have "used_memory s'' = used_memory s - of_nat (length (fs @ gs)) * 4096"
    using assms by (simp add: gives_def distrib_right)
  with assms pool_only_trans [of s s' s''] show ?thesis
    by (auto simp: gives_def)
qed

lemma pool_only_fields:
  assumes "pool_only s s'"
  shows "cpu_caches s' = cpu_caches s" and "pmm_initrd_start s' = pmm_initrd_start s"
    and "pmm_initrd_end s' = pmm_initrd_end s" and "total_memory s' = total_memory s"
  using assms by (cases s, cases s', simp add: pool_only_def)+


section \<open>Single frames\<close>

lemma takes_one:
  assumes "pool_inv s" and "free_in s p" and "h < BITMAP_WORDS"
  shows "takes [addr_of_pfn p] s
    (s\<lparr>pmm_bitmap := bitmap_set_used (pmm_bitmap s) p, used_memory := used_memory s + 4096,
       pmm_bitmap_hint := h\<rparr>)"
  using pool_inv_free [OF assms(1,2)] assms
  by (auto simp: takes_def frame_ok_addr pool_inv_def pool_only_def)

lemma gives_one:
  assumes "pool_inv s" and "frame_ok a"
  shows "gives [a] s (pmm_free_page_slow a s)"
proof -
  from assms(2) obtain p where p: "256 \<le> p" "p < BITMAP_TOTAL_PAGES" "a = addr_of_pfn p"
    by (auto simp: frame_ok_iff)
  then have "p div 64 < BITMAP_WORDS"
    by (simp add: BITMAP_WORDS_def BITMAP_TOTAL_PAGES_def)
  with p assms(1) frame_ok_nonzero [OF assms(2)] show ?thesis
    by (auto simp: gives_def pmm_free_page_slow_def pool_inv_def pool_only_def Let_def)
qed

lemma gives_inv: "gives fs s s' \<Longrightarrow> pool_inv s'"
  by (simp add: gives_def)

lemma takes_inv: "takes fs s s' \<Longrightarrow> pool_inv s'"
  by (simp add: takes_def)

lemma gives_batch:
  assumes "pool_inv s" and "\<forall>a \<in> set fs. frame_ok a"
  shows "gives fs s (pmm_free_batch_slow fs s)"
  using assms
proof (induction fs arbitrary: s)
  case Nil
  then show ?case by simp
next
  case (Cons a fs)
  have one: "gives [a] s (pmm_free_page_slow a s)"
    using Cons.prems by (simp add: gives_one)
  then have "gives fs (pmm_free_page_slow a s) (pmm_free_batch_slow fs (pmm_free_page_slow a s))"
    using Cons by (simp add: gives_inv)
  from gives_append [OF one this] show ?case
    by simp
qed

lemma fold_free_page_slow: "fold pmm_free_page_slow fs s = pmm_free_batch_slow fs s"
  by (induction fs arbitrary: s) auto

section \<open>The rotating single-page scan\<close>

lemma scan_limit_le: "scan_limit s \<le> BITMAP_TOTAL_PAGES"
  by (simp add: scan_limit_def Let_def)

lemma scan_limit_words: "(scan_limit s + 63) div 64 \<le> BITMAP_WORDS"
  using scan_limit_le [of s] by (simp add: BITMAP_WORDS_def BITMAP_TOTAL_PAGES_def)

lemma scan_limit_pos: "0 < scan_limit s"
  by (simp add: scan_limit_def Let_def BITMAP_TOTAL_PAGES_def)

lemma slow_pick_Some:
  assumes "slow_pick bm tp w = Some p"
  shows "bitmap_is_free bm p" and "p < tp" and "p div 64 = w"
proof -
  have "bm w \<noteq> 0" and p: "p = w * 64 + ctz (bm w)" and "p < tp"
    using assms by (auto simp: slow_pick_def Let_def split: if_splits)
  moreover have "ctz (bm w) < 64" and "bit (bm w) (ctz (bm w))"
    using ctz_less [of "bm w"] bit_ctz [of "bm w"] \<open>bm w \<noteq> 0\<close> by auto
  ultimately show "bitmap_is_free bm p" and "p < tp" and "p div 64 = w"
    by (auto simp: bitmap_is_free_bit)
qed

lemma slow_pick_None:
  assumes "slow_pick bm tp w = None" and "\<not> bitmap_is_free bm 0" and "p div 64 = w" and "p < tp"
  shows "\<not> bitmap_is_free bm p"
proof
  assume free: "bitmap_is_free bm p"
  then have bit: "bit (bm w) (p mod 64)"
    using assms(3) by (simp add: bitmap_is_free_bit)
  then have nz: "bm w \<noteq> 0"
    by auto
  have "ctz (bm w) \<le> p mod 64"
    using bit not_bit_below_ctz [of "p mod 64" "bm w"] by (meson not_le)
  moreover have "p = w * 64 + p mod 64"
    using assms(3) by (metis div_mult_mod_eq)
  ultimately have "w * 64 + ctz (bm w) \<le> p"
    by linarith
  with assms(1,4) nz have "w * 64 + ctz (bm w) = 0"
    by (auto simp: slow_pick_def Let_def split: if_splits)
  then have "w = 0" and "ctz (bm w) = 0"
    by auto
  then have "bitmap_is_free bm 0"
    using bit_ctz [OF nz] by (auto simp: bitmap_is_free_bit)
  with assms(2) show False ..
qed

lemma slow_scan_Some:
  assumes "slow_scan bm hint tw tp k = Some (w, p)" and "hint < tw"
  shows "slow_pick bm tp w = Some p \<and> w < tw"
  using assms
proof (induction bm hint tw tp k rule: slow_scan.induct)
  case (1 bm hint tw tp k)
  then show ?case
    by (auto simp: slow_scan.simps [of bm hint tw tp k] Let_def split: if_splits option.splits)
qed

lemma slow_scan_None:
  assumes "slow_scan bm hint tw tp k = None" and "hint < tw" and "k \<le> j" and "j < tw"
  shows "slow_pick bm tp (if tw \<le> hint + j then hint + j - tw else hint + j) = None"
  using assms
proof (induction bm hint tw tp k rule: slow_scan.induct)
  case (1 bm hint tw tp k)
  then show ?case
    by (cases "j = k")
      (auto simp: slow_scan.simps [of bm hint tw tp k] Let_def split: if_splits option.splits)
qed

lemma slow_scan_None_all:
  assumes "slow_scan bm hint tw tp 0 = None" and "hint < tw" and "w < tw"
  shows "slow_pick bm tp w = None"
proof (cases "hint \<le> w")
  case True
  with slow_scan_None [OF assms(1,2), of "w - hint"] assms(3) show ?thesis
    by (simp split: if_splits)
next
  case False
  with slow_scan_None [OF assms(1,2), of "w + tw - hint"] assms(2,3) show ?thesis
    by (auto split: if_splits)
qed


lemma alloc_page_slow_takes:
  assumes "pool_inv s" and "pmm_alloc_page_slow s = (a, s')" and "a \<noteq> 0"
  shows "takes [a] s s'" and "pfn_of a < scan_limit s"
proof -
  define tw where "tw = (scan_limit s + 63) div 64"
  define hint where "hint = (if pmm_bitmap_hint s < tw then pmm_bitmap_hint s else 0)"
  have hint: "hint < tw"
    using scan_limit_pos [of s] by (auto simp: hint_def tw_def)
  from assms(2,3) obtain w p where scan: "slow_scan (pmm_bitmap s) hint tw (scan_limit s) 0 = Some (w, p)"
    and a: "a = addr_of_pfn p"
    and s': "s' = s\<lparr>pmm_bitmap := bitmap_set_used (pmm_bitmap s) p,
      used_memory := used_memory s + 4096, pmm_bitmap_hint := w\<rparr>"
    by (auto simp: pmm_alloc_page_slow_def Let_def hint_def tw_def split: option.splits)
  from slow_scan_Some [OF scan hint] have pick: "slow_pick (pmm_bitmap s) (scan_limit s) w = Some p"
    and "w < tw"
    by simp_all
  with scan_limit_words [of s] have "w < BITMAP_WORDS"
    by (simp add: tw_def)
  with slow_pick_Some [OF pick] assms(1) show "takes [a] s s'"
    by (simp add: a s' takes_one)
  show "pfn_of a < scan_limit s"
    using slow_pick_Some [OF pick] scan_limit_le [of s] by (simp add: a)
qed

lemma alloc_page_slow_null:
  assumes "pool_inv s" and "pmm_alloc_page_slow s = (0, s')"
  shows "s' = s" and "\<forall>p < scan_limit s. \<not> free_in s p"
proof -
  define tw where "tw = (scan_limit s + 63) div 64"
  define hint where "hint = (if pmm_bitmap_hint s < tw then pmm_bitmap_hint s else 0)"
  have hint: "hint < tw"
    using scan_limit_pos [of s] by (auto simp: hint_def tw_def)
  have none: "slow_scan (pmm_bitmap s) hint tw (scan_limit s) 0 = None"
  proof (rule ccontr)
    assume "slow_scan (pmm_bitmap s) hint tw (scan_limit s) 0 \<noteq> None"
    then obtain w p where scan: "slow_scan (pmm_bitmap s) hint tw (scan_limit s) 0 = Some (w, p)"
      by auto
    with slow_scan_Some [OF scan hint] slow_pick_Some(1) have "free_in s p"
      by blast
    then have "frame_ok (addr_of_pfn p)"
      using pool_inv_free [OF assms(1)] by (simp add: frame_ok_addr)
    with assms(2) scan frame_ok_nonzero show False
      by (auto simp: pmm_alloc_page_slow_def Let_def hint_def tw_def)
  qed
  with assms(2) show "s' = s"
    by (auto simp: pmm_alloc_page_slow_def Let_def hint_def tw_def)
  have "\<not> free_in s 0"
    using pool_inv_free [OF assms(1), of 0] by auto
  show "\<forall>p < scan_limit s. \<not> free_in s p"
  proof (intro allI impI)
    fix p assume p: "p < scan_limit s"
    then have "p div 64 < tw"
      by (simp add: tw_def)
    from slow_pick_None [OF slow_scan_None_all [OF none hint this] \<open>\<not> free_in s 0\<close> refl p]
    show "\<not> free_in s p" .
  qed
qed

section \<open>Batches\<close>

lemma batch_word_takes:
  assumes "batch_word want tp w bits out s = (out', s')" and "pool_inv s"
    and "\<forall>i. bit bits i \<longrightarrow> free_in s (w * 64 + i)" and "length out \<le> want"
  shows "\<exists>fs. out' = out @ fs \<and> takes fs s s' \<and> length out' \<le> want \<and>
    (length out' < want \<longrightarrow> (\<forall>i. bit bits i \<longrightarrow> w * 64 + i < tp \<longrightarrow> \<not> free_in s' (w * 64 + i)))"
  using assms
proof (induction want tp w bits out s rule: batch_word.induct)
  case (1 want tp w bits out s)
  let ?b = "ctz bits" and ?bits = "bits AND NOT (push_bit (ctz bits) 1)"
  let ?pfn = "w * 64 + ctz bits"
  let ?s = "s\<lparr>pmm_bitmap := bitmap_set_used (pmm_bitmap s) ?pfn,
      used_memory := used_memory s + 4096\<rparr>"
  show ?case
  proof (cases "bits \<noteq> 0 \<and> length out < want")
    case False
    with "1.prems" have "out' = out" and "s' = s" and "bits = 0 \<or> length out = want"
      by (auto simp: batch_word.simps)
    with "1.prems" show ?thesis
      by auto
  next
    case True
    then have nz: "bits \<noteq> 0" by simp
    have bits': "bit ?bits i \<longleftrightarrow> bit bits i \<and> i \<noteq> ?b" for i
      using ctz_less [OF nz] by (auto simp: bit_simps dest: bit_imp_le_length)
    have free: "free_in s ?pfn"
      using "1.prems"(3) bit_ctz [OF nz] by blast
    from pool_inv_free [OF "1.prems"(2) this] have ge: "256 \<le> ?pfn" "?pfn < BITMAP_TOTAL_PAGES"
      by simp_all
    show ?thesis
    proof (cases "tp \<le> ?pfn")
      case skip: True
      have step: "batch_word want tp w ?bits out s = (out', s')"
        using True skip "1.prems"(1) by (simp add: batch_word.simps [of want tp w bits] Let_def)
      have "\<forall>i. bit ?bits i \<longrightarrow> free_in s (w * 64 + i)"
        using "1.prems"(3) bits' by blast
      with "1.IH"(1) [OF True refl refl refl] skip step "1.prems"(2,4)
      obtain fs where fs: "out' = out @ fs" "takes fs s s'" "length out' \<le> want"
        "length out' < want \<longrightarrow> (\<forall>i. bit ?bits i \<longrightarrow> w * 64 + i < tp \<longrightarrow> \<not> free_in s' (w * 64 + i))"
        by blast
      then show ?thesis
        using bits' skip by (metis leD)
    next
      case take: False
      have step: "batch_word want tp w ?bits (out @ [addr_of_pfn ?pfn]) ?s = (out', s')"
        using True take ge "1.prems"(1)
        by (auto simp: batch_word.simps [of want tp w bits] Let_def split: if_splits)
      have one: "takes [addr_of_pfn ?pfn] s ?s"
        using takes_one [OF "1.prems"(2) free, of "pmm_bitmap_hint s"] "1.prems"(2)
        by (simp add: pool_inv_def)
      have "\<forall>i. bit ?bits i \<longrightarrow> free_in ?s (w * 64 + i)"
        using "1.prems"(3) bits' by auto
      moreover have "\<not> (?pfn = 0 \<or> tp \<le> ?pfn)"
        using take ge by linarith
      moreover have "length (out @ [addr_of_pfn ?pfn]) \<le> want"
        using True by simp
      ultimately obtain fs where fs: "out' = (out @ [addr_of_pfn ?pfn]) @ fs" "takes fs ?s s'"
        "length out' \<le> want"
        "length out' < want \<longrightarrow> (\<forall>i. bit ?bits i \<longrightarrow> w * 64 + i < tp \<longrightarrow> \<not> free_in s' (w * 64 + i))"
        using "1.IH"(2) [OF True refl refl refl _ step takes_inv [OF one]] by blast
      have all: "takes (addr_of_pfn ?pfn # fs) s s'"
        using takes_append [OF one fs(2)] by simp
      then have "\<not> free_in s' ?pfn"
        using ge by (simp add: takes_def)
      with all fs bits' show ?thesis
        by (intro exI [of _ "addr_of_pfn ?pfn # fs"]) auto
    qed
  qed
qed


text \<open>Position of the rotating scan, and a word with no frame left for it.\<close>

definition scan_slot :: "nat \<Rightarrow> nat \<Rightarrow> nat \<Rightarrow> nat" where
  "scan_slot hint tw j = (if tw \<le> hint + j then hint + j - tw else hint + j)"

definition word_done :: "pmm \<Rightarrow> nat \<Rightarrow> nat \<Rightarrow> bool" where
  "word_done s tp w \<longleftrightarrow> (\<forall>p<tp. p div 64 = w \<longrightarrow> \<not> free_in s p)"

lemma scan_slot_less: "hint < tw \<Longrightarrow> j < tw \<Longrightarrow> scan_slot hint tw j < tw"
  by (auto simp: scan_slot_def)

lemma scan_slot_surj: "hint < tw \<Longrightarrow> w < tw \<Longrightarrow> \<exists>j<tw. scan_slot hint tw j = w"
  by (cases "hint \<le> w")
    (auto simp: scan_slot_def intro: exI [of _ "w - hint"] exI [of _ "w + tw - hint"])

lemma word_done_takes: "word_done s tp w \<Longrightarrow> takes fs s s' \<Longrightarrow> word_done s' tp w"
  by (auto simp: word_done_def takes_def)

lemma takes_hint:
  assumes "takes fs s s'" and "h < BITMAP_WORDS"
  shows "takes fs s (s'\<lparr>pmm_bitmap_hint := h\<rparr>)"
proof -
  have "pool_only s (s'\<lparr>pmm_bitmap_hint := h\<rparr>)"
    using assms(1) by (cases s, cases s') (simp add: takes_def pool_only_def)
  with assms show ?thesis
    by (simp add: takes_def pool_inv_def)
qed

lemma batch_scan_takes:
  assumes "batch_scan want hint tw tp k out s = (out', s')" and "pool_inv s"
    and "hint < tw" and "tw \<le> BITMAP_WORDS" and "length out \<le> want"
    and "\<forall>j<k. word_done s tp (scan_slot hint tw j)"
  shows "\<exists>fs. out' = out @ fs \<and> takes fs s s' \<and> length out' \<le> want \<and>
    (length out' < want \<longrightarrow> (\<forall>j<tw. word_done s' tp (scan_slot hint tw j)))"
  using assms
proof (induction want hint tw tp k out s rule: batch_scan.induct)
  case (1 want hint tw tp k out s)
  define w where "w = scan_slot hint tw k"
  note w_eq = w_def [unfolded scan_slot_def]
  show ?case
  proof (cases "k < tw \<and> length out < want")
    case False
    then have "out' = out" and "s' = s"
      using "1.prems"(1) by (auto simp: batch_scan.simps)
    moreover have "length out < want \<Longrightarrow> tw \<le> k"
      using False by simp
    ultimately show ?thesis
      using "1.prems"(2,5,6) by auto
  next
    case True
    with "1.prems"(3) have w: "w < tw"
      by (simp add: w_def scan_slot_less)
    show ?thesis
    proof (cases "pmm_bitmap s w = 0")
      case empty: True
      then have "word_done s tp w"
        by (auto simp: word_done_def bitmap_is_free_bit)
      with "1.prems"(6) have "\<forall>j<Suc k. word_done s tp (scan_slot hint tw j)"
        by (auto simp: less_Suc_eq w_def)
      moreover have "batch_scan want hint tw tp (Suc k) out s = (out', s')"
        using True empty "1.prems"(1) by (simp add: batch_scan.simps [of want hint tw tp k] w_eq Let_def)
      ultimately show ?thesis
        using "1.IH"(1) [OF True refl w_eq refl] empty "1.prems" by blast
    next
      case False
      obtain o1 s1 where bw: "batch_word want tp w (pmm_bitmap s w) out s = (o1, s1)"
        by (cases "batch_word want tp w (pmm_bitmap s w) out s")
      have bits: "bit (pmm_bitmap s w) i \<longrightarrow> free_in s (w * 64 + i)" for i
        using bit_imp_le_length [of "pmm_bitmap s w" i] by (auto simp: bitmap_is_free_bit)
      with batch_word_takes [OF bw "1.prems"(2)] True
      obtain fs where fs: "o1 = out @ fs" "takes fs s s1" "length o1 \<le> want"
        and clean: "length o1 < want \<longrightarrow> (\<forall>i. bit (pmm_bitmap s w) i \<longrightarrow> w * 64 + i < tp \<longrightarrow>
          \<not> free_in s1 (w * 64 + i))"
        by auto
      define s2 where "s2 = s1\<lparr>pmm_bitmap_hint := w\<rparr>"
      have t2: "takes fs s s2"
        unfolding s2_def using fs(2) w "1.prems"(4) by (intro takes_hint) auto
      have step: "batch_scan want hint tw tp (Suc k) o1 s2 = (out', s')"
        using True False "1.prems"(1) bw
        by (simp add: batch_scan.simps [of want hint tw tp k] w_eq Let_def s2_def)
      show ?thesis
      proof (cases "length o1 < want")
        case full: False
        with step have "out' = o1" and "s' = s2"
          by (auto simp: batch_scan.simps)
        with full fs t2 show ?thesis by auto
      next
        case more: True
        have "\<not> free_in s2 p" if "p < tp" and "p div 64 = w" for p
        proof (cases "bit (pmm_bitmap s w) (p mod 64)")
          case True
          moreover have "w * 64 + p mod 64 = p"
            using that(2) by (metis div_mult_mod_eq)
          ultimately have "\<not> free_in s1 p"
            using clean more that(1) by metis
          then show ?thesis by (simp add: s2_def)
        next
          case False
          with that(2) have "\<not> free_in s p"
            by (simp add: bitmap_is_free_bit)
          with t2 show ?thesis by (simp add: takes_def)
        qed
        then have "word_done s2 tp w"
          by (simp add: word_done_def)
        with "1.prems"(6) have finished: "\<forall>j<Suc k. word_done s2 tp (scan_slot hint tw j)"
          using word_done_takes [OF _ t2] by (auto simp: less_Suc_eq w_def)
        have bw': "(o1, s1) = batch_word want tp w (pmm_bitmap s w) out s"
          using bw by simp
        have "\<exists>gs. out' = o1 @ gs \<and> takes gs s2 s' \<and> length out' \<le> want \<and>
            (length out' < want \<longrightarrow> (\<forall>j<tw. word_done s' tp (scan_slot hint tw j)))"
          using "1.IH"(2) [OF True refl w_eq refl False bw' refl, folded s2_def, OF step takes_inv [OF t2]]
            "1.prems"(3,4) fs(3) finished by blast
        then obtain gs where gs: "out' = o1 @ gs" "takes gs s2 s'" "length out' \<le> want"
          "length out' < want \<longrightarrow> (\<forall>j<tw. word_done s' tp (scan_slot hint tw j))"
          by blast
        with takes_append [OF t2 gs(2)] fs(1) show ?thesis
          by (intro exI [of _ "fs @ gs"]) auto
      qed
    qed
  qed
qed

lemma alloc_batch_takes:
  assumes "pool_inv s" and "pmm_alloc_batch_slow want s = (fs, s')"
  shows "takes fs s s'" and "length fs \<le> want"
    and "length fs < want \<Longrightarrow> \<forall>p < scan_limit s. \<not> free_in s' p"
proof -
  define tw where "tw = (scan_limit s + 63) div 64"
  define hint where "hint = (if pmm_bitmap_hint s < tw then pmm_bitmap_hint s else 0)"
  have hint: "hint < tw"
    using scan_limit_pos [of s] by (auto simp: hint_def tw_def)
  have tw: "tw \<le> BITMAP_WORDS"
    using scan_limit_words by (simp add: tw_def)
  have *: "takes fs s s' \<and> length fs \<le> want \<and>
    (length fs < want \<longrightarrow> (\<forall>p < scan_limit s. \<not> free_in s' p))"
  proof (cases "want = 0")
    case True
    with assms show ?thesis by (auto simp: pmm_alloc_batch_slow_def)
  next
    case False
    with assms(2) have "batch_scan want hint tw (scan_limit s) 0 [] s = (fs, s')"
      by (simp add: pmm_alloc_batch_slow_def tw_def hint_def Let_def)
    from batch_scan_takes [OF this assms(1) hint tw]
    have t: "takes fs s s'" "length fs \<le> want"
      and all: "length fs < want \<longrightarrow> (\<forall>j<tw. word_done s' (scan_limit s) (scan_slot hint tw j))"
      by auto
    have "\<not> free_in s' p" if "length fs < want" and p: "p < scan_limit s" for p
    proof -
      have "p div 64 < tw"
        using p by (simp add: tw_def)
      with scan_slot_surj [OF hint] obtain j where "j < tw" "scan_slot hint tw j = p div 64"
        by blast
      with all that show ?thesis by (auto simp: word_done_def)
    qed
    with t show ?thesis by blast
  qed
  then show "takes fs s s'" and "length fs \<le> want"
    and "length fs < want \<Longrightarrow> \<forall>p < scan_limit s. \<not> free_in s' p"
    by auto
qed


section \<open>Contiguous runs\<close>

definition run_frames :: "nat \<Rightarrow> nat \<Rightarrow> u64 list" where
  "run_frames start n = map addr_of_pfn [start ..< start + n]"

lemma length_run_frames [simp]: "length (run_frames start n) = n"
  by (simp add: run_frames_def)

lemma pfns_run_frames:
  "start + n \<le> BITMAP_TOTAL_PAGES \<Longrightarrow> pfn_of ` set (run_frames start n) = {start ..< start + n}"
  by (force simp: run_frames_def image_iff)

lemma distinct_run_frames: "start + n \<le> BITMAP_TOTAL_PAGES \<Longrightarrow> distinct (run_frames start n)"
  by (auto simp: run_frames_def distinct_map intro!: inj_onI
      dest: arg_cong [where f = pfn_of])

lemma alloc_pages_takes:
  assumes "pool_inv s" and "2 \<le> count" and "find_run (pmm_bitmap s) (pmm_bitmap_hint s) count = Some r"
  shows "takes (run_frames r count) s (snd (pmm_alloc_pages cpu count s))"
    and "fst (pmm_alloc_pages cpu count s) = addr_of_pfn r"
    and "256 \<le> r" and "r + count \<le> BITMAP_TOTAL_PAGES"
proof -
  have hint: "pmm_bitmap_hint s < BITMAP_WORDS"
    using assms(1) by (simp add: pool_inv_def)
  have "run_beside_hint (pmm_bitmap s) (pmm_bitmap_hint s) count r"
    using find_run_Some [OF assms(3)] assms(2) hint by simp
  then have run: "run_at (pmm_bitmap s) r count" and le: "r + count \<le> BITMAP_TOTAL_PAGES"
    using hint BITMAP_WORDS_64 by (auto simp: run_beside_hint_def)
  have free: "free_in s p" if "r \<le> p" "p < r + count" for p
    using run that by (metis run_at_def le_Suc_ex nat_add_left_cancel_less)
  show r: "256 \<le> r"
    using pool_inv_free [OF assms(1) free [of r]] assms(2) by simp
  show "r + count \<le> BITMAP_TOTAL_PAGES" by (rule le)
  define s' where "s' = snd (pmm_alloc_pages cpu count s)"
  have eq: "pmm_alloc_pages cpu count s = (addr_of_pfn r, s')"
    and s': "pmm_bitmap s' = bitmap_set_used_run (pmm_bitmap s) r count"
      "used_memory s' = used_memory s + of_nat count * 4096"
      "pmm_bitmap_hint s' = (if r + count < BITMAP_TOTAL_PAGES then (r + count) div 64 else 0)"
      "pool_only s s'"
    using assms(2,3) by (auto simp: s'_def pmm_alloc_pages_def Let_def pool_only_def)
  then show "fst (pmm_alloc_pages cpu count s) = addr_of_pfn r"
    by simp
  have "pool_inv s'"
    using assms(1) by (auto simp: pool_inv_def s' BITMAP_WORDS_def BITMAP_TOTAL_PAGES_def)
  moreover have "\<forall>a \<in> set (run_frames r count). frame_ok a \<and> free_in s (pfn_of a)"
    using r le free by (auto simp: run_frames_def frame_ok_addr)
  ultimately show "takes (run_frames r count) s (snd (pmm_alloc_pages cpu count s))"
    using s' le by (auto simp: takes_def distinct_run_frames pfns_run_frames eq)
qed

lemma alloc_pages_null:
  assumes "2 \<le> count" and "find_run (pmm_bitmap s) (pmm_bitmap_hint s) count = None"
  shows "pmm_alloc_pages cpu count s = (0, s)"
  using assms by (simp add: pmm_alloc_pages_def)

text \<open>
  A contiguous release frees exactly the frames of the range that are in the bitmap, are
  marked used and do not carry the slab allocator's magic number.
\<close>

definition releasable :: "(u64 \<Rightarrow> u64) \<Rightarrow> pmm \<Rightarrow> nat \<Rightarrow> nat \<Rightarrow> nat list" where
  "releasable rd s start n = filter (\<lambda>p. p < BITMAP_TOTAL_PAGES \<and>
     rd (addr_of_pfn p) \<noteq> SLAB_MAGIC \<and> \<not> free_in s p) [start ..< start + n]"

lemma free_pages_loop_gives:
  assumes "pool_inv s" and "256 \<le> start"
  shows "gives (map addr_of_pfn (releasable rd s start n)) s (free_pages_loop rd start n s)"
  using assms
proof (induction n arbitrary: start s)
  case 0
  then show ?case by (simp add: releasable_def)
next
  case (Suc n)
  have split: "releasable rd s start (Suc n) =
      (if start < BITMAP_TOTAL_PAGES \<and> rd (addr_of_pfn start) \<noteq> SLAB_MAGIC \<and> \<not> free_in s start
       then [start] else []) @ releasable rd s (Suc start) n"
    by (simp add: releasable_def upt_conv_Cons del: upt_Suc)
  show ?case
  proof (cases "BITMAP_TOTAL_PAGES \<le> start")
    case True
    then have "releasable rd s start (Suc n) = []"
      by (auto simp: releasable_def filter_empty_conv)
    with True Suc.prems show ?thesis by simp
  next
    case inside: False
    show ?thesis
    proof (cases "rd (addr_of_pfn start) = SLAB_MAGIC \<or> free_in s start")
      case True
      with inside Suc.IH [of s "Suc start"] Suc.prems show ?thesis
        by (auto simp: split)
    next
      case False
      let ?s = "s\<lparr>pmm_bitmap := bitmap_set_free (pmm_bitmap s) start,
          used_memory := used_memory s - 4096\<rparr>"
      have one: "gives [addr_of_pfn start] s ?s"
        using inside Suc.prems by (auto simp: gives_def pool_inv_def pool_only_def)
      have "releasable rd ?s (Suc start) n = releasable rd s (Suc start) n"
        by (auto simp: releasable_def intro: filter_cong)
      with Suc.IH [of ?s "Suc start"] Suc.prems gives_inv [OF one]
      have "gives (map addr_of_pfn (releasable rd s (Suc start) n)) ?s
          (free_pages_loop rd (Suc start) n ?s)"
        by simp
      from gives_append [OF one this] inside False show ?thesis
        by (simp add: split)
    qed
  qed
qed

lemma gives_hint:
  assumes "gives fs s s'" and "h < BITMAP_WORDS"
  shows "gives fs s (s'\<lparr>pmm_bitmap_hint := h\<rparr>)"
proof -
  have "pool_only s (s'\<lparr>pmm_bitmap_hint := h\<rparr>)"
    using assms(1) by (cases s, cases s') (simp add: gives_def pool_only_def)
  with assms show ?thesis
    by (simp add: gives_def pool_inv_def)
qed

lemma free_pages_gives:
  assumes "pool_inv s" and "frame_ok base" and "2 \<le> count"
    and "\<not> (pmm_initrd_start s \<noteq> 0 \<and> base < pmm_initrd_end s \<and>
      pmm_initrd_start s < base + of_nat count * 4096)"
  shows "gives (map addr_of_pfn (releasable rd s (pfn_of base) count)) s
    (pmm_free_pages rd cpu base count s)"
proof -
  from assms(2) obtain p where p: "256 \<le> p" "p < BITMAP_TOTAL_PAGES" "base = addr_of_pfn p"
    by (auto simp: frame_ok_iff)
  define s1 where "s1 = free_pages_loop rd p count s"
  have g: "gives (map addr_of_pfn (releasable rd s p count)) s s1"
    unfolding s1_def using assms(1) p(1) by (rule free_pages_loop_gives)
  moreover have "p div 64 < BITMAP_WORDS"
    using p(2) by (simp add: BITMAP_WORDS_def BITMAP_TOTAL_PAGES_def)
  ultimately show ?thesis
    using assms(3,4) p gives_hint [OF g, of "p div 64"] frame_ok_nonzero [OF assms(2)]
    by (auto simp: pmm_free_pages_def s1_def Let_def)
qed


section \<open>The contract of a frame source\<close>

text \<open>
  Everything that hands out frames (the rotating single-page scan, the batch refill, the
  contiguous search) and takes them back keeps the same bargain with its clients: the
  frames it returns were available and are so no longer, each frame moves the usage
  counter by one page, and released frames become available again.
\<close>

locale frame_pool =
  fixes inv :: "'s \<Rightarrow> bool"
    and avail :: "'s \<Rightarrow> nat set"
    and used :: "'s \<Rightarrow> u64"
    and alloc :: "'s \<Rightarrow> u64 list \<times> 's"
    and release :: "u64 list \<Rightarrow> 's \<Rightarrow> 's"
  assumes avail_bounded: "inv s \<Longrightarrow> avail s \<subseteq> {256 ..< BITMAP_TOTAL_PAGES}"
    and alloc_frames: "inv s \<Longrightarrow> alloc s = (fs, s') \<Longrightarrow>
      distinct fs \<and> (\<forall>a \<in> set fs. frame_ok a) \<and> pfn_of ` set fs \<subseteq> avail s"
    and alloc_avail: "inv s \<Longrightarrow> alloc s = (fs, s') \<Longrightarrow> avail s' = avail s - pfn_of ` set fs"
    and alloc_used: "inv s \<Longrightarrow> alloc s = (fs, s') \<Longrightarrow>
      used s' = used s + of_nat (length fs) * 4096"
    and alloc_inv: "inv s \<Longrightarrow> alloc s = (fs, s') \<Longrightarrow> inv s'"
    and release_avail: "inv s \<Longrightarrow> \<forall>a \<in> set fs. frame_ok a \<Longrightarrow>
      avail (release fs s) = avail s \<union> pfn_of ` set fs"
    and release_used: "inv s \<Longrightarrow> \<forall>a \<in> set fs. frame_ok a \<Longrightarrow>
      used (release fs s) = used s - of_nat (length fs) * 4096"
    and release_inv: "inv s \<Longrightarrow> \<forall>a \<in> set fs. frame_ok a \<Longrightarrow> inv (release fs s)"
begin

lemma finite_avail: "inv s \<Longrightarrow> finite (avail s)"
  using avail_bounded finite_subset by blast

lemma card_pfns: "distinct fs \<Longrightarrow> \<forall>a \<in> set fs. frame_ok a \<Longrightarrow> card (pfn_of ` set fs) = length fs"
  by (subst card_image) (auto simp: inj_on_def pfn_of_inj_on_frames distinct_card)

lemma alloc_disjoint:
  assumes "inv s" and "alloc s = (fs, s')" and "alloc s' = (gs, s'')"
  shows "set fs \<inter> set gs = {}"
proof -
  have "inv s'" by (rule alloc_inv [OF assms(1,2)])
  from alloc_frames [OF this assms(3)] have "pfn_of ` set gs \<subseteq> avail s'" by simp
  moreover have "avail s' = avail s - pfn_of ` set fs" by (rule alloc_avail [OF assms(1,2)])
  ultimately show ?thesis by auto
qed

lemma release_alloc:
  assumes "inv s" and "alloc s = (fs, s')"
  shows "avail (release fs s') = avail s" and "used (release fs s') = used s"
proof -
  have "inv s'" by (rule alloc_inv [OF assms])
  moreover have fs: "\<forall>a \<in> set fs. frame_ok a" "pfn_of ` set fs \<subseteq> avail s"
    using alloc_frames [OF assms] by auto
  ultimately show "avail (release fs s') = avail s" and "used (release fs s') = used s"
    using alloc_avail [OF assms] alloc_used [OF assms] release_avail [of s' fs] release_used [of s' fs]
    by auto
qed

text \<open>The counter and the number of available frames always add up to the same amount.\<close>

lemma alloc_balance:
  assumes "inv s" and "alloc s = (fs, s')"
  shows "used s' + of_nat (card (avail s')) * 4096 = used s + of_nat (card (avail s)) * 4096"
proof -
  have fs: "distinct fs" "\<forall>a \<in> set fs. frame_ok a" "pfn_of ` set fs \<subseteq> avail s"
    using alloc_frames [OF assms] by auto
  have "card (avail s') = card (avail s) - length fs"
    using alloc_avail [OF assms] fs finite_avail [OF assms(1)]
    by (simp add: card_Diff_subset card_pfns finite_subset)
  moreover have "length fs \<le> card (avail s)"
    using fs card_mono [OF finite_avail [OF assms(1)] fs(3)] by (simp add: card_pfns)
  ultimately show ?thesis
    using alloc_used [OF assms] by (simp add: of_nat_diff algebra_simps)
qed

lemma release_balance:
  assumes "inv s" and "distinct fs" and "\<forall>a \<in> set fs. frame_ok a"
    and "pfn_of ` set fs \<inter> avail s = {}"
  shows "used (release fs s) + of_nat (card (avail (release fs s))) * 4096 =
    used s + of_nat (card (avail s)) * 4096"
proof -
  have "card (avail (release fs s)) = card (avail s) + length fs"
    using release_avail [OF assms(1,3)] assms finite_avail [OF assms(1)]
    by (simp add: card_Un_disjoint card_pfns Int_commute)
  then show ?thesis
    using release_used [OF assms(1,3)] by (simp add: algebra_simps)
qed

end

abbreviation free_frames :: "pmm \<Rightarrow> nat set" where
  "free_frames s \<equiv> {p. free_in s p}"

lemma pool_inv_bounded: "pool_inv s \<Longrightarrow> free_frames s \<subseteq> {256 ..< BITMAP_TOTAL_PAGES}"
  by (auto simp: pool_inv_def)

lemma takesD:
  assumes "takes fs s s'"
  shows "distinct fs \<and> (\<forall>a \<in> set fs. frame_ok a) \<and> pfn_of ` set fs \<subseteq> free_frames s"
    and "free_frames s' = free_frames s - pfn_of ` set fs"
    and "used_memory s' = used_memory s + of_nat (length fs) * 4096"
  using assms by (auto simp: takes_def)

lemma givesD:
  assumes "gives fs s s'"
  shows "free_frames s' = free_frames s \<union> pfn_of ` set fs"
    and "used_memory s' = used_memory s - of_nat (length fs) * 4096"
  using assms by (auto simp: gives_def)

text \<open>An allocation whose effect is \<open>takes\<close> is a frame source, with the batch drain.\<close>

lemma frame_pool_takesI:
  assumes "\<And>s fs s'. pool_inv s \<Longrightarrow> alloc s = (fs, s') \<Longrightarrow> takes fs s s'"
  shows "frame_pool pool_inv free_frames used_memory alloc pmm_free_batch_slow"
proof (unfold_locales, goal_cases)
  case (1 s)
  then show ?case by (rule pool_inv_bounded)
next
  case (2 s fs s')
  then show ?case by (intro takesD(1) assms)
next
  case (3 s fs s')
  then show ?case by (intro takesD(2) assms)
next
  case (4 s fs s')
  then show ?case by (intro takesD(3) assms)
next
  case (5 s fs s')
  then show ?case by (blast intro: takes_inv assms)
next
  case (6 s fs)
  then show ?case by (intro givesD(1) gives_batch)
next
  case (7 s fs)
  then show ?case by (intro givesD(2) gives_batch)
next
  case (8 s fs)
  then show ?case by (blast intro: gives_inv gives_batch)
qed

interpretation batch: frame_pool pool_inv free_frames used_memory
  "pmm_alloc_batch_slow want" pmm_free_batch_slow for want
  by (rule frame_pool_takesI) (rule alloc_batch_takes(1))

text \<open>The single-page slow path, its NULL read as "no frame".\<close>

definition slow_source :: "pmm \<Rightarrow> u64 list \<times> pmm" where
  "slow_source s = (case pmm_alloc_page_slow s of (a, s') \<Rightarrow> (if a = 0 then [] else [a], s'))"

lemma slow_source_takes:
  assumes "pool_inv s" and "slow_source s = (fs, s')"
  shows "takes fs s s'"
proof -
  obtain a where eq: "pmm_alloc_page_slow s = (a, s')" and fs: "fs = (if a = 0 then [] else [a])"
    using assms(2) by (auto simp: slow_source_def split: prod.splits)
  show ?thesis
  proof (cases "a = 0")
    case True
    with alloc_page_slow_null(1) [OF assms(1)] eq fs assms(1) show ?thesis by auto
  next
    case False
    with alloc_page_slow_takes(1) [OF assms(1) eq] fs show ?thesis by simp
  qed
qed

interpretation single: frame_pool pool_inv free_frames used_memory
  slow_source pmm_free_batch_slow
  by (rule frame_pool_takesI) (rule slow_source_takes)

text \<open>The contiguous search for two or more pages, its result read as the frames of the run.\<close>

definition contiguous_source :: "nat \<Rightarrow> nat \<Rightarrow> pmm \<Rightarrow> u64 list \<times> pmm" where
  "contiguous_source cpu n s = (case pmm_alloc_pages cpu (n + 2) s of
     (a, s') \<Rightarrow> (if a = 0 then [] else run_frames (pfn_of a) (n + 2), s'))"

lemma contiguous_source_takes:
  assumes "pool_inv s" and "contiguous_source cpu n s = (fs, s')"
  shows "takes fs s s'"
proof (cases "find_run (pmm_bitmap s) (pmm_bitmap_hint s) (n + 2)")
  case None
  with assms alloc_pages_null [of "n + 2" s cpu] show ?thesis
    by (simp add: contiguous_source_def)
next
  case (Some r)
  note run = alloc_pages_takes(1,2) [OF assms(1) _ Some, where cpu = cpu]
    alloc_pages_takes(3,4) [OF assms(1) _ Some]
  then have "frame_ok (addr_of_pfn r)"
    by (simp add: frame_ok_addr)
  with run frame_ok_nonzero assms(2) show ?thesis
    by (auto simp: contiguous_source_def split: prod.splits if_splits)
qed

interpretation contiguous: frame_pool pool_inv free_frames used_memory
  "contiguous_source cpu n" pmm_free_batch_slow for cpu n
  by (rule frame_pool_takesI) (rule contiguous_source_takes)

end
