(* ===== verification/Pmm_Smp.thy ===== *)
theory Pmm_Smp
  imports Pmm_Pool
begin

text \<open>
  The page allocator under concurrency. The code drops every lock between its critical
  sections, so a step of the system is one section of one thread; any number of threads
  run allocations, frees and cache reclaims on any CPU's cache, in any interleaving.
  Kernel code that holds allocated frames is the client: it frees only frames it owns.

  The theory shows that a frame is never in two places: the bitmap's free set, the
  caches, the hands of a thread between two sections, and the client's frames stay
  disjoint in every reachable state. The proof is about moves of frames between places
  (\<open>exclusive\<close>), of which every section is an instance.
\<close>

section \<open>Exclusive places\<close>

datatype place = PCache nat | PThread nat | PClient

definition exclusive :: "bitmap \<Rightarrow> (place \<Rightarrow> u64 list) \<Rightarrow> bool" where
  "exclusive bm h \<longleftrightarrow> (\<forall>l. distinct (h l)) \<and>
     (\<forall>l m. l \<noteq> m \<longrightarrow> set (h l) \<inter> set (h m) = {}) \<and>
     (\<forall>l. \<forall>a \<in> set (h l). frame_ok a \<and> \<not> bitmap_is_free bm (pfn_of a))"

lemma exclusive_drop:
  assumes "exclusive bm h" and "distinct xs" and "set xs \<subseteq> set (h l)"
  shows "exclusive bm (h(l := xs))"
  using assms unfolding exclusive_def by (auto; blast)

lemma exclusive_move:
  assumes "exclusive bm h" and "l \<noteq> m" and "distinct (xs @ ys)"
    and "set xs \<union> set ys \<subseteq> set (h l) \<union> set (h m)"
  shows "exclusive bm (h(l := xs, m := ys))"
proof -
  have "set (h k) \<inter> (set xs \<union> set ys) = {}" if "k \<noteq> l" "k \<noteq> m" for k
    using assms(1,4) that unfolding exclusive_def by blast
  with assms show ?thesis
    unfolding exclusive_def by (auto; blast)
qed

lemma exclusive_take:
  assumes "exclusive (pmm_bitmap s) h" and "takes fs s s'" and "h l = xs"
  shows "exclusive (pmm_bitmap s') (h(l := xs @ fs))"
proof -
  have "set (h k) \<inter> set fs = {}" for k
    using assms(1,2) unfolding exclusive_def takes_def by blast
  with assms show ?thesis
    unfolding exclusive_def takes_def by (auto; blast)
qed

lemma exclusive_give:
  assumes "exclusive (pmm_bitmap s) h" and "gives fs s s'" and "set fs \<subseteq> set (h l)"
    and "distinct xs" and "set xs \<subseteq> set (h l) - set fs"
  shows "exclusive (pmm_bitmap s') (h(l := xs))"
proof -
  have ok: "frame_ok a" if "a \<in> set (h k)" for a k
    using assms(1) that unfolding exclusive_def by blast
  have "pfn_of a \<notin> pfn_of ` set fs" if "k \<noteq> l" and "a \<in> set (h k)" for k a
    using assms(1,3) that ok pfn_of_inj_on_frames unfolding exclusive_def by (metis (no_types, lifting)
      disjoint_iff image_iff subsetD)
  moreover have "pfn_of a \<notin> pfn_of ` set fs" if "a \<in> set xs" for a
    using assms(3,5) that ok pfn_of_inj_on_frames by (metis (no_types, lifting)
      DiffE image_iff subsetD)
  moreover have "exclusive (pmm_bitmap s) (h(l := xs))"
    using assms by (intro exclusive_drop) auto
  ultimately show ?thesis
    using assms(2) unfolding exclusive_def gives_def by (metis fun_upd_apply)
qed

section \<open>The system\<close>

text \<open>
  Where a thread is between two sections, with the frames it carries: after a cache
  miss, refilling (with the pages still to be placed), returning one page to the pool
  because the cache was full, after the guards of a free, draining, reclaiming.
\<close>

datatype tstate =
    TIdle
  | TMiss nat
  | TRefill nat "u64 list"
  | TReturn nat u64 "u64 list"
  | TChecked nat u64
  | TDrain "u64 list"
  | TReclaim "u64 list"

fun carried :: "tstate \<Rightarrow> u64 list" where
  "carried TIdle = []"
| "carried (TMiss c) = []"
| "carried (TRefill c fs) = fs"
| "carried (TReturn c f fs) = f # fs"
| "carried (TChecked c a) = [a]"
| "carried (TDrain fs) = fs"
| "carried (TReclaim fs) = fs"

record smp =
  pm :: pmm
  threads :: "nat \<Rightarrow> tstate"
  client :: "u64 list"

fun holds :: "smp \<Rightarrow> place \<Rightarrow> u64 list" where
  "holds st (PCache c) = cached (pm st) c"
| "holds st (PThread t) = carried (threads st t)"
| "holds st PClient = client st"

inductive smp_step :: "smp \<Rightarrow> smp \<Rightarrow> bool" where
  alloc_hit: "threads st t = TIdle \<Longrightarrow> alloc_fast_section (this_cpu cpu) (pm st) = (Some a, s') \<Longrightarrow>
    smp_step st (st\<lparr>pm := s', client := client st @ [a]\<rparr>)"
| alloc_miss: "threads st t = TIdle \<Longrightarrow> alloc_fast_section (this_cpu cpu) (pm st) = (None, s') \<Longrightarrow>
    smp_step st (st\<lparr>pm := s', threads := (threads st)(t := TMiss (this_cpu cpu))\<rparr>)"
| alloc_batch: "threads st t = TMiss c \<Longrightarrow>
    pmm_alloc_batch_slow PER_CPU_CACHE_SIZE (pm st) = (fs, s') \<Longrightarrow>
    smp_step st (st\<lparr>pm := s', threads := (threads st)(t := TRefill c fs)\<rparr>)"
| refill_push: "threads st t = TRefill c (f # fs) \<Longrightarrow> length (cached (pm st) c) < PER_CPU_CACHE_SIZE \<Longrightarrow>
    smp_step st (st\<lparr>pm := refill_step c f (pm st), threads := (threads st)(t := TRefill c fs)\<rparr>)"
| refill_full: "threads st t = TRefill c (f # fs) \<Longrightarrow> \<not> length (cached (pm st) c) < PER_CPU_CACHE_SIZE \<Longrightarrow>
    smp_step st (st\<lparr>threads := (threads st)(t := TReturn c f fs)\<rparr>)"
| refill_return: "threads st t = TReturn c f fs \<Longrightarrow>
    smp_step st (st\<lparr>pm := pmm_free_page_slow f (pm st), threads := (threads st)(t := TRefill c fs)\<rparr>)"
| alloc_last: "threads st t = TRefill c [] \<Longrightarrow> alloc_last_section c (pm st) = (a, s') \<Longrightarrow>
    smp_step st (st\<lparr>pm := s', threads := (threads st)(t := TIdle),
      client := (if a = 0 then client st else client st @ [a])\<rparr>)"
| alloc_run: "threads st t = TIdle \<Longrightarrow> 2 \<le> count \<Longrightarrow> pmm_alloc_pages cpu count (pm st) = (a, s') \<Longrightarrow>
    a \<noteq> 0 \<Longrightarrow> smp_step st (st\<lparr>pm := s', client := client st @ run_frames (pfn_of a) count\<rparr>)"
| free_check: "threads st t = TIdle \<Longrightarrow> a \<in> set (client st) \<Longrightarrow> pmm_free_guard rd a (pm st) \<Longrightarrow>
    smp_step st (st\<lparr>threads := (threads st)(t := TChecked (this_cpu cpu) a),
      client := remove1 a (client st)\<rparr>)"
| free_blocked: "threads st t = TIdle \<Longrightarrow> a \<in> set (client st) \<Longrightarrow> \<not> pmm_free_guard rd a (pm st) \<Longrightarrow>
    smp_step st (st\<lparr>client := remove1 a (client st)\<rparr>)"
| free_cache: "threads st t = TChecked c a \<Longrightarrow> free_cache_section c a (pm st) = (fs, s') \<Longrightarrow>
    smp_step st (st\<lparr>pm := s', threads := (threads st)(t := TDrain fs)\<rparr>)"
| free_drain: "threads st t = TDrain fs \<Longrightarrow>
    smp_step st (st\<lparr>pm := pmm_free_batch_slow fs (pm st), threads := (threads st)(t := TIdle)\<rparr>)"
| free_run: "threads st t = TIdle \<Longrightarrow> 2 \<le> count \<Longrightarrow> set (run_frames (pfn_of base) count) \<subseteq> set (client st) \<Longrightarrow>
    base \<in> set (client st) \<Longrightarrow>
    smp_step st (st\<lparr>pm := pmm_free_pages rd cpu base count (pm st),
      client := filter (\<lambda>a. a \<notin> set (run_frames (pfn_of base) count)) (client st)\<rparr>)"
| reclaim_take: "threads st t = TIdle \<Longrightarrow> c < MAX_CPUS \<Longrightarrow>
    smp_step st (st\<lparr>pm := set_cache c [] (pm st),
      threads := (threads st)(t := TReclaim (cached (pm st) c))\<rparr>)"
| reclaim_free: "threads st t = TReclaim (f # fs) \<Longrightarrow>
    smp_step st (st\<lparr>pm := pmm_free_page_slow f (pm st), threads := (threads st)(t := TReclaim fs)\<rparr>)"
| reclaim_done: "threads st t = TReclaim [] \<Longrightarrow>
    smp_step st (st\<lparr>threads := (threads st)(t := TIdle)\<rparr>)"

text \<open>After boot: a populated pool, empty caches, idle threads, no frame handed out.\<close>

definition smp_start :: "smp \<Rightarrow> bool" where
  "smp_start st \<longleftrightarrow> pool_inv (pm st) \<and> (\<forall>c. cached (pm st) c = []) \<and>
     (\<forall>t. threads st t = TIdle) \<and> client st = []"

inductive smp_reachable :: "smp \<Rightarrow> smp \<Rightarrow> bool" for st0 where
  start: "smp_reachable st0 st0"
| step: "smp_reachable st0 st \<Longrightarrow> smp_step st st' \<Longrightarrow> smp_reachable st0 st'"

section \<open>The invariant\<close>

definition smp_inv :: "smp \<Rightarrow> bool" where
  "smp_inv st \<longleftrightarrow> pool_inv (pm st) \<and> exclusive (pmm_bitmap (pm st)) (holds st) \<and>
     (\<forall>c. length (cached (pm st) c) \<le> PER_CPU_CACHE_SIZE)"

lemma smp_inv_start: "smp_start st \<Longrightarrow> smp_inv st"
proof -
  assume st: "smp_start st"
  then have "holds st l = []" for l
    by (cases l) (auto simp: smp_start_def)
  with st show ?thesis
    by (simp add: smp_inv_def smp_start_def exclusive_def)
qed


section \<open>Every section keeps the invariant\<close>

lemma cached_set_cache [simp]: "cached (set_cache c xs s) d = (if d = c then xs else cached s d)"
  by (simp add: set_cache_def)

lemma bitmap_set_cache [simp]: "pmm_bitmap (set_cache c xs s) = pmm_bitmap s"
  by (simp add: set_cache_def)

lemma pool_inv_set_cache [simp]: "pool_inv (set_cache c xs s) = pool_inv s"
  by (simp add: set_cache_def pool_inv_def)

text \<open>What a section that only touches the pool, or one cache, does to the places.\<close>

lemma holds_thread:
  assumes "cpu_caches s' = cpu_caches (pm st)"
  shows "holds (st\<lparr>pm := s', threads := (threads st)(t := x)\<rparr>) = (holds st)(PThread t := carried x)"
proof
  fix l show "holds (st\<lparr>pm := s', threads := (threads st)(t := x)\<rparr>) l =
      ((holds st)(PThread t := carried x)) l"
    using assms by (cases l) auto
qed

lemma holds_client:
  assumes "cpu_caches s' = cpu_caches (pm st)"
  shows "holds (st\<lparr>pm := s', client := xs\<rparr>) = (holds st)(PClient := xs)"
proof
  fix l show "holds (st\<lparr>pm := s', client := xs\<rparr>) l = ((holds st)(PClient := xs)) l"
    using assms by (cases l) auto
qed

lemma holds_cache_thread:
  assumes "\<And>d. cached s' d = (if d = c then xs else cached (pm st) d)"
  shows "holds (st\<lparr>pm := s', threads := (threads st)(t := x)\<rparr>) =
    (holds st)(PCache c := xs, PThread t := carried x)"
proof
  fix l show "holds (st\<lparr>pm := s', threads := (threads st)(t := x)\<rparr>) l =
      ((holds st)(PCache c := xs, PThread t := carried x)) l"
    using assms by (cases l) auto
qed

lemma holds_cache_client:
  assumes "\<And>d. cached s' d = (if d = c then xs else cached (pm st) d)"
  shows "holds (st\<lparr>pm := s', client := ys\<rparr>) = (holds st)(PCache c := xs, PClient := ys)"
proof
  fix l show "holds (st\<lparr>pm := s', client := ys\<rparr>) l = ((holds st)(PCache c := xs, PClient := ys)) l"
    using assms by (cases l) auto
qed

lemma smp_invD:
  assumes "smp_inv st"
  shows "pool_inv (pm st)" and "exclusive (pmm_bitmap (pm st)) (holds st)"
    and "length (cached (pm st) c) \<le> PER_CPU_CACHE_SIZE"
    and "distinct (holds st l)" and "l \<noteq> m \<Longrightarrow> set (holds st l) \<inter> set (holds st m) = {}"
    and "a \<in> set (holds st l) \<Longrightarrow> frame_ok a"
    and "a \<in> set (holds st l) \<Longrightarrow> \<not> free_in (pm st) (pfn_of a)"
  using assms unfolding smp_inv_def exclusive_def by auto

lemma smp_inv_separate:
  assumes "smp_inv st"
  shows "distinct (carried (threads st t))" and "distinct (cached (pm st) c)" and "distinct (client st)"
    and "set (carried (threads st t)) \<inter> set (cached (pm st) c) = {}"
    and "set (carried (threads st t)) \<inter> set (client st) = {}"
    and "set (cached (pm st) c) \<inter> set (client st) = {}"
    and "\<forall>a \<in> set (carried (threads st t)) \<union> set (client st). frame_ok a"
  using smp_invD(4) [OF assms, of "PThread t"] smp_invD(4) [OF assms, of "PCache c"]
    smp_invD(4) [OF assms, of PClient] smp_invD(5) [OF assms, of "PThread t" "PCache c"]
    smp_invD(5) [OF assms, of "PThread t" PClient] smp_invD(5) [OF assms, of "PCache c" PClient]
    smp_invD(6) [OF assms, of _ "PThread t"] smp_invD(6) [OF assms, of _ PClient]
  by auto

text \<open>Taking from the pool into a thread's hands or the client's.\<close>

lemma smp_inv_take_thread:
  assumes "smp_inv st" and "takes fs (pm st) s'" and "carried (threads st t) = []"
    and "carried x = fs"
  shows "smp_inv (st\<lparr>pm := s', threads := (threads st)(t := x)\<rparr>)"
proof -
  have same: "cpu_caches s' = cpu_caches (pm st)"
    using assms(2) by (simp add: takes_def pool_only_fields)
  have "exclusive (pmm_bitmap s') ((holds st)(PThread t := [] @ fs))"
    using assms by (intro exclusive_take [of "pm st"]) (auto simp: smp_inv_def)
  with assms same show ?thesis
    by (simp add: smp_inv_def holds_thread [OF same] takes_inv [OF assms(2)])
qed

lemma smp_inv_take_client:
  assumes "smp_inv st" and "takes fs (pm st) s'"
  shows "smp_inv (st\<lparr>pm := s', client := client st @ fs\<rparr>)"
proof -
  have same: "cpu_caches s' = cpu_caches (pm st)"
    using assms(2) by (simp add: takes_def pool_only_fields)
  have "exclusive (pmm_bitmap s') ((holds st)(PClient := client st @ fs))"
    using assms by (intro exclusive_take [of "pm st"]) (auto simp: smp_inv_def)
  with assms same show ?thesis
    by (simp add: smp_inv_def holds_client [OF same] takes_inv [OF assms(2)])
qed

text \<open>Giving carried frames back to the pool.\<close>

lemma smp_inv_give_thread:
  assumes "smp_inv st" and "gives fs (pm st) s'" and "set fs \<subseteq> set (carried (threads st t))"
    and "distinct (carried x)" and "set (carried x) \<subseteq> set (carried (threads st t)) - set fs"
  shows "smp_inv (st\<lparr>pm := s', threads := (threads st)(t := x)\<rparr>)"
proof -
  have same: "cpu_caches s' = cpu_caches (pm st)"
    using assms(2) by (simp add: gives_def pool_only_fields)
  have "exclusive (pmm_bitmap s') ((holds st)(PThread t := carried x))"
    using assms by (intro exclusive_give [OF _ assms(2)]) (auto simp: smp_inv_def)
  with assms same show ?thesis
    by (simp add: smp_inv_def holds_thread [OF same] gives_inv [OF assms(2)])
qed

lemma smp_inv_give_client:
  assumes "smp_inv st" and "gives fs (pm st) s'" and "set fs \<subseteq> set (client st)"
    and "distinct xs" and "set xs \<subseteq> set (client st) - set fs"
  shows "smp_inv (st\<lparr>pm := s', client := xs\<rparr>)"
proof -
  have same: "cpu_caches s' = cpu_caches (pm st)"
    using assms(2) by (simp add: gives_def pool_only_fields)
  have "exclusive (pmm_bitmap s') ((holds st)(PClient := xs))"
    using assms by (intro exclusive_give [OF _ assms(2)]) (auto simp: smp_inv_def)
  with assms same show ?thesis
    by (simp add: smp_inv_def holds_client [OF same] gives_inv [OF assms(2)])
qed

text \<open>Moves between a cache and a thread or the client.\<close>

lemma smp_inv_cache_thread:
  assumes "smp_inv st" and "pmm_bitmap s' = pmm_bitmap (pm st)" and "pool_inv s'"
    and "\<And>d. cached s' d = (if d = c then xs else cached (pm st) d)"
    and "distinct (xs @ carried x)" and "length xs \<le> PER_CPU_CACHE_SIZE"
    and "set xs \<union> set (carried x) \<subseteq> set (cached (pm st) c) \<union> set (carried (threads st t))"
  shows "smp_inv (st\<lparr>pm := s', threads := (threads st)(t := x)\<rparr>)"
proof -
  have "exclusive (pmm_bitmap s') ((holds st)(PCache c := xs, PThread t := carried x))"
    using assms by (intro exclusive_move) (auto simp: smp_inv_def)
  with assms show ?thesis
    by (simp add: smp_inv_def holds_cache_thread [OF assms(4)])
qed

lemma smp_inv_cache_client:
  assumes "smp_inv st" and "pmm_bitmap s' = pmm_bitmap (pm st)" and "pool_inv s'"
    and "\<And>d. cached s' d = (if d = c then xs else cached (pm st) d)"
    and "distinct (xs @ ys)" and "length xs \<le> PER_CPU_CACHE_SIZE"
    and "set xs \<union> set ys \<subseteq> set (cached (pm st) c) \<union> set (client st)"
  shows "smp_inv (st\<lparr>pm := s', client := ys\<rparr>)"
proof -
  have "exclusive (pmm_bitmap s') ((holds st)(PCache c := xs, PClient := ys))"
    using assms by (intro exclusive_move) (auto simp: smp_inv_def)
  with assms show ?thesis
    by (simp add: smp_inv_def holds_cache_client [OF assms(4)])
qed

lemma smp_inv_thread_client:
  assumes "smp_inv st" and "distinct (carried x @ ys)"
    and "set (carried x) \<union> set ys \<subseteq> set (carried (threads st t)) \<union> set (client st)"
  shows "smp_inv (st\<lparr>threads := (threads st)(t := x), client := ys\<rparr>)"
proof -
  have "holds (st\<lparr>threads := (threads st)(t := x), client := ys\<rparr>) l =
      ((holds st)(PThread t := carried x, PClient := ys)) l" for l
    by (cases l) auto
  then have "holds (st\<lparr>threads := (threads st)(t := x), client := ys\<rparr>) =
      (holds st)(PThread t := carried x, PClient := ys)"
    by (rule ext)
  moreover have "exclusive (pmm_bitmap (pm st)) ((holds st)(PThread t := carried x, PClient := ys))"
    using assms by (intro exclusive_move) (auto simp: smp_inv_def)
  ultimately show ?thesis
    using assms(1) by (simp add: smp_inv_def)
qed


lemma alloc_fast_hit:
  assumes "alloc_fast_section c s = (Some a, s')"
  shows "cached s c = butlast (cached s c) @ [a]" and "pmm_bitmap s' = pmm_bitmap s"
    and "pool_inv s' = pool_inv s"
    and "cached s' d = (if d = c then butlast (cached s c) else cached s d)"
  using assms by (auto simp: alloc_fast_section_def pool_inv_def Let_def split: if_splits)

lemma alloc_fast_miss:
  assumes "alloc_fast_section c s = (None, s')"
  shows "cached s c = []" and "pmm_bitmap s' = pmm_bitmap s" and "pool_inv s' = pool_inv s"
    and "cached s' d = cached s d"
  using assms by (auto simp: alloc_fast_section_def pool_inv_def Let_def split: if_splits)

lemma alloc_last_hit:
  assumes "alloc_last_section c s = (a, s')" and "cached s c \<noteq> []"
  shows "cached s c = butlast (cached s c) @ [a]" and "s' = set_cache c (butlast (cached s c)) s"
  using assms by (auto simp: alloc_last_section_def)

lemma free_cache_parts:
  assumes "free_cache_section c a s = (fs, s')" and "distinct (cached s c)" and "a \<notin> set (cached s c)"
    and "length (cached s c) \<le> PER_CPU_CACHE_SIZE"
  obtains xs where "s' = set_cache c xs s" and "length xs \<le> PER_CPU_CACHE_SIZE"
    and "distinct (xs @ fs)" and "set xs \<union> set fs = insert a (set (cached s c))"
proof (cases "length (cached s c) < PER_CPU_CACHE_SIZE")
  case True
  with assms show ?thesis
    by (intro that [of "cached s c @ [a]"]) (auto simp: free_cache_section_def Let_def)
next
  case False
  define keep where "keep = length (cached s c) - length (cached s c) div 2"
  let ?xs = "take keep (cached s c)" and ?ys = "drop keep (cached s c)"
  have "distinct ?xs" and "distinct ?ys" and "set ?xs \<inter> set ?ys = {}"
    using assms(2) set_take_disj_set_drop_if_distinct [of "cached s c" keep keep] by auto
  moreover have "set ?xs \<union> set ?ys = set (cached s c)"
    by (metis append_take_drop_id set_append)
  moreover have "fs = rev ?ys" and "s' = set_cache c (?xs @ [a]) s"
    using assms(1,3) False by (auto simp: free_cache_section_def Let_def keep_def)
  moreover have "length (?xs @ [a]) \<le> PER_CPU_CACHE_SIZE"
    using assms(4) False by (simp add: keep_def PER_CPU_CACHE_SIZE_def)
  ultimately show ?thesis
    using assms(3) by (intro that [of "?xs @ [a]"]) auto
qed

lemma free_pages_gives_some:
  assumes "pool_inv s" and "frame_ok base" and "2 \<le> count"
  shows "\<exists>fs. gives fs s (pmm_free_pages rd cpu base count s) \<and>
    set fs \<subseteq> set (run_frames (pfn_of base) count)"
proof (cases "pmm_initrd_start s \<noteq> 0 \<and> base < pmm_initrd_end s \<and>
    pmm_initrd_start s < base + of_nat count * 4096")
  case True
  with assms show ?thesis
    by (intro exI [of _ "[]"]) (simp add: pmm_free_pages_def)
next
  case False
  have "set (map addr_of_pfn (releasable rd s (pfn_of base) count)) \<subseteq> set (run_frames (pfn_of base) count)"
    by (auto simp: releasable_def run_frames_def)
  with free_pages_gives [OF assms False] show ?thesis by blast
qed

text \<open>The cases of the step relation that move frames through a cache.\<close>

lemma smp_inv_pop:
  assumes "smp_inv st" and "cached (pm st) c = butlast (cached (pm st) c) @ [a]"
    and "pmm_bitmap s' = pmm_bitmap (pm st)" and "pool_inv s'"
    and "\<And>d. cached s' d = (if d = c then butlast (cached (pm st) c) else cached (pm st) d)"
  shows "smp_inv (st\<lparr>pm := s', client := client st @ [a]\<rparr>)"
proof -
  note sep = smp_inv_separate(2,3,6) [OF assms(1)]
  have "distinct (butlast (cached (pm st) c) @ client st @ [a])"
    using sep(1) [of c] sep(2) sep(3) [of c] by (subst (asm) (1 2) assms(2)) auto
  moreover have "set (butlast (cached (pm st) c)) \<union> set (client st @ [a]) \<subseteq>
      set (cached (pm st) c) \<union> set (client st)"
    by (subst (2) assms(2)) auto
  ultimately show ?thesis
    using smp_invD(3) [OF assms(1)] assms(3-5)
    by (intro smp_inv_cache_client [OF assms(1), where c = c and xs = "butlast (cached (pm st) c)"])
      (auto intro: le_trans [OF diff_le_self])
qed

lemma smp_inv_idle:
  assumes "smp_inv st" and "carried (threads st t) = []"
  shows "smp_inv (st\<lparr>threads := (threads st)(t := TIdle)\<rparr>)"
  using smp_inv_thread_client [OF assms(1), of TIdle "client st" t] smp_inv_separate(3) [OF assms(1)]
  by simp

lemma smp_inv_alloc_last:
  assumes "smp_inv st" and "threads st t = TRefill c []" and "alloc_last_section c (pm st) = (a, s')"
  shows "smp_inv (st\<lparr>pm := s', threads := (threads st)(t := TIdle),
    client := (if a = 0 then client st else client st @ [a])\<rparr>)"
proof (cases "cached (pm st) c = []")
  case True
  with assms(3) have "a = 0" and "s' = pm st"
    by (auto simp: alloc_last_section_def)
  moreover have "st\<lparr>pm := pm st, threads := f\<rparr> = st\<lparr>threads := f\<rparr>" for f
    by (cases st) simp
  ultimately show ?thesis
    using assms(1,2) smp_inv_idle [of st t] by simp
next
  case False
  note pop = alloc_last_hit [OF assms(3) False]
  have "a \<in> set (cached (pm st) c)"
    by (subst pop(1)) simp
  then have "a \<noteq> 0"
    using smp_invD(6) [OF assms(1), of a "PCache c"] frame_ok_nonzero by auto
  have "smp_inv (st\<lparr>pm := s', client := client st @ [a]\<rparr>)"
    using smp_invD(1) [OF assms(1)] pop by (intro smp_inv_pop [OF assms(1)]) auto
  then have "smp_inv (st\<lparr>pm := s', client := client st @ [a], threads := (threads st)(t := TIdle)\<rparr>)"
    using smp_inv_idle [of "st\<lparr>pm := s', client := client st @ [a]\<rparr>" t] assms(2) by simp
  moreover have "st\<lparr>pm := s', threads := f, client := x\<rparr> = st\<lparr>pm := s', client := x, threads := f\<rparr>"
    for x f
    by (cases st) simp
  ultimately show ?thesis
    using \<open>a \<noteq> 0\<close> by (simp only: if_False)
qed

lemma smp_inv_free_cache:
  assumes "smp_inv st" and "threads st t = TChecked c a" and "free_cache_section c a (pm st) = (fs, s')"
  shows "smp_inv (st\<lparr>pm := s', threads := (threads st)(t := TDrain fs)\<rparr>)"
proof -
  have "a \<notin> set (cached (pm st) c)"
    using smp_inv_separate(4) [OF assms(1), of t c] assms(2) by simp
  from free_cache_parts [OF assms(3) smp_inv_separate(2) [OF assms(1)] this smp_invD(3) [OF assms(1)]]
  obtain xs where "s' = set_cache c xs (pm st)" and "length xs \<le> PER_CPU_CACHE_SIZE"
    and "distinct (xs @ fs)" and "set xs \<union> set fs = insert a (set (cached (pm st) c))"
    by blast
  with assms(2) smp_invD(1) [OF assms(1)] show ?thesis
    by (intro smp_inv_cache_thread [OF assms(1), where c = c and xs = xs]) auto
qed

lemma smp_inv_alloc_run:
  assumes "smp_inv st" and "2 \<le> count" and "pmm_alloc_pages cpu count (pm st) = (a, s')" and "a \<noteq> 0"
  shows "smp_inv (st\<lparr>pm := s', client := client st @ run_frames (pfn_of a) count\<rparr>)"
proof -
  obtain r where r: "find_run (pmm_bitmap (pm st)) (pmm_bitmap_hint (pm st)) count = Some r"
    using assms(2-4) alloc_pages_null [of count "pm st" cpu]
    by (cases "find_run (pmm_bitmap (pm st)) (pmm_bitmap_hint (pm st)) count") auto
  note run = alloc_pages_takes [OF smp_invD(1) [OF assms(1)] assms(2) r]
  have "a = addr_of_pfn r" and "r < BITMAP_TOTAL_PAGES"
    using run(2) [of cpu] run(4) assms(2,3) by auto
  with run(1) [of cpu] assms show ?thesis
    by (intro smp_inv_take_client) auto
qed

lemma smp_inv_free_run:
  assumes "smp_inv st" and "2 \<le> count" and "base \<in> set (client st)"
    and "set (run_frames (pfn_of base) count) \<subseteq> set (client st)"
  shows "smp_inv (st\<lparr>pm := pmm_free_pages rd cpu base count (pm st),
    client := filter (\<lambda>a. a \<notin> set (run_frames (pfn_of base) count)) (client st)\<rparr>)"
proof -
  have "frame_ok base"
    using smp_inv_separate(7) [OF assms(1)] assms(3) by blast
  from free_pages_gives_some [OF smp_invD(1) [OF assms(1)] this assms(2)]
  obtain fs where "gives fs (pm st) (pmm_free_pages rd cpu base count (pm st))"
    and "set fs \<subseteq> set (run_frames (pfn_of base) count)"
    by blast
  with assms smp_inv_separate(3) [OF assms(1)] show ?thesis
    by (intro smp_inv_give_client [of _ fs]) auto
qed

lemma smp_step_inv: "smp_step st st' \<Longrightarrow> smp_inv st \<Longrightarrow> smp_inv st'"
proof (induction rule: smp_step.induct)
  case (alloc_hit st t cpu a s')
  then show ?case
    using alloc_fast_hit [OF alloc_hit(2)] smp_invD(1) [OF alloc_hit(3)] by (intro smp_inv_pop) auto
next
  case (alloc_miss st t cpu s')
  then show ?case
    using smp_invD(1) [OF alloc_miss(3)] alloc_fast_miss [OF alloc_miss(2)]
    by (intro smp_inv_cache_thread [where c = "this_cpu cpu" and xs = "[]"]) auto
next
  case (alloc_batch st t c fs s')
  then show ?case
    using alloc_batch_takes(1) smp_invD(1) by (intro smp_inv_take_thread) auto
next
  case (refill_push st t c f fs)
  then show ?case
    using smp_invD(1) [OF refill_push(3)] smp_inv_separate(1,4) [OF refill_push(3), of t]
      smp_inv_separate(2) [OF refill_push(3), of c]
    by (intro smp_inv_cache_thread [where c = c and xs = "cached (pm st) c @ [f]"])
      (auto simp: refill_step_def)
next
  case (refill_full st t c f fs)
  then show ?case
    using smp_inv_separate(1,5) [OF refill_full(3), of t] smp_inv_separate(3) [OF refill_full(3)]
      smp_inv_thread_client [OF refill_full(3), of "TReturn c f fs" "client st" t]
    by simp
next
  case (refill_return st t c f fs)
  then show ?case
    using smp_inv_separate(1,7) [OF refill_return(2), of t] smp_invD(1) [OF refill_return(2)]
    by (intro smp_inv_give_thread [of _ "[f]"]) (auto intro!: gives_one)
next
  case (alloc_last st t c a s')
  then show ?case by (blast intro: smp_inv_alloc_last)
next
  case (alloc_run st t count cpu a s')
  then show ?case by (blast intro: smp_inv_alloc_run)
next
  case (free_check st t a rd cpu)
  then show ?case
    using smp_inv_separate(3) [OF free_check(4)]
    by (intro smp_inv_thread_client) auto
next
  case (free_blocked st t a rd)
  then show ?case
    using smp_inv_separate(3) [OF free_blocked(4)] smp_invD(1) [OF free_blocked(4)]
      smp_inv_give_client [OF free_blocked(4), of "[]" "pm st" "remove1 a (client st)"]
    by (auto dest: notin_set_remove1 simp: set_remove1_eq)
next
  case (free_cache st t c a fs s')
  then show ?case by (blast intro: smp_inv_free_cache)
next
  case (free_drain st t fs)
  then show ?case
    using smp_inv_separate(1,7) [OF free_drain(2), of t] smp_invD(1) [OF free_drain(2)]
    by (intro smp_inv_give_thread [of _ fs]) (auto intro!: gives_batch)
next
  case (free_run st t count base rd cpu)
  then show ?case by (blast intro: smp_inv_free_run)
next
  case (reclaim_take st t c)
  then show ?case
    using smp_invD(1) [OF reclaim_take(3)] smp_inv_separate(2) [OF reclaim_take(3)]
    by (intro smp_inv_cache_thread [where c = c and xs = "[]"]) auto
next
  case (reclaim_free st t f fs)
  then show ?case
    using smp_inv_separate(1,7) [OF reclaim_free(2), of t] smp_invD(1) [OF reclaim_free(2)]
    by (intro smp_inv_give_thread [of _ "[f]"]) (auto intro!: gives_one)
next
  case (reclaim_done st t)
  then show ?case by (simp add: smp_inv_idle)
qed


lemma smp_reachable_inv: "smp_reachable st0 st \<Longrightarrow> smp_start st0 \<Longrightarrow> smp_inv st"
  by (induction rule: smp_reachable.induct) (auto intro: smp_inv_start smp_step_inv)

end
