(* ===== verification/Pmm_Contract.thy ===== *)
theory Pmm_Contract
  imports Pmm_Smp
begin

text \<open>
  The sequential contract of the page allocator: what boot makes free, that the public
  operations are runs of their critical sections, and which frames the module can still
  hand out before and after each of them.
\<close>

section \<open>Boot\<close>

text \<open>The frames of a usable entry that boot may hand to the allocator.\<close>

definition usable_frame :: "pmm \<Rightarrow> u64 \<Rightarrow> memory_map_entry \<Rightarrow> nat \<Rightarrow> bool" where
  "usable_frame s kernel_end e p \<longleftrightarrow> mm_type e = 1 \<and>
     ALIGN_UP_PAGE (mm_base e) \<le> addr_of_pfn p \<and>
     addr_of_pfn p < ALIGN_DOWN_PAGE (mm_base e + mm_length e) \<and>
     \<not> pmm_skip_page s (ALIGN_UP_PAGE kernel_end) (addr_of_pfn p)"

definition boot_frames :: "pmm \<Rightarrow> u64 \<Rightarrow> memory_map_entry list \<Rightarrow> nat set" where
  "boot_frames s kernel_end mmap =
     {p. p < pfn_of PMM_INITIAL_MAX_PHYS \<and> (\<exists>e \<in> set mmap. usable_frame s kernel_end e p)}"

lemma add_page_fields [simp]:
  "pmm_initrd_start (pmm_add_page_locked a s) = pmm_initrd_start s"
  "pmm_initrd_end (pmm_add_page_locked a s) = pmm_initrd_end s"
  "cpu_caches (pmm_add_page_locked a s) = cpu_caches s"
  "pmm_bitmap_hint (pmm_add_page_locked a s) = pmm_bitmap_hint s"
  by (simp_all add: pmm_add_page_locked_def Let_def)

lemma skip_page_cong:
  "pmm_initrd_start s' = pmm_initrd_start s \<Longrightarrow> pmm_initrd_end s' = pmm_initrd_end s \<Longrightarrow>
    pmm_skip_page s' k a = pmm_skip_page s k a"
  by (simp add: pmm_skip_page_def)

lemma free_in_add_page:
  "p < BITMAP_TOTAL_PAGES \<Longrightarrow> free_in (pmm_add_page_locked (addr_of_pfn p) s) q \<longleftrightarrow> q = p \<or> free_in s q"
  by (simp add: pmm_add_page_locked_def Let_def)

lemma init_page_fields [simp]:
  "pmm_initrd_start (pmm_init_page k p s) = pmm_initrd_start s"
  "pmm_initrd_end (pmm_init_page k p s) = pmm_initrd_end s"
  "cpu_caches (pmm_init_page k p s) = cpu_caches s"
  "pmm_bitmap_hint (pmm_init_page k p s) = pmm_bitmap_hint s"
  by (simp_all add: pmm_init_page_def Let_def)

lemma fold_init_page_fields [simp]:
  "pmm_initrd_start (fold (pmm_init_page k) ps s) = pmm_initrd_start s"
  "pmm_initrd_end (fold (pmm_init_page k) ps s) = pmm_initrd_end s"
  "cpu_caches (fold (pmm_init_page k) ps s) = cpu_caches s"
  "pmm_bitmap_hint (fold (pmm_init_page k) ps s) = pmm_bitmap_hint s"
  by (induction ps arbitrary: s) simp_all

lemma init_page_skip [simp]: "pmm_skip_page (pmm_init_page k p s) k' a = pmm_skip_page s k' a"
  by (rule skip_page_cong) simp_all

lemma free_in_init_page:
  "p < BITMAP_TOTAL_PAGES \<Longrightarrow> free_in (pmm_init_page k p s) q \<longleftrightarrow>
    free_in s q \<or> q = p \<and> \<not> pmm_skip_page s k (addr_of_pfn q)"
  by (auto simp: pmm_init_page_def Let_def free_in_add_page)

lemma free_in_fold_init_page:
  "\<forall>p \<in> set ps. p < BITMAP_TOTAL_PAGES \<Longrightarrow> free_in (fold (pmm_init_page k) ps s) q \<longleftrightarrow>
    free_in s q \<or> q \<in> set ps \<and> \<not> pmm_skip_page s k (addr_of_pfn q)"
  by (induction ps arbitrary: s) (auto simp: free_in_init_page)

lemma align_aligned: "ALIGN_UP_PAGE x AND 4095 = 0" "ALIGN_DOWN_PAGE x AND 4095 = 0"
  by (simp_all add: ALIGN_UP_PAGE_def ALIGN_DOWN_PAGE_def and.assoc)

lemma aligned_le_frame:
  assumes "b AND 4095 = 0" and "p < BITMAP_TOTAL_PAGES"
  shows "b \<le> addr_of_pfn p \<longleftrightarrow> pfn_of b \<le> p" and "addr_of_pfn p < b \<longleftrightarrow> p < pfn_of b"
proof -
  have "unat b = pfn_of b * 4096"
    using assms(1) by (simp add: aligned_addr pfn_of_def unat_div mod_0_imp_dvd)
  then show "b \<le> addr_of_pfn p \<longleftrightarrow> pfn_of b \<le> p" "addr_of_pfn p < b \<longleftrightarrow> p < pfn_of b"
    using unat_addr_of_frame [OF assms(2)] by (simp_all add: word_le_nat_alt word_less_nat_alt)
qed

lemma initial_max_pfn: "pfn_of PMM_INITIAL_MAX_PHYS = 262144"
  by (simp add: PMM_INITIAL_MAX_PHYS_def pfn_of_def)

lemma pfn_of_mono: "a \<le> b \<Longrightarrow> pfn_of a \<le> pfn_of b"
  by (simp add: pfn_of_def word_le_nat_alt unat_div div_le_mono)

lemma init_entry_fields [simp]:
  "pmm_initrd_start (pmm_init_entry k e s) = pmm_initrd_start s"
  "pmm_initrd_end (pmm_init_entry k e s) = pmm_initrd_end s"
  "cpu_caches (pmm_init_entry k e s) = cpu_caches s"
  "pmm_bitmap_hint (pmm_init_entry k e s) = pmm_bitmap_hint s"
  by (simp_all add: pmm_init_entry_def Let_def)

lemma usable_frame_cong:
  "pmm_initrd_start s' = pmm_initrd_start s \<Longrightarrow> pmm_initrd_end s' = pmm_initrd_end s \<Longrightarrow>
    usable_frame s' k e p = usable_frame s k e p"
  by (simp add: usable_frame_def skip_page_cong [of s' s])

lemma free_in_init_entry:
  "free_in (pmm_init_entry (ALIGN_UP_PAGE k) e s) p \<longleftrightarrow>
    free_in s p \<or> p < pfn_of PMM_INITIAL_MAX_PHYS \<and> usable_frame s k e p"
proof -
  let ?b = "ALIGN_UP_PAGE (mm_base e)" and ?e = "ALIGN_DOWN_PAGE (mm_base e + mm_length e)"
  let ?m = "if PMM_INITIAL_MAX_PHYS < ?e then PMM_INITIAL_MAX_PHYS else ?e"
  let ?s = "s\<lparr>total_memory := total_memory s + (?m - ?b),
    memory_start := (if memory_start s = 0 \<or> ?b < memory_start s then ?b else memory_start s),
    memory_end := (if memory_end s < ?m then ?m else memory_end s)\<rparr>"
  have m: "pfn_of ?m = min (pfn_of PMM_INITIAL_MAX_PHYS) (pfn_of ?e)"
    using pfn_of_mono [of ?e PMM_INITIAL_MAX_PHYS] pfn_of_mono [of PMM_INITIAL_MAX_PHYS ?e]
    by (auto simp: min_def not_less)
  have skip: "pmm_skip_page ?s (ALIGN_UP_PAGE k) a = pmm_skip_page s (ALIGN_UP_PAGE k) a" for a
    by (rule skip_page_cong) simp_all
  have range: "p < BITMAP_TOTAL_PAGES" if "p < pfn_of PMM_INITIAL_MAX_PHYS" for p
    using that by (simp add: initial_max_pfn BITMAP_TOTAL_PAGES_def)
  have usable: "usable_frame s k e p \<longleftrightarrow> mm_type e = 1 \<and> pfn_of ?b \<le> p \<and> p < pfn_of ?e \<and>
      \<not> pmm_skip_page s (ALIGN_UP_PAGE k) (addr_of_pfn p)" if "p < pfn_of PMM_INITIAL_MAX_PHYS"
    using aligned_le_frame [OF align_aligned(1) range [OF that]]
      aligned_le_frame [OF align_aligned(2) range [OF that]]
    by (simp add: usable_frame_def)
  consider "mm_type e \<noteq> 1" | "mm_type e = 1" "?e \<le> ?b \<or> PMM_INITIAL_MAX_PHYS \<le> ?b"
    | "mm_type e = 1" "\<not> ?e \<le> ?b" "\<not> PMM_INITIAL_MAX_PHYS \<le> ?b"
    by blast
  then show ?thesis
  proof cases
    case 1
    then show ?thesis by (simp add: pmm_init_entry_def usable_frame_def)
  next
    case 2
    then have "\<not> (pfn_of ?b \<le> p \<and> p < pfn_of ?e \<and> p < pfn_of PMM_INITIAL_MAX_PHYS)"
      using pfn_of_mono [of ?e ?b] pfn_of_mono [of PMM_INITIAL_MAX_PHYS ?b] by fastforce
    with 2 usable show ?thesis by (auto simp: pmm_init_entry_def Let_def)
  next
    case 3
    then have "pmm_init_entry (ALIGN_UP_PAGE k) e s =
        fold (pmm_init_page (ALIGN_UP_PAGE k)) [pfn_of ?b ..< pfn_of ?m] ?s"
      by (simp add: pmm_init_entry_def Let_def)
    moreover have "free_in (fold (pmm_init_page (ALIGN_UP_PAGE k)) [pfn_of ?b ..< pfn_of ?m] ?s) p \<longleftrightarrow>
        free_in s p \<or> p \<in> set [pfn_of ?b ..< pfn_of ?m] \<and> \<not> pmm_skip_page s (ALIGN_UP_PAGE k) (addr_of_pfn p)"
      using free_in_fold_init_page [of "[pfn_of ?b ..< pfn_of ?m]" "ALIGN_UP_PAGE k" ?s p] m skip range
      by simp
    ultimately show ?thesis
      using 3(1) m usable by auto
  qed
qed

lemma free_in_fold_init_entry:
  "free_in (fold (pmm_init_entry (ALIGN_UP_PAGE k)) mmap s) p \<longleftrightarrow>
    free_in s p \<or> p \<in> boot_frames s k mmap"
proof (induction mmap arbitrary: s)
  case Nil
  show ?case by (simp add: boot_frames_def)
next
  case (Cons e mmap)
  have "usable_frame (pmm_init_entry (ALIGN_UP_PAGE k) e s) k = usable_frame s k"
    by (intro ext usable_frame_cong) simp_all
  then show ?case
    by (auto simp: Cons.IH boot_frames_def free_in_init_entry)
qed

section \<open>The whole operations as runs of their sections\<close>

abbreviation smp_run :: "smp \<Rightarrow> smp \<Rightarrow> bool" where
  "smp_run \<equiv> smp_step\<^sup>*\<^sup>*"

lemma smp_run_inv: "smp_run st st' \<Longrightarrow> smp_inv st \<Longrightarrow> smp_inv st'"
  by (induction rule: rtranclp_induct) (auto intro: smp_step_inv)

abbreviation sys :: "pmm \<Rightarrow> (nat \<Rightarrow> tstate) \<Rightarrow> u64 list \<Rightarrow> smp" where
  "sys s th cl \<equiv> \<lparr>pm = s, threads = th, client = cl\<rparr>"

lemma refill_run:
  "smp_run (sys s (th(t := TRefill c fs)) cl)
     (sys (fold (refill_step c) fs s) (th(t := TRefill c [])) cl)"
proof (induction fs arbitrary: s)
  case Nil
  then show ?case by simp
next
  case (Cons f fs)
  let ?s = "refill_step c f s"
  have "smp_run (sys s (th(t := TRefill c (f # fs))) cl) (sys ?s (th(t := TRefill c fs)) cl)"
  proof (cases "length (cached s c) < PER_CPU_CACHE_SIZE")
    case True
    then show ?thesis
      using refill_push [of "sys s (th(t := TRefill c (f # fs))) cl" t c f fs] by auto
  next
    case False
    then have "smp_step (sys s (th(t := TReturn c f fs)) cl) (sys ?s (th(t := TRefill c fs)) cl)"
      using refill_return [of "sys s (th(t := TReturn c f fs)) cl" t c f fs]
      by (simp add: refill_step_def)
    moreover have "smp_step (sys s (th(t := TRefill c (f # fs))) cl) (sys s (th(t := TReturn c f fs)) cl)"
      using refill_full [of "sys s (th(t := TRefill c (f # fs))) cl" t c f fs] False by simp
    ultimately show ?thesis
      by (meson converse_rtranclp_into_rtranclp r_into_rtranclp)
  qed
  from this Cons.IH [of ?s] show ?case
    unfolding fold.simps comp_apply by (rule rtranclp_trans)
qed

text \<open>\<open>pmm_alloc_page\<close> and \<open>pmm_free_page\<close> on an idle thread are runs of their sections.\<close>

lemma alloc_page_run:
  assumes "th t = TIdle" and "smp_inv (sys s th cl)" and "pmm_alloc_page cpu s = (a, s')"
  shows "smp_run (sys s th cl) (sys s' th (if a = 0 then cl else cl @ [a]))"
proof (cases "alloc_fast_section (this_cpu cpu) s")
  case (Pair r s1)
  show ?thesis
  proof (cases r)
    case (Some b)
    with Pair assms(3) have ab: "a = b" "s' = s1" by (simp_all add: pmm_alloc_page_def Let_def)
    have "cached s (this_cpu cpu) = butlast (cached s (this_cpu cpu)) @ [a]"
      using alloc_fast_hit(1) [OF Pair [unfolded Some]] ab by simp
    then have "a \<in> set (cached s (this_cpu cpu))" by (metis in_set_conv_decomp)
    then have "a \<noteq> 0"
      using smp_invD(6) [OF assms(2), of a "PCache (this_cpu cpu)"] frame_ok_nonzero by auto
    with alloc_hit [of "sys s th cl" t cpu a s'] assms(1) Pair Some ab show ?thesis
      by (simp add: r_into_rtranclp)
  next
    case None
    obtain fs s2 where b: "pmm_alloc_batch_slow PER_CPU_CACHE_SIZE s1 = (fs, s2)"
      by (meson surj_pair)
    let ?c = "this_cpu cpu"
    let ?s3 = "fold (refill_step ?c) fs s2"
    have r: "alloc_last_section ?c ?s3 = (a, s')"
      using assms(3) Pair None b by (simp add: pmm_alloc_page_def Let_def)
    have "smp_step (sys s th cl) (sys s1 (th(t := TMiss ?c)) cl)"
      using alloc_miss [of "sys s th cl" t cpu s1] assms(1) Pair None by simp
    moreover have "smp_step (sys s1 (th(t := TMiss ?c)) cl) (sys s2 (th(t := TRefill ?c fs)) cl)"
      using alloc_batch [of "sys s1 (th(t := TMiss ?c)) cl" t ?c fs s2] b by simp
    moreover have "smp_step (sys ?s3 (th(t := TRefill ?c [])) cl)
        (sys s' th (if a = 0 then cl else cl @ [a]))"
      using alloc_last [of "sys ?s3 (th(t := TRefill ?c [])) cl" t ?c a s'] r assms(1)
      by (simp add: fun_upd_idem cong: if_cong)
    ultimately show ?thesis
      using refill_run [of s2 th t ?c fs cl]
      by (meson converse_rtranclp_into_rtranclp rtranclp.rtrancl_into_rtrancl)
  qed
qed

lemma free_page_run:
  assumes "th t = TIdle" and "a \<in> set cl"
  shows "smp_run (sys s th cl) (sys (pmm_free_page rd cpu a s) th (remove1 a cl))"
proof (cases "pmm_free_guard rd a s")
  case False
  then show ?thesis
    using free_blocked [of "sys s th cl" t a rd] assms by (simp add: pmm_free_page_def r_into_rtranclp)
next
  case True
  obtain fs s1 where f: "free_cache_section (this_cpu cpu) a s = (fs, s1)"
    by (meson surj_pair)
  let ?x = "TChecked (this_cpu cpu) a"
  have "smp_step (sys s th cl) (sys s (th(t := ?x)) (remove1 a cl))"
    using free_check [of "sys s th cl" t a rd cpu] assms True by simp
  moreover have "smp_step (sys s (th(t := ?x)) (remove1 a cl)) (sys s1 (th(t := TDrain fs)) (remove1 a cl))"
    using free_cache [of "sys s (th(t := ?x)) (remove1 a cl)" t _ a fs s1] f by simp
  moreover have "smp_step (sys s1 (th(t := TDrain fs)) (remove1 a cl))
      (sys (pmm_free_page rd cpu a s) th (remove1 a cl))"
    using free_drain [of "sys s1 (th(t := TDrain fs)) (remove1 a cl)" t fs] f True assms(1)
    by (simp add: pmm_free_page_def fun_upd_idem)
  ultimately show ?thesis
    by (meson converse_rtranclp_into_rtranclp r_into_rtranclp)
qed

section \<open>The upper limit of single-page allocation\<close>

lemma batch_word_below:
  "batch_word want tp w bits out s = (out', s') \<Longrightarrow> tp \<le> BITMAP_TOTAL_PAGES \<Longrightarrow>
    \<forall>a \<in> set out. pfn_of a < tp \<Longrightarrow> \<forall>a \<in> set out'. pfn_of a < tp"
proof (induction want tp w bits out s rule: batch_word.induct)
  case (1 want tp w bits out s)
  let ?pfn = "w * 64 + ctz bits"
  show ?case
  proof (cases "bits \<noteq> 0 \<and> length out < want")
    case False
    with "1.prems" show ?thesis by (auto simp: batch_word.simps)
  next
    case True
    show ?thesis
    proof (cases "?pfn = 0 \<or> tp \<le> ?pfn")
      case skip: True
      with "1.IH"(1) [OF True refl refl refl] "1.prems" True show ?thesis
        by (simp add: batch_word.simps [of want tp w bits] Let_def)
    next
      case take: False
      then have "\<forall>a \<in> set (out @ [addr_of_pfn ?pfn]). pfn_of a < tp"
        using "1.prems"(2,3) by auto
      with "1.IH"(2) [OF True refl refl refl take] "1.prems" True take show ?thesis
        by (auto simp: batch_word.simps [of want tp w bits] Let_def split: if_splits)
    qed
  qed
qed

lemma batch_scan_below:
  "batch_scan want hint tw tp k out s = (out', s') \<Longrightarrow> tp \<le> BITMAP_TOTAL_PAGES \<Longrightarrow>
    \<forall>a \<in> set out. pfn_of a < tp \<Longrightarrow> \<forall>a \<in> set out'. pfn_of a < tp"
proof (induction want hint tw tp k out s rule: batch_scan.induct)
  case (1 want hint tw tp k out s)
  let ?w = "if tw \<le> hint + k then hint + k - tw else hint + k"
  obtain out1 s1 where b: "batch_word want tp ?w (pmm_bitmap s ?w) out s = (out1, s1)"
    by (meson surj_pair)
  show ?case
  proof (cases "k < tw \<and> length out < want")
    case False
    with "1.prems" show ?thesis by (auto simp: batch_scan.simps)
  next
    case True
    show ?thesis
    proof (cases "pmm_bitmap s ?w = 0")
      case zero: True
      with "1.IH"(1) [OF True refl refl refl zero] "1.prems" True show ?thesis
        by (simp add: batch_scan.simps [of want hint tw tp k] Let_def)
    next
      case nonzero: False
      have "\<forall>a \<in> set out1. pfn_of a < tp"
        by (rule batch_word_below [OF b "1.prems"(2,3)])
      moreover have "batch_scan want hint tw tp (Suc k) out1 (s1\<lparr>pmm_bitmap_hint := ?w\<rparr>) = (out', s')"
        using "1.prems"(1) True nonzero b
        by (simp add: batch_scan.simps [of want hint tw tp k] Let_def)
      ultimately show ?thesis
        using "1.IH"(2) [OF True refl refl refl nonzero b [symmetric] refl] "1.prems"(2) by simp
    qed
  qed
qed

lemma alloc_batch_below:
  assumes "pmm_alloc_batch_slow want s = (fs, s')"
  shows "\<forall>a \<in> set fs. pfn_of a < scan_limit s"
proof (cases "want = 0")
  case True
  with assms show ?thesis by (simp add: pmm_alloc_batch_slow_def)
next
  case False
  with assms batch_scan_below [OF _ scan_limit_le [of s]] show ?thesis
    by (fastforce simp: pmm_alloc_batch_slow_def Let_def)
qed

section \<open>The contract between two calls\<close>

text \<open>
  The invariant of the module between two calls, and the frames it can still hand out:
  those free in the bitmap and those parked in a CPU's cache.
\<close>

definition pmm_inv :: "pmm \<Rightarrow> bool" where
  "pmm_inv s \<longleftrightarrow> smp_inv (sys s (\<lambda>_. TIdle) [])"

definition in_cache :: "pmm \<Rightarrow> nat \<Rightarrow> bool" where
  "in_cache s p \<longleftrightarrow> (\<exists>c. p \<in> pfn_of ` set (cached s c))"

definition pool_frames :: "pmm \<Rightarrow> nat set" where
  "pool_frames s = {p. free_in s p \<or> in_cache s p}"

lemma pmm_invD:
  assumes "pmm_inv s"
  shows "pool_inv s" and "distinct (cached s c)" and "length (cached s c) \<le> PER_CPU_CACHE_SIZE"
    and "a \<in> set (cached s c) \<Longrightarrow> frame_ok a"
    and "a \<in> set (cached s c) \<Longrightarrow> \<not> free_in s (pfn_of a)"
    and "c \<noteq> d \<Longrightarrow> set (cached s c) \<inter> set (cached s d) = {}"
  using smp_invD(1) [OF assms [unfolded pmm_inv_def]]
    smp_invD(3) [OF assms [unfolded pmm_inv_def], of c]
    smp_invD(4) [OF assms [unfolded pmm_inv_def], of "PCache c"]
    smp_invD(5) [OF assms [unfolded pmm_inv_def], of "PCache c" "PCache d"]
    smp_invD(6,7) [OF assms [unfolded pmm_inv_def], of a "PCache c"]
  by auto

lemma smp_inv_drop_client: "smp_inv (sys s th cl) \<Longrightarrow> smp_inv (sys s th [])"
  using smp_inv_thread_client [of "sys s th cl" "th 0" "[]" 0]
    smp_inv_separate(1) [of "sys s th cl" 0]
  by simp

lemma alloc_page_inv:
  assumes "pmm_inv s" and "pmm_alloc_page cpu s = (a, s')"
  shows "pmm_inv s'"
proof -
  have "smp_inv (sys s' (\<lambda>_. TIdle) (if a = 0 then [] else [] @ [a]))"
    using assms smp_run_inv alloc_page_run [of "\<lambda>_. TIdle" 0 s "[]" cpu a s']
    unfolding pmm_inv_def by blast
  then show ?thesis
    unfolding pmm_inv_def by (rule smp_inv_drop_client)
qed

lemma smp_inv_add_client:
  assumes "pmm_inv s" and "frame_ok a" and "pfn_of a \<notin> pool_frames s"
  shows "smp_inv (sys s (\<lambda>_. TIdle) [a])"
proof -
  have pool: "\<not> free_in s (pfn_of a)" "a \<notin> set (cached s c)" for c
    using assms(3) by (auto simp: pool_frames_def in_cache_def)
  have "holds (sys s (\<lambda>_. TIdle) [a]) = (holds (sys s (\<lambda>_. TIdle) []))(PClient := [a])"
  proof
    show "holds (sys s (\<lambda>_. TIdle) [a]) l = ((holds (sys s (\<lambda>_. TIdle) []))(PClient := [a])) l" for l
      by (cases l) auto
  qed
  moreover have "a \<notin> set (holds (sys s (\<lambda>_. TIdle) []) l)" for l
    using pool(2) by (cases l) auto
  ultimately show ?thesis
    using assms pool(1) unfolding pmm_inv_def smp_inv_def exclusive_def by auto
qed

lemma free_page_inv:
  assumes "pmm_inv s" and "frame_ok a" and "pfn_of a \<notin> pool_frames s"
  shows "pmm_inv (pmm_free_page rd cpu a s)"
  using smp_run_inv [OF free_page_run [of "\<lambda>_. TIdle" 0 a "[a]"] smp_inv_add_client [OF assms]]
  by (simp add: pmm_inv_def)

text \<open>With room in the cache, a refill appends the whole batch to it.\<close>

lemma refill_all:
  "length (cached s c) + length fs \<le> PER_CPU_CACHE_SIZE \<Longrightarrow>
    fold (refill_step c) fs s = set_cache c (cached s c @ fs) s"
proof (induction fs arbitrary: s)
  case Nil
  then show ?case by (simp add: set_cache_def)
next
  case (Cons f fs)
  then show ?case
    by (simp add: refill_step_def) (simp add: set_cache_def)
qed

lemma alloc_page_hit:
  assumes "pmm_alloc_page cpu s = (a, s')" and "cached s (this_cpu cpu) \<noteq> []"
  shows "cached s (this_cpu cpu) = butlast (cached s (this_cpu cpu)) @ [a]"
    and "pmm_bitmap s' = pmm_bitmap s" and "used_memory s' = used_memory s"
    and "cached s' d = (if d = this_cpu cpu then butlast (cached s (this_cpu cpu)) else cached s d)"
  using assms by (auto simp: pmm_alloc_page_def alloc_fast_section_def Let_def)

lemma alloc_page_miss:
  assumes "pmm_alloc_page cpu s = (a, s')" and "cached s (this_cpu cpu) = []" and "pool_inv s"
  obtains fs s1 s2 where "takes fs s1 s2" and "pmm_bitmap s1 = pmm_bitmap s"
    and "used_memory s1 = used_memory s" and "pmm_bitmap s' = pmm_bitmap s2"
    and "used_memory s' = used_memory s2" and "a = (if fs = [] then 0 else last fs)"
    and "\<And>d. cached s' d = (if d = this_cpu cpu then butlast fs else cached s d)"
    and "fs = [] \<Longrightarrow> \<forall>p < scan_limit s. \<not> free_in s p"
    and "\<forall>b \<in> set fs. pfn_of b < scan_limit s"
proof -
  let ?c = "this_cpu cpu"
  obtain s1 where s1: "alloc_fast_section ?c s = (None, s1)"
    using assms(2) by (simp add: alloc_fast_section_def Let_def)
  obtain fs s2 where b: "pmm_alloc_batch_slow PER_CPU_CACHE_SIZE s1 = (fs, s2)"
    by (meson surj_pair)
  have same: "pmm_bitmap s1 = pmm_bitmap s" "used_memory s1 = used_memory s" "pool_inv s1"
    "cached s1 = cached s" "scan_limit s1 = scan_limit s"
    using s1 assms(2,3) by (auto simp: alloc_fast_section_def pool_inv_def scan_limit_def Let_def)
  note t = alloc_batch_takes [OF same(3) b]
  have c: "cpu_caches s2 = cpu_caches s1" using t(1) by (simp add: takes_def pool_only_fields)
  then have "cached s2 ?c = []"
    using assms(2) fun_cong [OF same(4), of ?c] by simp
  then have "fold (refill_step ?c) fs s2 = set_cache ?c fs s2"
    using refill_all [of s2 ?c fs] t(2) by simp
  then have r: "alloc_last_section ?c (set_cache ?c fs s2) = (a, s')"
    using assms(1) s1 b by (simp add: pmm_alloc_page_def Let_def)
  show ?thesis
  proof (rule that [OF t(1) same(1,2)])
    show "fs = [] \<Longrightarrow> \<forall>p < scan_limit s. \<not> free_in s p"
      using t(1,3) same by (auto simp: PER_CPU_CACHE_SIZE_def takes_def)
    show "\<forall>b \<in> set fs. pfn_of b < scan_limit s"
      using alloc_batch_below [OF b] same(5) by simp
    show "cached s' d = (if d = ?c then butlast fs else cached s d)" for d
      using r c fun_cong [OF same(4), of d]
      by (cases "fs = []") (auto simp: alloc_last_section_def)
    show "a = (if fs = [] then 0 else last fs)"
      using r by (auto simp: alloc_last_section_def)
    show "pmm_bitmap s' = pmm_bitmap s2" "used_memory s' = used_memory s2"
      using r by (auto simp: alloc_last_section_def set_cache_def split: if_splits)
  qed
qed

lemma cached_pfns_update:
  assumes "\<And>d. cached s' d = (if d = c then xs else cached s d)"
  shows "in_cache s' p \<longleftrightarrow>
      p \<in> pfn_of ` set xs \<or> (\<exists>d. d \<noteq> c \<and> p \<in> pfn_of ` set (cached s d))"
    and "in_cache s p \<longleftrightarrow>
      p \<in> pfn_of ` set (cached s c) \<or> (\<exists>d. d \<noteq> c \<and> p \<in> pfn_of ` set (cached s d))"
proof -
  have split: "(\<exists>d. P d) \<longleftrightarrow> P c \<or> (\<exists>d. d \<noteq> c \<and> P d)" for P
    by (cases "P c") auto
  show "in_cache s' p \<longleftrightarrow>
      p \<in> pfn_of ` set xs \<or> (\<exists>d. d \<noteq> c \<and> p \<in> pfn_of ` set (cached s d))"
    unfolding in_cache_def split [of "\<lambda>d. p \<in> pfn_of ` set (cached s' d)"]
    by (simp add: assms cong: conj_cong)
  show "in_cache s p \<longleftrightarrow>
      p \<in> pfn_of ` set (cached s c) \<or> (\<exists>d. d \<noteq> c \<and> p \<in> pfn_of ` set (cached s d))"
    unfolding in_cache_def by (rule split)
qed

lemma take_pool_frames:
  assumes "takes fs s1 s2" and "pmm_bitmap s1 = pmm_bitmap s" and "pmm_bitmap s' = pmm_bitmap s2"
    and "\<And>d. cached s' d = (if d = c then butlast fs else cached s d)" and "cached s c = []"
    and "pmm_inv s" and "fs \<noteq> []"
  shows "pfn_of (last fs) \<in> pool_frames s" and "frame_ok (last fs)"
    and "pool_frames s' = pool_frames s - {pfn_of (last fs)}"
proof -
  have fs: "distinct fs" "\<forall>a \<in> set fs. frame_ok a \<and> free_in s (pfn_of a)"
    "free_in s' p \<longleftrightarrow> free_in s p \<and> p \<notin> pfn_of ` set fs" for p
    using assms(1-3) by (auto simp: takes_def)
  have split: "set fs = insert (last fs) (set (butlast fs))" "last fs \<notin> set (butlast fs)"
    using fs(1) assms(7) by (cases fs rule: rev_cases; simp; fail)+
  show "frame_ok (last fs)" and "pfn_of (last fs) \<in> pool_frames s"
    using fs(2) split(1) by (auto simp: pool_frames_def)
  have "\<not> in_cache s p" if "free_in s p" for p
    using that pmm_invD(5) [OF assms(6)] by (auto simp: in_cache_def)
  then have uncached: "\<not> in_cache s (pfn_of (last fs))"
    using fs(2) split(1) by simp
  have rest: "pfn_of (last fs) \<notin> pfn_of ` set (butlast fs)"
  proof
    assume "pfn_of (last fs) \<in> pfn_of ` set (butlast fs)"
    then obtain b where "b \<in> set (butlast fs)" "pfn_of b = pfn_of (last fs)" by auto
    with split fs(2) pfn_of_inj_on_frames [of b "last fs"] show False by auto
  qed
  have cache: "in_cache s' p \<longleftrightarrow> p \<in> pfn_of ` set (butlast fs) \<or> in_cache s p" for p
    using cached_pfns_update [of s' c "butlast fs" s p, OF assms(4)] assms(5) by simp
  have free: "p \<in> pfn_of ` set (butlast fs) \<Longrightarrow> free_in s p" "free_in s (pfn_of (last fs))" for p
    using fs(2) split(1) by auto
  have "free_in s' p \<longleftrightarrow> free_in s p \<and> p \<noteq> pfn_of (last fs) \<and> p \<notin> pfn_of ` set (butlast fs)" for p
    using fs(3) split(1) by simp
  with uncached rest cache free show "pool_frames s' = pool_frames s - {pfn_of (last fs)}"
    unfolding pool_frames_def by (intro set_eqI) (metis (no_types, lifting) Diff_iff mem_Collect_eq singleton_iff)
qed

lemma alloc_page_pool:
  assumes "pmm_inv s" and "pmm_alloc_page cpu s = (a, s')" and "a \<noteq> 0"
  shows "frame_ok a \<and> pfn_of a \<in> pool_frames s \<and> pool_frames s' = pool_frames s - {pfn_of a}"
proof (cases "cached s (this_cpu cpu) = []")
  case True
  show ?thesis
  proof (rule alloc_page_miss [OF assms(2) True pmm_invD(1) [OF assms(1)]])
    fix fs s1 s2
    assume t: "takes fs s1 s2" "pmm_bitmap s1 = pmm_bitmap s" "pmm_bitmap s' = pmm_bitmap s2"
      "\<And>d. cached s' d = (if d = this_cpu cpu then butlast fs else cached s d)"
      and a: "a = (if fs = [] then 0 else last fs)"
    then have "fs \<noteq> []" using assms(3) by auto
    with take_pool_frames [OF t True assms(1)] a show ?thesis by simp
  qed
next
  case False
  note h = alloc_page_hit [OF assms(2) False]
  have d: "distinct (butlast (cached s (this_cpu cpu)) @ [a])"
    using pmm_invD(2) [OF assms(1), of "this_cpu cpu"] h(1) by metis
  have a: "a \<in> set (cached s (this_cpu cpu))" using h(1) by (metis in_set_conv_decomp)
  have ok: "frame_ok a" by (rule pmm_invD(4) [OF assms(1) a])
  have other: "pfn_of b \<noteq> pfn_of a" if "b \<in> set (cached s' c)" for b c
  proof -
    have "b \<in> set (cached s c)"
      using that h(4) by (auto split: if_splits dest: in_set_butlastD)
    moreover have "b \<noteq> a"
      using that h(4) a d pmm_invD(6) [OF assms(1), of c "this_cpu cpu"] \<open>b \<in> set (cached s c)\<close>
      by (auto split: if_splits)
    ultimately show ?thesis
      using pfn_of_inj_on_frames [OF pmm_invD(4) [OF assms(1)] ok] by auto
  qed
  have "set (cached s (this_cpu cpu)) = insert a (set (butlast (cached s (this_cpu cpu))))"
    by (subst h(1)) simp
  then have "in_cache s p \<longleftrightarrow> p = pfn_of a \<or> in_cache s' p" for p
    using cached_pfns_update [of s' "this_cpu cpu" _ s p, OF h(4)] by simp
  moreover have "\<not> in_cache s' (pfn_of a)"
    using other unfolding in_cache_def by (metis imageE)
  ultimately show ?thesis
    using ok pmm_invD(5) [OF assms(1) a] h(2) unfolding pool_frames_def by auto
qed

lemma alloc_page_null_iff:
  assumes "pmm_inv s" and "pmm_alloc_page cpu s = (a, s')"
  shows "a = 0 \<longleftrightarrow> cached s (this_cpu cpu) = [] \<and> (\<forall>p < scan_limit s. \<not> free_in s p)"
proof (cases "cached s (this_cpu cpu) = []")
  case True
  show ?thesis
  proof (rule alloc_page_miss [OF assms(2) True pmm_invD(1) [OF assms(1)]])
    fix fs s1 s2
    assume t: "takes fs s1 s2" "pmm_bitmap s1 = pmm_bitmap s" "a = (if fs = [] then 0 else last fs)"
      and none: "fs = [] \<Longrightarrow> \<forall>p < scan_limit s. \<not> free_in s p"
      and below: "\<forall>b \<in> set fs. pfn_of b < scan_limit s"
    show ?thesis
    proof (cases "fs = []")
      case False
      then have "last fs \<in> set fs" by simp
      then have "frame_ok (last fs)" "free_in s (pfn_of (last fs))" "pfn_of (last fs) < scan_limit s"
        using t(1,2) below by (auto simp: takes_def)
      with False t(3) frame_ok_nonzero show ?thesis by auto
    qed (use none t True in auto)
  qed
next
  case False
  have "a \<in> set (cached s (this_cpu cpu))"
    using alloc_page_hit(1) [OF assms(2) False] by (metis in_set_conv_decomp)
  then have "a \<noteq> 0"
    using pmm_invD(4) [OF assms(1)] frame_ok_nonzero by blast
  with False show ?thesis by simp
qed

lemma free_page_pool:
  assumes "pmm_inv s" and "frame_ok a" and "pfn_of a \<notin> pool_frames s" and "pmm_free_guard rd a s"
  shows "pool_frames (pmm_free_page rd cpu a s) = insert (pfn_of a) (pool_frames s)"
proof -
  let ?c = "this_cpu cpu"
  obtain fs s1 where f: "free_cache_section ?c a s = (fs, s1)" by (meson surj_pair)
  have "a \<notin> set (cached s ?c)" using assms(3) by (auto simp: pool_frames_def in_cache_def)
  from free_cache_parts [OF f pmm_invD(2) [OF assms(1)] this pmm_invD(3) [OF assms(1)]]
  obtain xs where xs: "s1 = set_cache ?c xs s" "set xs \<union> set fs = insert a (set (cached s ?c))"
    by blast
  let ?s = "pmm_free_batch_slow fs s1"
  have "\<forall>b \<in> set fs. frame_ok b"
    using xs(2) assms(2) pmm_invD(4) [OF assms(1), of _ ?c] by (metis UnCI insertE)
  then have g: "gives fs s1 ?s"
    using gives_batch [of s1 fs] pmm_invD(1) [OF assms(1)] xs(1) by simp
  then have "cpu_caches ?s = cpu_caches s1"
    by (simp add: gives_def pool_only_fields)
  then have "cached ?s d = (if d = ?c then xs else cached s d)" for d
    using xs(1) by simp
  note cache = cached_pfns_update [of ?s ?c xs s, OF this]
  have free: "free_in ?s p \<longleftrightarrow> free_in s p \<or> p \<in> pfn_of ` set fs" for p
    using g xs(1) by (simp add: gives_def)
  have both: "p \<in> pfn_of ` set xs \<or> p \<in> pfn_of ` set fs \<longleftrightarrow>
      p = pfn_of a \<or> p \<in> pfn_of ` set (cached s ?c)" for p
    using arg_cong [OF xs(2), of "\<lambda>A. p \<in> pfn_of ` A"] by (simp add: image_Un)
  have "p \<in> pool_frames ?s \<longleftrightarrow> p = pfn_of a \<or> p \<in> pool_frames s" for p
    unfolding pool_frames_def mem_Collect_eq
    using free [of p] both [of p] cache(1) [of p] cache(2) [of p] by argo
  then show ?thesis
    using assms(4) f by (simp add: pmm_free_page_def set_eq_iff)
qed

text \<open>The module as the loader leaves it: its static data zero, the initrd not yet reserved.\<close>

definition pmm_bss :: pmm where
  "pmm_bss = \<lparr>pmm_bitmap = (\<lambda>_. 0), pmm_bitmap_hint = 0,
     cpu_caches = (\<lambda>_. \<lparr>cache_pages = [], alloc_fast = 0, alloc_slow = 0\<rparr>),
     free_list0 = [], total_memory = 0, used_memory = 0, memory_start = 0, memory_end = 0,
     pmm_initrd_start = 0, pmm_initrd_end = 0,
     huge_pages_allocated = 0, huge_pages_freed = 0, huge_page_alloc_failures = 0\<rparr>"

definition pmm_boot :: "u64 \<Rightarrow> u64 \<Rightarrow> u64 \<Rightarrow> memory_map_entry list \<Rightarrow> pmm" where
  "pmm_boot initrd initrd_size kernel_end mmap =
     pmm_init kernel_end mmap (pmm_reserve_initrd initrd initrd_size pmm_bss)"

lemma fold_init_entry_fields [simp]:
  "cpu_caches (fold (pmm_init_entry k) mmap s) = cpu_caches s"
  "pmm_bitmap_hint (fold (pmm_init_entry k) mmap s) = pmm_bitmap_hint s"
  by (induction mmap arbitrary: s) simp_all

lemma boot_frames_cong:
  "pmm_initrd_start s' = pmm_initrd_start s \<Longrightarrow> pmm_initrd_end s' = pmm_initrd_end s \<Longrightarrow>
    boot_frames s' k mmap = boot_frames s k mmap"
  by (simp add: boot_frames_def usable_frame_cong [of s' s])

lemma free_in_boot:
  "free_in (pmm_boot i n k mmap) p \<longleftrightarrow> p \<in> boot_frames (pmm_reserve_initrd i n pmm_bss) k mmap"
proof -
  let ?s = "(pmm_reserve_initrd i n pmm_bss)\<lparr>free_list0 := [],
    cpu_caches := (\<lambda>c. if c < MAX_CPUS then \<lparr>cache_pages = [], alloc_fast = 0, alloc_slow = 0\<rparr>
      else cpu_caches (pmm_reserve_initrd i n pmm_bss) c)\<rparr>"
  have "pmm_bitmap ?s = (\<lambda>_. 0)"
    by (simp add: pmm_reserve_initrd_def pmm_bss_def)
  then have "\<not> free_in ?s p"
    by (simp add: bitmap_is_free_bit)
  moreover have "boot_frames ?s k mmap = boot_frames (pmm_reserve_initrd i n pmm_bss) k mmap"
    by (rule boot_frames_cong) simp_all
  ultimately show ?thesis
    unfolding pmm_boot_def pmm_init_def free_in_fold_init_entry by blast
qed

lemma boot_caches [simp]: "cached (pmm_boot i n k mmap) c = []"
  by (simp add: pmm_boot_def pmm_init_def pmm_reserve_initrd_def pmm_bss_def)

lemma boot_pool_inv: "pool_inv (pmm_boot i n k mmap)"
proof -
  have "256 \<le> p \<and> p < BITMAP_TOTAL_PAGES" if "p \<in> boot_frames s k mmap" for s p
  proof -
    have p: "p < BITMAP_TOTAL_PAGES"
      using that by (auto simp: boot_frames_def initial_max_pfn BITMAP_TOTAL_PAGES_def)
    have "\<not> addr_of_pfn p < 0x100000"
      using that by (auto simp: boot_frames_def usable_frame_def pmm_skip_page_def)
    then show ?thesis
      using p unat_addr_of_frame [OF p] by (simp add: word_less_nat_alt)
  qed
  moreover have "pmm_bitmap_hint (pmm_boot i n k mmap) < BITMAP_WORDS"
    by (simp add: pmm_boot_def pmm_init_def pmm_reserve_initrd_def pmm_bss_def BITMAP_WORDS_def
        BITMAP_TOTAL_PAGES_def)
  ultimately show ?thesis
    by (simp add: pool_inv_def free_in_boot)
qed

lemma boot_smp_start: "smp_start (sys (pmm_boot i n k mmap) (\<lambda>_. TIdle) [])"
  by (simp add: smp_start_def boot_pool_inv)

lemma boot_pmm_inv: "pmm_inv (pmm_boot i n k mmap)"
  unfolding pmm_inv_def by (rule smp_inv_start [OF boot_smp_start])

end
