(* ===== verification/Pmm_Properties.thy ===== *)
theory Pmm_Properties
  imports Pmm_Contract
begin

text \<open>
  The properties of the physical memory manager: exclusive ownership and exact accounting
  under every interleaving, the exact result of the single-page and the contiguous
  allocator, the round trip, what boot makes free, and the situations in which the code
  refuses memory it has or hands one frame out twice.
\<close>

section \<open>Accounting\<close>

definition balance :: "pmm \<Rightarrow> u64" where
  "balance s = used_memory s + of_nat (card (free_frames s)) * 4096"

lemma balance_cong:
  "pmm_bitmap s' = pmm_bitmap s \<Longrightarrow> used_memory s' = used_memory s \<Longrightarrow> balance s' = balance s"
  by (simp add: balance_def)

lemma set_cache_used [simp]: "used_memory (set_cache c xs s) = used_memory s"
  by (simp add: set_cache_def)

lemma balance_set_cache [simp]: "balance (set_cache c xs s) = balance s"
  by (rule balance_cong) simp_all

lemma gives_balance:
  assumes "gives fs s s'" and "pool_inv s" and "distinct fs" and "\<forall>a \<in> set fs. frame_ok a"
    and "\<forall>a \<in> set fs. \<not> free_in s (pfn_of a)"
  shows "balance s' = balance s"
proof -
  have "finite (free_frames s)"
    using pool_inv_bounded [OF assms(2)] finite_subset by blast
  moreover have "free_frames s \<inter> pfn_of ` set fs = {}"
    using assms(5) by auto
  moreover have "card (pfn_of ` set fs) = length fs"
    by (rule batch.card_pfns [OF assms(3,4)])
  ultimately have "card (free_frames s') = card (free_frames s) + length fs"
    by (simp add: givesD(1) [OF assms(1)] card_Un_disjoint)
  then show ?thesis
    by (simp add: balance_def givesD(2) [OF assms(1)] algebra_simps)
qed

lemma balance_batch:
  assumes "pool_inv s" and "pmm_alloc_batch_slow want s = (fs, s')"
  shows "balance s' = balance s"
  using batch.alloc_balance [OF assms] by (simp add: balance_def)

lemma balance_run:
  assumes "pool_inv s" and "2 \<le> count" and "pmm_alloc_pages cpu count s = (a, s')"
  shows "balance s' = balance s"
proof -
  have "count - 2 + 2 = count" using assms(2) by simp
  then have "\<exists>fs. contiguous_source cpu (count - 2) s = (fs, s')"
    using assms(3) by (simp only: contiguous_source_def split: prod.splits) auto
  then show ?thesis
    using contiguous.alloc_balance [OF assms(1)] by (auto simp: balance_def)
qed

lemma balance_release:
  assumes "smp_inv st" and "set fs \<subseteq> set (holds st l)" and "distinct fs"
  shows "balance (pmm_free_batch_slow fs (pm st)) = balance (pm st)"
proof -
  have "\<forall>a \<in> set fs. frame_ok a \<and> \<not> free_in (pm st) (pfn_of a)"
    using assms(2) smp_invD(6,7) [OF assms(1), of _ l] by blast
  then have "pfn_of ` set fs \<inter> free_frames (pm st) = {}" "\<forall>a \<in> set fs. frame_ok a"
    by auto
  with batch.release_balance [OF smp_invD(1) [OF assms(1)] assms(3)] show ?thesis
    by (simp add: balance_def)
qed

lemma balance_release_one:
  assumes "smp_inv st" and "f \<in> set (holds st l)"
  shows "balance (pmm_free_page_slow f (pm st)) = balance (pm st)"
  using balance_release [OF assms(1), of "[f]" l] assms(2) by simp

lemma balance_free_pages:
  assumes "pool_inv s" and "frame_ok base" and "2 \<le> count"
  shows "balance (pmm_free_pages rd cpu base count s) = balance s"
proof (cases "pmm_initrd_start s \<noteq> 0 \<and> base < pmm_initrd_end s \<and>
    pmm_initrd_start s < base + of_nat count * 4096")
  case True
  then show ?thesis by (simp add: pmm_free_pages_def)
next
  case False
  let ?ps = "releasable rd s (pfn_of base) count"
  have lo: "256 \<le> pfn_of base"
    using assms(2) by (auto simp: frame_ok_iff)
  have ps: "\<forall>p \<in> set ?ps. 256 \<le> p \<and> p < BITMAP_TOTAL_PAGES \<and> \<not> free_in s p" "distinct ?ps"
    using lo by (auto simp: releasable_def)
  have "distinct (map addr_of_pfn ?ps)"
    using ps by (auto simp: distinct_map intro!: inj_onI dest!: arg_cong [where f = pfn_of])
  with ps False assms show ?thesis
    by (intro gives_balance [OF free_pages_gives]) (auto intro!: frame_ok_addr)
qed

lemma smp_step_balance:
  assumes "smp_step st st'" and "smp_inv st"
  shows "balance (pm st') = balance (pm st)"
  using assms
proof (induction rule: smp_step.induct)
  case (alloc_hit st t cpu a s')
  then show ?case
    by (auto intro!: balance_cong simp: alloc_fast_section_def Let_def split: if_splits)
next
  case (alloc_miss st t cpu s')
  then show ?case
    by (auto intro!: balance_cong simp: alloc_fast_section_def Let_def split: if_splits)
next
  case (alloc_batch st t c fs s')
  then show ?case using balance_batch smp_invD(1) by simp
next
  case (refill_push st t c f fs)
  then show ?case by (simp add: refill_step_def)
next
  case (refill_return st t c f fs)
  then show ?case using balance_release_one [of st f "PThread t"] by simp
next
  case (alloc_last st t c a s')
  then show ?case by (auto simp: alloc_last_section_def split: if_splits)
next
  case (alloc_run st t count cpu a s')
  then show ?case using balance_run smp_invD(1) by simp
next
  case (free_cache st t c a fs s')
  then show ?case by (auto simp: free_cache_section_def Let_def split: if_splits)
next
  case (free_drain st t fs)
  then show ?case
    using balance_release [of st fs "PThread t"] smp_inv_separate(1) [of st t] by simp
next
  case (free_run st t count base rd cpu)
  then show ?case
    using balance_free_pages smp_invD(1) smp_invD(6) [of st base PClient] by simp
next
  case (reclaim_free st t f fs)
  then show ?case using balance_release_one [of st f "PThread t"] by simp
qed simp_all

section \<open>A concrete machine\<close>

text \<open>
  A small PC for the witnesses: 636 KB of low memory, the BIOS hole, 127 MB above 1 MB,
  a kernel that ends at 5 MB and a 4 MB initrd at 16 MB.
\<close>

definition pc_map :: "memory_map_entry list" where
  "pc_map = [\<lparr>mm_base = 0, mm_length = 0x9f000, mm_type = 1\<rparr>,
     \<lparr>mm_base = 0x9f000, mm_length = 0x61000, mm_type = 2\<rparr>,
     \<lparr>mm_base = 0x100000, mm_length = 0x7f00000, mm_type = 1\<rparr>]"

definition pc_pmm :: pmm where
  "pc_pmm = pmm_boot 0x1000000 0x400000 0x500000 pc_map"

lemma pc_pmm_inv: "pmm_inv pc_pmm" "pool_inv pc_pmm"
  by (simp_all add: pc_pmm_def boot_pmm_inv boot_pool_inv)

lemma pc_cached: "cached pc_pmm c = []"
  by (simp add: pc_pmm_def)

lemma pc_free: "free_in pc_pmm p \<longleftrightarrow> 1280 \<le> p \<and> p < 32768 \<and> \<not> (4096 \<le> p \<and> p < 5120)"
proof (cases "p < 262144")
  case True
  then have "unat (addr_of_pfn p) = p * 4096"
    by (simp add: unat_addr_of_frame BITMAP_TOTAL_PAGES_def)
  with True show ?thesis
    by (auto simp: pc_pmm_def pc_map_def free_in_boot boot_frames_def initial_max_pfn usable_frame_def
        pmm_skip_page_def pmm_reserve_initrd_def ALIGN_UP_PAGE_def ALIGN_DOWN_PAGE_def
        word_le_nat_alt word_less_nat_alt)
next
  case False
  then show ?thesis
    by (auto simp: pc_pmm_def free_in_boot boot_frames_def initial_max_pfn)
qed

lemma fold_init_entry_initrd [simp]:
  "pmm_initrd_start (fold (pmm_init_entry k) mmap s) = pmm_initrd_start s"
  "pmm_initrd_end (fold (pmm_init_entry k) mmap s) = pmm_initrd_end s"
  by (induction mmap arbitrary: s) simp_all

lemma pc_initrd: "pmm_initrd_start pc_pmm = 0x1000000" "pmm_initrd_end pc_pmm = 0x1400000"
  by (simp_all add: pc_pmm_def pmm_boot_def pmm_init_def pmm_reserve_initrd_def ALIGN_UP_PAGE_def)

lemma total_init_page [simp]: "total_memory (fold (pmm_init_page k) ps s) = total_memory s"
  by (induction ps arbitrary: s) (simp_all add: pmm_init_page_def pmm_add_page_locked_def Let_def)

lemma pc_scan_limit: "scan_limit pc_pmm = 32671"
  by (simp add: scan_limit_def pc_pmm_def pmm_boot_def pmm_init_def pc_map_def pmm_init_entry_def
      ALIGN_UP_PAGE_def ALIGN_DOWN_PAGE_def PMM_INITIAL_MAX_PHYS_def pmm_reserve_initrd_def
      pmm_bss_def BITMAP_TOTAL_PAGES_def)

text \<open>The same PC started without an initrd.\<close>

definition pc_bare :: pmm where
  "pc_bare = pmm_boot 0 0 0x500000 pc_map"

lemma pc_bare_free: "free_in pc_bare p \<longleftrightarrow> 1280 \<le> p \<and> p < 32768"
proof (cases "p < 262144")
  case True
  then have "unat (addr_of_pfn p) = p * 4096"
    by (simp add: unat_addr_of_frame BITMAP_TOTAL_PAGES_def)
  with True show ?thesis
    by (auto simp: pc_bare_def pc_map_def free_in_boot boot_frames_def initial_max_pfn usable_frame_def
        pmm_skip_page_def pmm_reserve_initrd_def ALIGN_UP_PAGE_def ALIGN_DOWN_PAGE_def
        word_le_nat_alt word_less_nat_alt)
next
  case False
  then show ?thesis
    by (auto simp: pc_bare_def free_in_boot boot_frames_def initial_max_pfn)
qed

lemma pc_bare_fields: "pmm_bitmap_hint pc_bare = 0" "pmm_initrd_start pc_bare = 0" "cached pc_bare c = []"
  by (simp_all add: pc_bare_def) (simp_all add: pmm_boot_def pmm_init_def pmm_reserve_initrd_def pmm_bss_def)

section \<open>Properties under every interleaving\<close>

text \<open>
  C1: in every state reachable from boot by any interleaving of the critical sections of
  allocations, frees and reclaims on any number of threads and CPUs, provided a thread frees
  only frames that have been handed out and not freed since, the frames handed out are distinct page-aligned frames above 1 MB, and none of them is free in the bitmap, in
  a CPU's cache or in the hands of a thread; caches hold distinct frames that are not free,
  never share one, and never exceed their 16 slots.
\<close>

theorem smp_frames_exclusive:
  assumes "smp_start st0" and "smp_reachable st0 st"
  shows "distinct (client st) \<and>
    (\<forall>a \<in> set (client st). frame_ok a \<and> \<not> free_in (pm st) (pfn_of a) \<and>
       (\<forall>c. a \<notin> set (cached (pm st) c)) \<and> (\<forall>t. a \<notin> set (carried (threads st t)))) \<and>
    (\<forall>c. distinct (cached (pm st) c) \<and> length (cached (pm st) c) \<le> PER_CPU_CACHE_SIZE \<and>
       (\<forall>a \<in> set (cached (pm st) c). frame_ok a \<and> \<not> free_in (pm st) (pfn_of a))) \<and>
    (\<forall>c d. c \<noteq> d \<longrightarrow> set (cached (pm st) c) \<inter> set (cached (pm st) d) = {})"
proof -
  have inv: "smp_inv st" by (rule smp_reachable_inv [OF assms(2,1)])
  note sep = smp_inv_separate [OF inv] and ok = smp_invD(6,7) [OF inv]
  have "set (cached (pm st) c) \<inter> set (cached (pm st) d) = {}" if "c \<noteq> d" for c d
    using smp_invD(5) [OF inv, of "PCache c" "PCache d"] that by simp
  moreover have "\<forall>a \<in> set (client st). frame_ok a \<and> \<not> free_in (pm st) (pfn_of a)"
    using ok [of _ PClient] by simp
  moreover have "\<forall>a \<in> set (cached (pm st) c). frame_ok a \<and> \<not> free_in (pm st) (pfn_of a)" for c
    using ok [of _ "PCache c"] by simp
  moreover have "a \<notin> set (cached (pm st) c) \<and> a \<notin> set (carried (threads st t))"
    if "a \<in> set (client st)" for a c t
    using sep(5) [of t] sep(6) [of c] that by blast
  ultimately show ?thesis
    using sep(2,3) smp_invD(3) [OF inv] by blast
qed

lemma smp_run_reachable: "smp_run st0 st \<Longrightarrow> smp_reachable st0 st"
  by (induction rule: rtranclp_induct) (auto intro: smp_reachable.intros)

text \<open>The PC after one allocation on CPU 0.\<close>

definition pc_after_alloc :: smp where
  "pc_after_alloc = (case pmm_alloc_page 0 pc_pmm of
     (a, s) \<Rightarrow> sys s (\<lambda>_. TIdle) (if a = 0 then [] else [] @ [a]))"

lemma pc_start: "smp_start (sys pc_pmm (\<lambda>_. TIdle) [])"
  unfolding pc_pmm_def by (rule boot_smp_start)

lemma pc_reaches: "smp_reachable (sys pc_pmm (\<lambda>_. TIdle) []) pc_after_alloc"
proof (cases "pmm_alloc_page 0 pc_pmm")
  case (Pair a s)
  have "smp_run (sys pc_pmm (\<lambda>_. TIdle) []) (sys s (\<lambda>_. TIdle) (if a = 0 then [] else [] @ [a]))"
    by (rule alloc_page_run [where t = 0 and cpu = 0])
      (simp_all add: Pair pc_pmm_inv(1) [unfolded pmm_inv_def])
  then show ?thesis
    by (simp add: pc_after_alloc_def Pair smp_run_reachable)
qed

theorem smp_frames_exclusive_witness:
  "smp_start (sys pc_pmm (\<lambda>_. TIdle) []) \<and> smp_reachable (sys pc_pmm (\<lambda>_. TIdle) []) pc_after_alloc \<and>
   distinct (client pc_after_alloc) \<and> (\<forall>c. distinct (cached (pm pc_after_alloc) c))"
  using smp_frames_exclusive [OF pc_start pc_reaches] pc_start pc_reaches by simp

text \<open>
  C2: every reachable state (threads freeing only frames that were handed out, as above)
  accounts for every frame exactly: used bytes plus 4096 for each
  frame that is free in the bitmap is, modulo 2^64, the same number as at boot. No
  interleaving loses or invents a byte; pages in caches and in transit count as used.
\<close>

theorem smp_accounting:
  assumes "smp_start st0" and "smp_reachable st0 st"
  shows "used_memory (pm st) + of_nat (card (free_frames (pm st))) * 4096 =
    used_memory (pm st0) + of_nat (card (free_frames (pm st0))) * 4096"
proof -
  from assms(2,1) have "balance (pm st) = balance (pm st0)"
    by (induction rule: smp_reachable.induct) (auto simp: smp_step_balance smp_reachable_inv)
  then show ?thesis by (simp add: balance_def)
qed

theorem smp_accounting_witness:
  "smp_start (sys pc_pmm (\<lambda>_. TIdle) []) \<and> smp_reachable (sys pc_pmm (\<lambda>_. TIdle) []) pc_after_alloc \<and>
   used_memory (pm pc_after_alloc) + of_nat (card (free_frames (pm pc_after_alloc))) * 4096 =
     used_memory pc_pmm + of_nat (card (free_frames pc_pmm)) * 4096"
  using smp_accounting [OF pc_start pc_reaches] pc_start pc_reaches by simp

section \<open>The allocators\<close>

text \<open>
  C3: the word-at-a-time search of the contiguous allocator (whole words skipped when full
  or empty, trailing-zero counts inside mixed words, a run carried across word borders)
  returns exactly what testing one frame after the other returns, from every starting
  state of the candidate run.
\<close>

theorem word_scan_refines_frame_scan:
  assumes "wi \<le> end_word"
  shows "scan_words bm count wi end_word rs rl =
    scan_frames bm count (wi * 64) (end_word * 64) rs rl"
  by (rule scan_words_eq_frames [OF assms])

theorem word_scan_refines_frame_scan_witness:
  "(0::nat) \<le> 2 \<and> scan_words (\<lambda>w. if w = 0 then 0xF000000000000000 else 0xFF) 10 0 2 0 0 =
     scan_frames (\<lambda>w. if w = 0 then 0xF000000000000000 else 0xFF) 10 (0 * 64) (2 * 64) 0 0"
  by (intro conjI word_scan_refines_frame_scan) simp_all

text \<open>
  C4: a request for two or more contiguous pages fails exactly when no run of that many
  free frames lies wholly at or above, or wholly below, the word the search starts from;
  it then changes nothing. When it succeeds, exactly the run's frames leave the free set,
  each was free, all are page-aligned and above 1 MB, used memory grows by their size and
  nothing but bitmap, hint and counter changes.
\<close>

theorem pmm_alloc_pages_exact:
  assumes "pool_inv s" and "2 \<le> count" and "pmm_alloc_pages cpu count s = (a, s')"
  shows "(a = 0 \<longleftrightarrow> (\<nexists>r. run_beside_hint (pmm_bitmap s) (pmm_bitmap_hint s) count r)) \<and>
    (a = 0 \<longrightarrow> s' = s) \<and>
    (a \<noteq> 0 \<longrightarrow> run_beside_hint (pmm_bitmap s) (pmm_bitmap_hint s) count (pfn_of a) \<and>
       takes (run_frames (pfn_of a) count) s s')"
proof (cases "find_run (pmm_bitmap s) (pmm_bitmap_hint s) count")
  case None
  with alloc_pages_null [OF assms(2) None] assms find_run_None [of count "pmm_bitmap_hint s"]
  show ?thesis by (simp add: pool_inv_def)
next
  case (Some r)
  note r = alloc_pages_takes(1,2) [OF assms(1,2) Some, of cpu] alloc_pages_takes(3,4) [OF assms(1,2) Some]
  have "r < BITMAP_TOTAL_PAGES" using r(4) assms(2) by simp
  with r(3) have ok: "frame_ok (addr_of_pfn r)" by (rule frame_ok_addr)
  have "run_beside_hint (pmm_bitmap s) (pmm_bitmap_hint s) count r"
    by (rule find_run_Some [OF Some]) (use assms in \<open>auto simp: pool_inv_def\<close>)
  with r(1,2) assms(3) frame_ok_nonzero [OF ok] pfn_of_addr_of_frame [OF \<open>r < BITMAP_TOTAL_PAGES\<close>]
  show ?thesis by auto
qed

lemma pc_hint: "pmm_bitmap_hint pc_pmm = 0"
  by (simp add: pc_pmm_def pmm_boot_def pmm_init_def pmm_reserve_initrd_def pmm_bss_def)

theorem pmm_alloc_pages_exact_witness:
  "pool_inv pc_pmm \<and> (2::nat) \<le> 512 \<and> fst (pmm_alloc_pages 0 512 pc_pmm) \<noteq> 0"
proof -
  have "run_at (pmm_bitmap pc_pmm) 2000 512"
    by (simp add: run_at_def pc_free)
  then have "run_beside_hint (pmm_bitmap pc_pmm) (pmm_bitmap_hint pc_pmm) 512 2000"
    by (simp add: run_beside_hint_def pc_hint BITMAP_TOTAL_PAGES_def)
  then show ?thesis
    using pmm_alloc_pages_exact [OF pc_pmm_inv(2) _ surjective_pairing, of 512 0] pc_pmm_inv(2)
    by auto
qed

text \<open>
  C5: a single-page allocation fails exactly when this CPU's cache is empty and no frame
  below the scan limit is free. When it succeeds it returns a page-aligned frame above
  1 MB that the module held, and that frame is the only one it stops holding. The
  module's invariant survives either way.
\<close>

theorem pmm_alloc_page_correct:
  assumes "pmm_inv s" and "pmm_alloc_page cpu s = (a, s')"
  shows "pmm_inv s' \<and>
    (a = 0 \<longleftrightarrow> cached s (this_cpu cpu) = [] \<and> (\<forall>p < scan_limit s. \<not> free_in s p)) \<and>
    (a \<noteq> 0 \<longrightarrow> frame_ok a \<and> pfn_of a \<in> pool_frames s \<and>
       pool_frames s' = pool_frames s - {pfn_of a})"
proof -
  have "a = 0 \<longleftrightarrow> cached s (this_cpu cpu) = [] \<and> (\<forall>p < scan_limit s. \<not> free_in s p)"
    by (rule alloc_page_null_iff [OF assms])
  then show ?thesis
    using alloc_page_inv [OF assms] alloc_page_pool [OF assms] by blast
qed

theorem pmm_alloc_page_correct_witness:
  "pmm_inv pc_pmm \<and> fst (pmm_alloc_page 3 pc_pmm) \<noteq> 0 \<and>
   pfn_of (fst (pmm_alloc_page 3 pc_pmm)) \<in> pool_frames pc_pmm"
proof -
  have "\<not> (\<forall>p < scan_limit pc_pmm. \<not> free_in pc_pmm p)"
    unfolding pc_scan_limit not_all by (rule exI [of _ 2000]) (simp add: pc_free)
  then show ?thesis
    using pmm_alloc_page_correct [OF pc_pmm_inv(1) surjective_pairing, of 3] pc_pmm_inv(1) by blast
qed

text \<open>
  C6: \<^verbatim>\<open>pmm_free_page\<close>, for every address a caller may pass. A null, unaligned or low address,
  one outside the bitmap, one whose frame is already free in the bitmap or already in this
  CPU's cache, one inside the initrd and one that still looks like a slab header are refused:
  nothing changes. Any other frame that the module does not hold is given back exactly,
  whether the cache had room or half of it had to be drained first, and the invariant is
  kept. (The one case left out, a frame in the cache of another CPU, is the double free
  across CPUs proved below.)
\<close>

theorem pmm_free_page_correct:
  assumes "pmm_inv s"
  shows "(a = 0 \<or> a AND 0xFFF \<noteq> 0 \<or> a < 0x100000 \<or> BITMAP_TOTAL_PAGES \<le> pfn_of a \<or> pfn_of a \<in> free_frames s \<or>
      a \<in> set (cached s (this_cpu cpu)) \<or> pmm_initrd_start s \<noteq> 0 \<and> a \<in> {pmm_initrd_start s ..< pmm_initrd_end s} \<or>
      rd a = SLAB_MAGIC \<longrightarrow> pmm_free_page rd cpu a s = s) \<and>
    (a AND 0xFFF = 0 \<and> 0x100000 \<le> a \<and> pfn_of a < BITMAP_TOTAL_PAGES \<and> pfn_of a \<notin> pool_frames s \<and>
      (pmm_initrd_start s = 0 \<or> a \<notin> {pmm_initrd_start s ..< pmm_initrd_end s}) \<and> rd a \<noteq> SLAB_MAGIC \<longrightarrow>
      pmm_inv (pmm_free_page rd cpu a s) \<and> pool_frames (pmm_free_page rd cpu a s) = insert (pfn_of a) (pool_frames s))"
proof (intro conjI impI)
  assume "a = 0 \<or> a AND 0xFFF \<noteq> 0 \<or> a < 0x100000 \<or> BITMAP_TOTAL_PAGES \<le> pfn_of a \<or> pfn_of a \<in> free_frames s \<or>
    a \<in> set (cached s (this_cpu cpu)) \<or> pmm_initrd_start s \<noteq> 0 \<and> a \<in> {pmm_initrd_start s ..< pmm_initrd_end s} \<or> rd a = SLAB_MAGIC"
  then have "\<not> pmm_free_guard rd a s \<or> a \<in> set (cached s (this_cpu cpu))" by (auto simp: pmm_free_guard_def)
  then show "pmm_free_page rd cpu a s = s" by (auto simp: pmm_free_page_def free_cache_section_def)
next
  assume *: "a AND 0xFFF = 0 \<and> 0x100000 \<le> a \<and> pfn_of a < BITMAP_TOTAL_PAGES \<and> pfn_of a \<notin> pool_frames s \<and>
    (pmm_initrd_start s = 0 \<or> a \<notin> {pmm_initrd_start s ..< pmm_initrd_end s}) \<and> rd a \<noteq> SLAB_MAGIC"
  then have f: "frame_ok a" "pfn_of a \<notin> pool_frames s" by (auto simp: frame_ok_def)
  have "pmm_free_guard rd a s" using * by (auto simp: pmm_free_guard_def pool_frames_def not_less)
  then show "pool_frames (pmm_free_page rd cpu a s) = insert (pfn_of a) (pool_frames s)" by (rule free_page_pool [OF assms f])
  show "pmm_inv (pmm_free_page rd cpu a s)" by (rule free_page_inv [OF assms f])
qed

theorem pmm_free_page_correct_witness:
  "pmm_inv pc_pmm \<and> pfn_of 0x200000 \<notin> pool_frames pc_pmm \<and>
   pool_frames (pmm_free_page (\<lambda>_. 0) 0 0x200000 pc_pmm) = insert 512 (pool_frames pc_pmm) \<and>
   pmm_free_page (\<lambda>_. 0) 0 0x200008 pc_pmm = pc_pmm"
proof -
  have f: "pfn_of 0x200000 = 512" "(512 :: nat) < BITMAP_TOTAL_PAGES" "(0 :: u64) \<noteq> SLAB_MAGIC"
    by (simp_all add: pfn_of_def BITMAP_TOTAL_PAGES_def SLAB_MAGIC_def)
  have n: "512 \<notin> pool_frames pc_pmm"
    by (simp add: pool_frames_def in_cache_def pc_free pc_cached)
  show ?thesis
    using pmm_free_page_correct [OF pc_pmm_inv(1), of "0x200000" 0 "\<lambda>_. 0"]
      pmm_free_page_correct [OF pc_pmm_inv(1), of "0x200008" 0 "\<lambda>_. 0"] f n pc_pmm_inv(1)
    by (simp add: pc_initrd)
qed

text \<open>
  C7: allocating contiguous pages and freeing them again restores the bitmap and the
  used-memory counter exactly, provided the run does not meet the initrd and no page's
  first word holds the slab magic when it is freed.
\<close>

theorem pmm_alloc_free_pages_roundtrip:
  assumes "pool_inv s" and "2 \<le> count" and "pmm_alloc_pages cpu count s = (a, s')" and "a \<noteq> 0"
    and "pmm_initrd_start s = 0 \<or> pmm_initrd_end s \<le> a \<or> a + of_nat count * 4096 \<le> pmm_initrd_start s"
    and "\<forall>b \<in> set (run_frames (pfn_of a) count). rd b \<noteq> SLAB_MAGIC"
  shows "pmm_bitmap (pmm_free_pages rd cpu' a count s') = pmm_bitmap s \<and>
    used_memory (pmm_free_pages rd cpu' a count s') = used_memory s"
proof (cases "find_run (pmm_bitmap s) (pmm_bitmap_hint s) count")
  case None
  with alloc_pages_null [OF assms(2) None] assms(3,4) show ?thesis by simp
next
  case (Some r)
  note r = alloc_pages_takes(1,2) [OF assms(1,2) Some, of cpu] alloc_pages_takes(3,4) [OF assms(1,2) Some]
  let ?fs = "run_frames r count"
  have a: "a = addr_of_pfn r" "takes ?fs s s'" "r < BITMAP_TOTAL_PAGES" "pfn_of a = r"
    using r assms(2,3) by simp_all
  have rel: "releasable rd s' r count = [r ..< r + count]"
  proof (unfold releasable_def, intro filter_True ballI)
    fix p assume "p \<in> set [r ..< r + count]"
    moreover from this r(4) have "p \<in> pfn_of ` set ?fs" by (simp add: pfns_run_frames)
    ultimately show "p < BITMAP_TOTAL_PAGES \<and> rd (addr_of_pfn p) \<noteq> SLAB_MAGIC \<and> \<not> free_in s' p"
      using r(4) a assms(6) by (auto simp: takes_def run_frames_def)
  qed
  have "gives ?fs s' (pmm_free_pages rd cpu' a count s')"
  proof -
    have "pmm_initrd_start s' = pmm_initrd_start s" "pmm_initrd_end s' = pmm_initrd_end s"
      using a(2) by (simp_all add: takes_def pool_only_fields)
    then show ?thesis
      using free_pages_gives [OF takes_inv [OF a(2)], of a count rd cpu'] assms(2,5) a rel r(3)
        frame_ok_addr [OF r(3) a(3)]
      by (auto simp: run_frames_def not_less)
  qed
  then show ?thesis
    using a(2) by (auto simp: bitmap_eq_iff gives_def takes_def)
qed

theorem pmm_alloc_free_pages_roundtrip_witness:
  "pool_inv pc_bare \<and> fst (pmm_alloc_pages 0 8 pc_bare) \<noteq> 0 \<and> pmm_initrd_start pc_bare = 0 \<and>
   pmm_bitmap (pmm_free_pages (\<lambda>_. 0) 1 (fst (pmm_alloc_pages 0 8 pc_bare)) 8 (snd (pmm_alloc_pages 0 8 pc_bare)))
     = pmm_bitmap pc_bare"
proof -
  have "find_run (pmm_bitmap pc_bare) (pmm_bitmap_hint pc_bare) 8 \<noteq> None"
  proof -
    have "run_beside_hint (pmm_bitmap pc_bare) (pmm_bitmap_hint pc_bare) 8 2000"
      by (simp add: run_beside_hint_def run_at_def pc_bare_free pc_bare_fields BITMAP_TOTAL_PAGES_def)
    then show ?thesis
      using find_run_None [of 8 "pmm_bitmap_hint pc_bare"] by (auto simp: pc_bare_fields)
  qed
  then obtain r where r: "find_run (pmm_bitmap pc_bare) (pmm_bitmap_hint pc_bare) 8 = Some r" by blast
  have inv: "pool_inv pc_bare" by (simp add: pc_bare_def boot_pool_inv)
  have nz: "fst (pmm_alloc_pages 0 8 pc_bare) \<noteq> 0"
    using alloc_pages_takes(2-4) [OF inv _ r] frame_ok_nonzero frame_ok_addr [of r] by auto
  show ?thesis
    using pmm_alloc_free_pages_roundtrip [OF inv _ surjective_pairing nz, of "\<lambda>_. 0" 1] nz inv
    by (simp add: pc_bare_fields SLAB_MAGIC_def)
qed

text \<open>
  C8: boot hands the allocator exactly the right frames: a frame is free afterwards if and
  only if it lies below 1 GB, wholly inside a usable region of the memory map, at or above
  1 MB, above the kernel image and outside the initrd; and the state boot leaves satisfies
  the starting condition of the concurrent model.
\<close>

theorem pmm_init_exact:
  "free_frames (pmm_boot initrd initrd_size kernel_end mmap) =
     {p. p < pfn_of PMM_INITIAL_MAX_PHYS \<and>
         (\<exists>e \<in> set mmap. mm_type e = 1 \<and> ALIGN_UP_PAGE (mm_base e) \<le> addr_of_pfn p \<and>
            addr_of_pfn p < ALIGN_DOWN_PAGE (mm_base e + mm_length e)) \<and>
         0x100000 \<le> addr_of_pfn p \<and> ALIGN_UP_PAGE kernel_end \<le> addr_of_pfn p \<and>
         \<not> (initrd \<noteq> 0 \<and> initrd \<le> addr_of_pfn p \<and>
            addr_of_pfn p < ALIGN_UP_PAGE (initrd + initrd_size))} \<and>
   smp_start (sys (pmm_boot initrd initrd_size kernel_end mmap) (\<lambda>_. TIdle) [])"
  using boot_smp_start
  by (auto simp: free_in_boot boot_frames_def usable_frame_def pmm_skip_page_def pmm_reserve_initrd_def)

section \<open>Memory the code has but does not give, and frames it gives twice\<close>

text \<open>
  C9: the scan of the single-page paths stops at total memory divided by the page size, a
  count of frames, and compares it with frame numbers. So no single-page allocation, on any
  CPU and in any state, takes a frame at or above that count from the bitmap: the frames up
  there stay as free as they were, and if such a frame is returned or left in a cache, it
  was in that cache before (freed there page by page after a contiguous allocation, which
  has no such limit). On a PC whose only hole is the one below 1 MB, 97 usable frames are
  out of reach in this way.
\<close>

theorem single_page_limit:
  assumes "pmm_inv s" and "unat (total_memory s div 4096) = limit" and "0 < limit"
    and "pmm_alloc_page cpu s = (a, s')"
  shows "(\<forall>p \<ge> limit. p \<in> free_frames s' \<longleftrightarrow> p \<in> free_frames s) \<and>
    (a \<noteq> 0 \<and> limit \<le> pfn_of a \<longrightarrow> a \<in> set (cached s (this_cpu cpu))) \<and>
    (\<forall>c. \<forall>b \<in> set (cached s' c). limit \<le> pfn_of b \<longrightarrow> b \<in> set (cached s c))"
proof -
  have lim: "scan_limit s \<le> limit" using assms(2,3) by (auto simp: scan_limit_def Let_def)
  show ?thesis
  proof (cases "cached s (this_cpu cpu) = []")
    case True
    obtain fs s1 s2 where m: "takes fs s1 s2" "pmm_bitmap s1 = pmm_bitmap s" "pmm_bitmap s' = pmm_bitmap s2"
        "a = (if fs = [] then 0 else last fs)" "\<And>d. cached s' d = (if d = this_cpu cpu then butlast fs else cached s d)"
        "\<forall>b \<in> set fs. pfn_of b < scan_limit s"
      by (rule alloc_page_miss [OF assms(4) True pmm_invD(1) [OF assms(1)]]) (rule that)
    have below: "\<not> limit \<le> pfn_of b" if "b \<in> set fs" for b using m(6) lim that by fastforce
    have "free_frames s' = free_frames s - pfn_of ` set fs"
      using takesD(2) [OF m(1)] m(2,3) by simp
    then show ?thesis using m(4,5) True below by (fastforce dest: in_set_butlastD split: if_splits)
  next
    case False
    note h = alloc_page_hit [OF assms(4) False]
    have "a \<in> set (cached s (this_cpu cpu))" using h(1) by (metis in_set_conv_decomp)
    then show ?thesis using h(2,4) by (auto dest: in_set_butlastD)
  qed
qed

theorem single_page_limit_witness:
  "pmm_inv pc_pmm \<and> unat (total_memory pc_pmm div 4096) = 32671 \<and> {32671 ..< 32768} \<subseteq> free_frames pc_pmm \<and>
   {32671 ..< 32768} \<subseteq> free_frames (snd (pmm_alloc_page 0 pc_pmm)) \<and> pfn_of (fst (pmm_alloc_page 0 pc_pmm)) < 32671"
proof -
  have lim: "unat (total_memory pc_pmm div 4096) = 32671"
    using pc_scan_limit by (auto simp: scan_limit_def Let_def BITMAP_TOTAL_PAGES_def split: if_splits)
  have free: "{32671 ..< 32768} \<subseteq> free_frames pc_pmm" by (auto simp: pc_free)
  have "pfn_of 0 = 0" by (simp add: pfn_of_def)
  then show ?thesis
    using single_page_limit [OF pc_pmm_inv(1) lim _ surjective_pairing, of 0] pc_pmm_inv(1) lim free
    by (cases "fst (pmm_alloc_page 0 pc_pmm) = 0") (auto simp: pc_cached not_less)
qed

text \<open>
  C10: the contiguous search examines the words from the hint up and then those below it as
  two separate passes, so a free run across the hint is invisible to it: with exactly
  \<open>count\<close> contiguous frames free and the hint word starting inside them, the request for
  \<open>count\<close> pages returns NULL.
\<close>

theorem run_across_hint_missed:
  assumes "pool_inv s" and "2 \<le> count" and "free_frames s = {start ..< start + count}"
    and "start < pmm_bitmap_hint s * 64" and "pmm_bitmap_hint s * 64 < start + count"
  shows "pmm_alloc_pages cpu count s = (0, s)"
proof -
  have free: "free_in s p \<longleftrightarrow> start \<le> p \<and> p < start + count" for p
    using assms(3) by auto
  have "\<not> run_beside_hint (pmm_bitmap s) (pmm_bitmap_hint s) count r" for r
  proof
    assume r: "run_beside_hint (pmm_bitmap s) (pmm_bitmap_hint s) count r"
    then have run: "free_in s (r + i)" if "i < count" for i
      using that by (simp add: run_beside_hint_def run_at_def)
    from run [of 0] run [of "count - 1"] assms(2) have "r = start" by (auto simp: free)
    with r assms(4,5) show False by (auto simp: run_beside_hint_def)
  qed
  then have "find_run (pmm_bitmap s) (pmm_bitmap_hint s) count = None"
    using find_run_None [of count "pmm_bitmap_hint s"] assms(1,2) by (simp add: pool_inv_def)
  then show ?thesis by (rule alloc_pages_null [OF assms(2)])
qed

text \<open>Frames 316 to 323 free, the search starting at frame 320.\<close>

definition across_hint :: pmm where
  "across_hint = pmm_bss\<lparr>pmm_bitmap := (\<lambda>w. if w = 4 then push_bit 60 (mask 4) else if w = 5 then mask 4 else 0),
     pmm_bitmap_hint := 5\<rparr>"

lemma across_hint_free: "free_in across_hint p \<longleftrightarrow> 316 \<le> p \<and> p < 324"
proof -
  have "free_in across_hint p \<longleftrightarrow> p div 64 = 4 \<and> 60 \<le> p mod 64 \<or> p div 64 = 5 \<and> p mod 64 < 4"
    by (auto simp: across_hint_def bitmap_is_free_bit bit_simps)
  moreover obtain q r where qr: "p = q * 64 + r" "r < 64"
    by (metis div_mult_mod_eq mod_less_divisor zero_less_numeral)
  then have "p div 64 = q" "p mod 64 = r" by simp_all
  ultimately have "free_in across_hint p \<longleftrightarrow> q = 4 \<and> 60 \<le> r \<or> q = 5 \<and> r < 4" by simp
  moreover have "q < 4 \<or> q = 4 \<or> q = 5 \<or> 6 \<le> q" by arith
  ultimately show ?thesis unfolding qr(1) using qr(2) by (elim disjE) auto
qed

theorem run_across_hint_missed_witness:
  "pool_inv across_hint \<and> (2::nat) \<le> 8 \<and> free_frames across_hint = {316 ..< 316 + 8} \<and>
   pmm_alloc_pages 0 8 across_hint = (0, across_hint)"
proof -
  have inv: "pool_inv across_hint"
    by (auto simp: pool_inv_def across_hint_free BITMAP_TOTAL_PAGES_def)
      (simp add: across_hint_def BITMAP_WORDS_def BITMAP_TOTAL_PAGES_def)
  have free: "free_frames across_hint = {316 ..< 316 + 8}"
    by (auto simp: across_hint_free)
  show ?thesis
    using run_across_hint_missed [OF inv _ free, of 0] inv free by (simp add: across_hint_def)
qed

lemma huge_aligned:
  assumes "p < BITMAP_TOTAL_PAGES"
  shows "addr_of_pfn p AND (HUGE_PAGE_SIZE - 1) = 0 \<longleftrightarrow> p mod 512 = 0"
proof -
  have "addr_of_pfn p AND (HUGE_PAGE_SIZE - 1) = take_bit 21 (addr_of_pfn p)"
    by (simp add: HUGE_PAGE_SIZE_def take_bit_eq_mask mask_eq_exp_minus_1)
  moreover have "unat (take_bit 21 (addr_of_pfn p)) = p * 4096 mod 2097152"
    by (simp add: unsigned_take_bit_eq unat_addr_of_frame [OF assms]) (simp add: take_bit_eq_mod)
  moreover have "p * 4096 mod 2097152 = p mod 512 * 4096"
    using mod_mult_mult2 [of p 4096 512] by simp
  ultimately show ?thesis
    by (simp flip: unat_eq_0)
qed

text \<open>
  C11: the huge-page allocator is decided by the first run of 512 free frames at or above
  the hint. If that run begins on a 2 MB boundary it is the result; if it does not, the
  result is NULL, however many aligned runs lie above it or inside the same free interval.
\<close>

theorem huge_page_first_run:
  assumes "pool_inv s" and "pmm_bitmap_hint s * 64 \<le> lo" and "{lo ..< lo + 512} \<subseteq> free_frames s"
    and "\<forall>p. pmm_bitmap_hint s * 64 \<le> p \<and> p < lo \<longrightarrow> \<not> {p ..< p + 512} \<subseteq> free_frames s"
  shows "fst (pmm_alloc_huge_page rd cpu s) = (if lo mod 512 = 0 then addr_of_pfn lo else 0)"
proof -
  have run_at: "run_at (pmm_bitmap s) p 512 \<longleftrightarrow> {p ..< p + 512} \<subseteq> free_frames s" for p
  proof
    assume run: "run_at (pmm_bitmap s) p 512"
    have "free_in s q" if "p \<le> q" "q < p + 512" for q using run [unfolded run_at_def, rule_format, of "q - p"] that by simp
    then show "{p ..< p + 512} \<subseteq> free_frames s" by auto
  qed (auto simp: run_at_def subset_iff)
  have hi: "lo + 512 \<le> BITMAP_TOTAL_PAGES"
    using pool_inv_free [OF assms(1), of "lo + 511"] assms(3) by (auto simp: subset_iff)
  have hint: "pmm_bitmap_hint s \<le> BITMAP_WORDS" using assms(1) by (simp add: pool_inv_def)
  obtain r where r: "scan_words (pmm_bitmap s) 512 (pmm_bitmap_hint s) BITMAP_WORDS 0 0 = Found r"
  proof (cases "scan_words (pmm_bitmap s) 512 (pmm_bitmap_hint s) BITMAP_WORDS 0 0")
    case (Scanning x y)
    from scan_words_Scanning [OF this _ hint] assms(2,3) hi run_at show ?thesis by (auto simp: BITMAP_WORDS_64)
  qed (use that in blast)
  note f = scan_words_Found [OF r _ hint]
  have "lo \<le> r" using f(1,3) assms(4) run_at by (meson not_le zero_less_numeral)
  moreover have "r \<le> lo" using f(4) assms(2,3) run_at by (meson not_less zero_less_numeral)
  ultimately have "r = lo" by simp
  then have run: "find_run (pmm_bitmap s) (pmm_bitmap_hint s) PAGES_PER_HUGE_PAGE = Some lo"
    using r by (simp add: find_run_def PAGES_PER_HUGE_PAGE_def)
  note a = alloc_pages_takes(2) [OF assms(1) _ run, of cpu] alloc_pages_takes(3) [OF assms(1) _ run]
  have al: "addr_of_pfn lo AND (HUGE_PAGE_SIZE - 1) = 0 \<longleftrightarrow> lo mod 512 = 0"
    using hi by (intro huge_aligned) simp
  have "addr_of_pfn lo \<noteq> 0"
    using frame_ok_addr [of lo] a(2) hi by (auto simp: frame_ok_def PAGES_PER_HUGE_PAGE_def)
  then show ?thesis
    using a(1) al by (cases "pmm_alloc_pages cpu PAGES_PER_HUGE_PAGE s")
      (simp add: pmm_alloc_huge_page_def Let_def PAGES_PER_HUGE_PAGE_def)
qed

theorem huge_page_first_run_witness:
  "pool_inv pc_bare \<and> {1280 ..< 1280 + 512} \<subseteq> free_frames pc_bare \<and>
   {1536 ..< 1536 + 512} \<subseteq> free_frames pc_bare \<and> addr_of_pfn 1536 AND (HUGE_PAGE_SIZE - 1) = 0 \<and>
   fst (pmm_alloc_huge_page (\<lambda>_. 0) 0 pc_bare) = 0"
proof -
  have inv: "pool_inv pc_bare" by (simp add: pc_bare_def boot_pool_inv)
  have free: "{1280 ..< 1280 + 512} \<subseteq> free_frames pc_bare" "{1536 ..< 1536 + 512} \<subseteq> free_frames pc_bare" by (auto simp: pc_bare_free)
  have first: "\<forall>p. pmm_bitmap_hint pc_bare * 64 \<le> p \<and> p < 1280 \<longrightarrow> \<not> {p ..< p + 512} \<subseteq> free_frames pc_bare"
    by (auto simp: subset_iff pc_bare_free intro!: exI)
  show ?thesis
    using huge_page_first_run [OF inv _ free(1) first, of "\<lambda>_. 0" 0] inv free
    by (simp add: pc_bare_fields addr_of_pfn_def HUGE_PAGE_SIZE_def)
qed

text \<open>
  C12: the double-free guard looks at the bitmap and at the cache of the freeing CPU only.
  A page freed on CPU 0 and then again on CPU 1, both caches having room, is accepted twice
  and the next allocation on each of the two CPUs returns it: one frame, two owners.
\<close>

theorem double_free_across_cpus:
  assumes "pmm_free_guard rd a s"
    and "length (cached s 0) < PER_CPU_CACHE_SIZE" and "length (cached s 1) < PER_CPU_CACHE_SIZE"
    and "a \<notin> set (cached s 0)" and "a \<notin> set (cached s 1)"
  shows "let s2 = pmm_free_page rd 1 a (pmm_free_page rd 0 a s)
         in fst (pmm_alloc_page 0 s2) = a \<and> fst (pmm_alloc_page 1 (snd (pmm_alloc_page 0 s2))) = a"
proof -
  let ?s1 = "set_cache 0 (cached s 0 @ [a]) s" and ?s2 = "set_cache 1 (cached s 1 @ [a]) (set_cache 0 (cached s 0 @ [a]) s)"
  have cpu: "this_cpu 0 = 0" "this_cpu 1 = 1" by (simp_all add: this_cpu_def MAX_CPUS_def)
  have s1: "pmm_free_page rd 0 a s = ?s1"
    using assms cpu by (simp add: pmm_free_page_def free_cache_section_def)
  have g: "pmm_free_guard rd a ?s1"
    using assms(1) by (simp add: pmm_free_guard_def set_cache_def)
  have s2: "pmm_free_page rd 1 a ?s1 = ?s2"
    using assms cpu g by (simp add: pmm_free_page_def free_cache_section_def)
  have hit: "fst (pmm_alloc_page c s) = last (cached s c) \<and>
      cached (snd (pmm_alloc_page c s)) d = (if d = c then butlast (cached s c) else cached s d)"
    if "this_cpu c = c" "cached s c \<noteq> []" for c d s
    using that by (simp add: pmm_alloc_page_def alloc_fast_section_def Let_def)
  have "fst (pmm_alloc_page 0 ?s2) = a" "cached (snd (pmm_alloc_page 0 ?s2)) 1 = cached s 1 @ [a]"
    using hit [of 0 ?s2 1] cpu by simp_all
  with hit [of 1 "snd (pmm_alloc_page 0 ?s2)"] cpu show ?thesis
    unfolding s1 s2 by (simp add: Let_def)
qed

theorem double_free_across_cpus_witness:
  "pmm_free_guard (\<lambda>_. 0) 0x200000 pc_pmm \<and>
   fst (pmm_alloc_page 0 (pmm_free_page (\<lambda>_. 0) 1 0x200000 (pmm_free_page (\<lambda>_. 0) 0 0x200000 pc_pmm))) = 0x200000"
proof -
  have g: "pmm_free_guard (\<lambda>_. 0) 0x200000 pc_pmm"
    by (simp add: pmm_free_guard_def pfn_of_def pc_free pc_initrd BITMAP_TOTAL_PAGES_def SLAB_MAGIC_def)
  show ?thesis
    using double_free_across_cpus [OF g] g
    by (simp add: pc_cached PER_CPU_CACHE_SIZE_def Let_def)
qed

end
