(* ===== verification/Seccomp_Bpf.thy ===== *)
theory Seccomp_Bpf
  imports Kernel_Prelude
begin

unbundle bit_operations_syntax

text \<open>
  The packet-filter machine of \<^verbatim>\<open>kernel/security/seccomp/filter.c\<close>: instructions, the
  validator and the interpreter. The input \<^verbatim>\<open>struct seccomp_data\<close> is its little-endian byte
  image (64 bytes), so that a load at any offset is defined, and a load outside the object
  is the explicit outcome \<open>None\<close>. Program counters are natural numbers: the code's 32-bit
  counter cannot wrap because programs are at most 4096 instructions long and a step adds
  at most 256.

  The main results: the validator accepts exactly the programs whose loads pass its bound
  test, whose jumps stay inside and whose last instruction returns; an accepted program
  with no wrapped offset never reads outside its input and returns the value of one of its
  RET instructions within as many steps as it has instructions.
\<close>

section \<open>Constants and data\<close>

definition SECCOMP_RET_KILL :: u32 where "SECCOMP_RET_KILL = 0"
definition SECCOMP_RET_TRAP :: u32 where "SECCOMP_RET_TRAP = 0x00030000"
definition SECCOMP_RET_ERRNO :: u32 where "SECCOMP_RET_ERRNO = 0x00050000"
definition SECCOMP_RET_TRACE :: u32 where "SECCOMP_RET_TRACE = 0x7ff00000"
definition SECCOMP_RET_LOG :: u32 where "SECCOMP_RET_LOG = 0x7ffc0000"
definition SECCOMP_RET_ALLOW :: u32 where "SECCOMP_RET_ALLOW = 0x7fff0000"
definition SECCOMP_RET_ACTION_MASK :: u32 where "SECCOMP_RET_ACTION_MASK = 0xffff0000"
definition SECCOMP_RET_DATA_MASK :: u32 where "SECCOMP_RET_DATA_MASK = 0x0000ffff"

definition BPF_CLASS_MASK :: u16 where "BPF_CLASS_MASK = 0x07"
definition BPF_LD :: u16 where "BPF_LD = 0x00"
definition BPF_JMP :: u16 where "BPF_JMP = 0x05"
definition BPF_RET :: u16 where "BPF_RET = 0x06"
definition BPF_SIZE_MASK :: u16 where "BPF_SIZE_MASK = 0x18"
definition BPF_W :: u16 where "BPF_W = 0x00"
definition BPF_H :: u16 where "BPF_H = 0x08"
definition BPF_B :: u16 where "BPF_B = 0x10"
definition BPF_MODE_MASK :: u16 where "BPF_MODE_MASK = 0xe0"
definition BPF_ABS :: u16 where "BPF_ABS = 0x20"
definition BPF_IMM :: u16 where "BPF_IMM = 0x00"
definition BPF_OP_MASK :: u16 where "BPF_OP_MASK = 0xf0"
definition BPF_JEQ :: u16 where "BPF_JEQ = 0x10"
definition BPF_JGT :: u16 where "BPF_JGT = 0x20"
definition BPF_JGE :: u16 where "BPF_JGE = 0x30"
definition BPF_JSET :: u16 where "BPF_JSET = 0x40"
definition BPF_SRC_MASK :: u16 where "BPF_SRC_MASK = 0x08"
definition BPF_K :: u16 where "BPF_K = 0x00"

lemmas bpf_consts [bpf_simps] =
  SECCOMP_RET_KILL_def SECCOMP_RET_TRAP_def SECCOMP_RET_ERRNO_def SECCOMP_RET_TRACE_def
  SECCOMP_RET_LOG_def SECCOMP_RET_ALLOW_def SECCOMP_RET_ACTION_MASK_def SECCOMP_RET_DATA_MASK_def
  BPF_CLASS_MASK_def BPF_LD_def BPF_JMP_def BPF_RET_def BPF_SIZE_MASK_def BPF_W_def BPF_H_def
  BPF_B_def BPF_MODE_MASK_def BPF_ABS_def BPF_IMM_def BPF_OP_MASK_def BPF_JEQ_def BPF_JGT_def
  BPF_JGE_def BPF_JSET_def BPF_SRC_MASK_def BPF_K_def

record bpf_insn =
  insn_code :: u16
  insn_jt :: u8
  insn_jf :: u8
  insn_k :: u32

definition BPF_STMT :: "u16 \<Rightarrow> u32 \<Rightarrow> bpf_insn" where
  "BPF_STMT code k = \<lparr>insn_code = code, insn_jt = 0, insn_jf = 0, insn_k = k\<rparr>"

definition BPF_JUMP :: "u16 \<Rightarrow> u32 \<Rightarrow> u8 \<Rightarrow> u8 \<Rightarrow> bpf_insn" where
  "BPF_JUMP code k jt jf = \<lparr>insn_code = code, insn_jt = jt, insn_jf = jf, insn_k = k\<rparr>"

record seccomp_data =
  sd_nr :: u32
  sd_arch :: u32
  sd_ip :: u64
  sd_args :: "u64 list"

definition AUDIT_ARCH_X86_64 :: u32 where "AUDIT_ARCH_X86_64 = 0xc000003e"

text \<open>The byte image of the structure, field after field, without padding.\<close>

definition le_bytes :: "nat \<Rightarrow> 'a::len word \<Rightarrow> u8 list" where
  "le_bytes n w = map (\<lambda>i. ucast (drop_bit (8 * i) w)) [0 ..< n]"

primrec le_word :: "u8 list \<Rightarrow> u32" where
  "le_word [] = 0"
| "le_word (b # bs) = ucast b OR push_bit 8 (le_word bs)"

definition seccomp_bytes :: "seccomp_data \<Rightarrow> u8 list" where
  "seccomp_bytes d = le_bytes 4 (sd_nr d) @ le_bytes 4 (sd_arch d) @ le_bytes 8 (sd_ip d) @
     concat (map (le_bytes 8) (sd_args d))"

text \<open>\<^verbatim>\<open>sizeof(struct seccomp_data)\<close> and the offsets the built-in programs use.\<close>

definition SECCOMP_DATA_SIZE :: nat where "SECCOMP_DATA_SIZE = 64"

definition offsetof_nr :: u32 where "offsetof_nr = 0"
definition offsetof_arch :: u32 where "offsetof_arch = 4"

section \<open>The validator\<close>

definition MAX_BPF_INSNS :: nat where "MAX_BPF_INSNS = 4096"
definition MAX_BPF_JUMP :: nat where "MAX_BPF_JUMP = 256"

definition bpf_access_size :: "u16 \<Rightarrow> u32" where
  "bpf_access_size code =
     (let sz = code AND BPF_SIZE_MASK in if sz = BPF_W then 4 else if sz = BPF_H then 2 else 1)"

text \<open>
  The body of the validator's loop for instruction \<open>i\<close>; the bound test adds offset and
  access size in 32 bits, as the code does.
\<close>

definition bpf_insn_ok :: "nat \<Rightarrow> nat \<Rightarrow> bpf_insn \<Rightarrow> bool" where
  "bpf_insn_ok len i insn =
     (let code = insn_code insn; cls = code AND BPF_CLASS_MASK in
      if cls = BPF_LD then
        let mode = code AND BPF_MODE_MASK in
        if mode = BPF_ABS then unat (insn_k insn + bpf_access_size code) \<le> SECCOMP_DATA_SIZE
        else mode = BPF_IMM
      else if cls = BPF_JMP then
        code AND BPF_OP_MASK \<noteq> 0 \<and>
        \<not> (len \<le> i + unat (insn_jt insn) + 1 \<or> len \<le> i + unat (insn_jf insn) + 1) \<and>
        \<not> (MAX_BPF_JUMP < unat (insn_jt insn) \<or> MAX_BPF_JUMP < unat (insn_jf insn))
      else cls = BPF_RET)"

definition bpf_prog_validate :: "bpf_insn list \<Rightarrow> int" where
  "bpf_prog_validate insns =
     (if insns = [] then -1
      else if \<not> list_all (\<lambda>(i, insn). bpf_insn_ok (length insns) i insn) (enumerate 0 insns) then -1
      else if insn_code (insns ! (length insns - 1)) AND BPF_CLASS_MASK \<noteq> BPF_RET then -1
      else 0)"

section \<open>The interpreter\<close>

text \<open>\<open>None\<close> is a read outside the 64 bytes; an unknown size reads nothing and gives 0.\<close>

definition bpf_load :: "u8 list \<Rightarrow> u32 \<Rightarrow> u16 \<Rightarrow> u32 option" where
  "bpf_load bytes offset sz =
     (let n = (if sz = BPF_W then 4 else if sz = BPF_H then 2 else if sz = BPF_B then 1 else 0)
      in if n = 0 then Some 0
         else if unat offset + n \<le> length bytes
         then Some (le_word (take n (drop (unat offset) bytes)))
         else None)"

definition bpf_condition :: "u16 \<Rightarrow> u32 \<Rightarrow> u32 \<Rightarrow> bool" where
  "bpf_condition jop A k =
     (if jop = BPF_JEQ then A = k
      else if jop = BPF_JGT then k < A
      else if jop = BPF_JGE then k \<le> A
      else if jop = BPF_JSET then A AND k \<noteq> 0
      else False)"

function bpf_exec ::
    "bpf_insn list \<Rightarrow> u8 list \<Rightarrow> nat \<Rightarrow> nat \<Rightarrow> u32 \<Rightarrow> u32 \<Rightarrow> nat \<Rightarrow> u32 option" where
  "bpf_exec insns bytes max_iterations pc A X iterations =
     (if pc < length insns \<and> iterations < max_iterations then
        let insn = insns ! pc; code = insn_code insn; cls = code AND BPF_CLASS_MASK;
            iterations = iterations + 1
        in if cls = BPF_LD then
             let mode = code AND BPF_MODE_MASK in
             if mode = BPF_ABS then
               (case bpf_load bytes (insn_k insn) (code AND BPF_SIZE_MASK) of
                  None \<Rightarrow> None
                | Some v \<Rightarrow> bpf_exec insns bytes max_iterations (pc + 1) v X iterations)
             else if mode = BPF_IMM then
               bpf_exec insns bytes max_iterations (pc + 1) (insn_k insn) X iterations
             else bpf_exec insns bytes max_iterations (pc + 1) A X iterations
           else if cls = BPF_JMP then
             let k = (if code AND BPF_SRC_MASK = BPF_K then insn_k insn else X)
             in if bpf_condition (code AND BPF_OP_MASK) A k
                then bpf_exec insns bytes max_iterations (pc + (unat (insn_jt insn) + 1)) A X iterations
                else bpf_exec insns bytes max_iterations (pc + (unat (insn_jf insn) + 1)) A X iterations
           else if cls = BPF_RET then Some (insn_k insn)
           else Some SECCOMP_RET_KILL
      else Some SECCOMP_RET_KILL)"
  by pat_completeness auto
termination
  by (relation "measure (\<lambda>(insns, bytes, m, pc, A, X, it). m - it)") auto

declare bpf_exec.simps [simp del]

definition bpf_prog_run :: "bpf_insn list \<Rightarrow> seccomp_data \<Rightarrow> u32 option" where
  "bpf_prog_run insns d =
     bpf_exec insns (seccomp_bytes d) (unat (of_nat (length insns) * 10 :: u32)) 0 0 0 0"

section \<open>Byte images\<close>

lemma length_le_bytes [simp]: "length (le_bytes n w) = n"
  by (simp add: le_bytes_def)

lemma length_seccomp_bytes:
  assumes "length (sd_args d) = 6"
  shows "length (seccomp_bytes d) = SECCOMP_DATA_SIZE"
proof -
  have "length (concat (map (le_bytes 8) xs)) = 8 * length xs" for xs :: "u64 list"
    by (induction xs) simp_all
  with assms show ?thesis
    by (simp add: seccomp_bytes_def SECCOMP_DATA_SIZE_def)
qed

lemma le_word_bytes: "le_word (le_bytes 4 w) = w" for w :: u32
proof -
  have "[0 ..< 4] = [0, 1, 2, 3 :: nat]" by (simp add: upt_rec)
  then have "bit (le_word (le_bytes 4 w)) n \<longleftrightarrow> bit w n" if "n < 32" for n
    using that by (cases "n < 16"; cases "n < 24") (auto simp: le_bytes_def bit_simps)
  then show ?thesis
    by (intro bit_word_eqI) simp
qed

lemma load_nr: "bpf_load (seccomp_bytes d) offsetof_nr BPF_W = Some (sd_nr d)"
  by (simp add: bpf_load_def offsetof_nr_def seccomp_bytes_def le_word_bytes)

lemma load_arch: "bpf_load (seccomp_bytes d) offsetof_arch BPF_W = Some (sd_arch d)"
  by (simp add: bpf_load_def offsetof_arch_def seccomp_bytes_def le_word_bytes)

section \<open>Validated programs\<close>

text \<open>What the validator guarantees for each instruction.\<close>

lemma validate_iff:
  "bpf_prog_validate insns = 0 \<longleftrightarrow> insns \<noteq> [] \<and>
     (\<forall>i < length insns. bpf_insn_ok (length insns) i (insns ! i)) \<and>
     insn_code (last insns) AND BPF_CLASS_MASK = BPF_RET"
proof -
  have "list_all (\<lambda>(i, insn). bpf_insn_ok n i insn) (enumerate 0 insns) \<longleftrightarrow>
      (\<forall>i < length insns. bpf_insn_ok n i (insns ! i))" for n
    by (auto simp: list_all_length nth_enumerate_eq)
  then show ?thesis
    by (auto simp: bpf_prog_validate_def last_conv_nth)
qed

text \<open>The bound test is meant to be one on natural numbers: no wrap-around in the addition.\<close>

definition bpf_loads_inside :: "bpf_insn list \<Rightarrow> bool" where
  "bpf_loads_inside insns \<longleftrightarrow> (\<forall>insn \<in> set insns.
     insn_code insn AND BPF_CLASS_MASK = BPF_LD \<and> insn_code insn AND BPF_MODE_MASK = BPF_ABS \<longrightarrow>
     unat (insn_k insn) + unat (bpf_access_size (insn_code insn)) \<le> SECCOMP_DATA_SIZE)"

lemma load_inside:
  assumes "unat k + unat (bpf_access_size code) \<le> length bytes"
  shows "\<exists>v. bpf_load bytes k (code AND BPF_SIZE_MASK) = Some v"
  using assms by (auto simp: bpf_load_def bpf_access_size_def Let_def bpf_simps split: if_splits)

text \<open>
  One step of a validated program: it returns, or moves strictly forward to an instruction
  of the program.
\<close>

lemma exec_forward:
  assumes ok: "\<forall>i < length insns. bpf_insn_ok (length insns) i (insns ! i)"
    and last: "insn_code (last insns) AND BPF_CLASS_MASK = BPF_RET"
    and inside: "bpf_loads_inside insns" and len: "length bytes = SECCOMP_DATA_SIZE"
    and pc: "pc < length insns" and it: "iterations < max_iterations"
  shows "bpf_exec insns bytes max_iterations pc A X iterations = Some (insn_k (insns ! pc)) \<and>
      insn_code (insns ! pc) AND BPF_CLASS_MASK = BPF_RET \<or>
    (\<exists>pc' A'. pc < pc' \<and> pc' < length insns \<and>
      bpf_exec insns bytes max_iterations pc A X iterations =
        bpf_exec insns bytes max_iterations pc' A' X (iterations + 1))"
proof -
  let ?insn = "insns ! pc" and ?code = "insn_code (insns ! pc)"
  let ?e = "\<lambda>pc A. bpf_exec insns bytes max_iterations pc A X (iterations + 1)"
  have okpc: "bpf_insn_ok (length insns) pc ?insn" using ok pc by blast
  consider "?code AND BPF_CLASS_MASK = BPF_LD" | "?code AND BPF_CLASS_MASK = BPF_JMP"
    | "?code AND BPF_CLASS_MASK = BPF_RET"
    using okpc by (auto simp: bpf_insn_ok_def Let_def split: if_splits)
  then show ?thesis
  proof cases
    case 1
    have "Suc pc < length insns"
    proof (rule ccontr)
      assume "\<not> Suc pc < length insns"
      with pc have "pc = length insns - 1" by simp
      moreover have "insns \<noteq> []" using pc by auto
      ultimately have "insns ! pc = last insns" by (simp add: last_conv_nth)
      with last 1 show False by (simp add: bpf_simps)
    qed
    moreover have "\<exists>A'. bpf_exec insns bytes max_iterations pc A X iterations = ?e (Suc pc) A'"
    proof (cases "?code AND BPF_MODE_MASK = BPF_ABS")
      case True
      then have "unat (insn_k ?insn) + unat (bpf_access_size ?code) \<le> length bytes"
        using inside 1 pc nth_mem [OF pc] len by (auto simp: bpf_loads_inside_def)
      from load_inside [OF this] obtain v
        where "bpf_load bytes (insn_k ?insn) (?code AND BPF_SIZE_MASK) = Some v" by blast
      with True 1 pc it show ?thesis
        by (subst bpf_exec.simps) (auto simp: Let_def)
    next
      case False
      with 1 pc it show ?thesis
        by (subst bpf_exec.simps) (auto simp: Let_def)
    qed
    ultimately show ?thesis by blast
  next
    case 2
    have cls: "BPF_JMP \<noteq> BPF_LD" by (simp add: bpf_simps)
    have t: "pc + (unat (insn_jt ?insn) + 1) < length insns" "pc + (unat (insn_jf ?insn) + 1) < length insns"
      using okpc 2 cls by (auto simp: bpf_insn_ok_def Let_def not_le)
    show ?thesis
    proof (cases "bpf_condition (?code AND BPF_OP_MASK) A
        (if ?code AND BPF_SRC_MASK = BPF_K then insn_k ?insn else X)")
      case True
      then have "bpf_exec insns bytes max_iterations pc A X iterations = ?e (pc + (unat (insn_jt ?insn) + 1)) A"
        using 2 cls pc it by (subst bpf_exec.simps) (simp add: Let_def)
      with t(1) show ?thesis by (intro disjI2 exI [of _ "pc + (unat (insn_jt ?insn) + 1)"] exI [of _ A]) simp
    next
      case False
      then have "bpf_exec insns bytes max_iterations pc A X iterations = ?e (pc + (unat (insn_jf ?insn) + 1)) A"
        using 2 cls pc it by (subst bpf_exec.simps) (simp add: Let_def)
      with t(2) show ?thesis by (intro disjI2 exI [of _ "pc + (unat (insn_jf ?insn) + 1)"] exI [of _ A]) simp
    qed
  next
    case 3
    then have "bpf_exec insns bytes max_iterations pc A X iterations = Some (insn_k ?insn)"
      using pc it by (subst bpf_exec.simps) (simp add: Let_def bpf_simps)
    with 3 show ?thesis by blast
  qed
qed

lemma exec_returns:
  assumes ok: "\<forall>i < length insns. bpf_insn_ok (length insns) i (insns ! i)"
    and last: "insn_code (last insns) AND BPF_CLASS_MASK = BPF_RET"
    and inside: "bpf_loads_inside insns" and len: "length bytes = SECCOMP_DATA_SIZE"
  shows "pc < length insns \<Longrightarrow> iterations + (length insns - pc) \<le> max_iterations \<Longrightarrow>
    \<exists>insn \<in> set insns. insn_code insn AND BPF_CLASS_MASK = BPF_RET \<and>
      bpf_exec insns bytes max_iterations pc A X iterations = Some (insn_k insn)"
proof (induction "length insns - pc" arbitrary: pc A iterations rule: less_induct)
  case less
  have "iterations < max_iterations" using less.prems by linarith
  from exec_forward [OF ok last inside len less.prems(1) this, of A X]
  show ?case
  proof (elim disjE exE conjE)
    assume "bpf_exec insns bytes max_iterations pc A X iterations = Some (insn_k (insns ! pc))"
      and "insn_code (insns ! pc) AND BPF_CLASS_MASK = BPF_RET"
    then show ?thesis using nth_mem [OF less.prems(1)] by blast
  next
    fix pc' A'
    assume p: "pc < pc'" "pc' < length insns"
      and e: "bpf_exec insns bytes max_iterations pc A X iterations =
        bpf_exec insns bytes max_iterations pc' A' X (iterations + 1)"
    have "length insns - pc' < length insns - pc" "iterations + 1 + (length insns - pc') \<le> max_iterations"
      using p less.prems by linarith+
    from less.hyps [OF this(1) p(2) this(2), of A'] e show ?thesis by simp
  qed
qed

lemma run_returns:
  assumes "bpf_prog_validate insns = 0" and "length insns \<le> MAX_BPF_INSNS"
    and "bpf_loads_inside insns" and "length (sd_args d) = 6"
  shows "\<exists>insn \<in> set insns. insn_code insn AND BPF_CLASS_MASK = BPF_RET \<and>
    bpf_prog_run insns d = Some (insn_k insn)"
proof -
  have v: "insns \<noteq> []" "\<forall>i < length insns. bpf_insn_ok (length insns) i (insns ! i)"
    "insn_code (last insns) AND BPF_CLASS_MASK = BPF_RET"
    using assms(1) by (simp_all add: validate_iff)
  have "unat (of_nat (length insns) * 10 :: u32) = length insns * 10"
    using assms(2) by (simp add: MAX_BPF_INSNS_def unat_word_ariths unsigned_of_nat take_bit_eq_mod)
  then show ?thesis
    using exec_returns [OF v(2,3) assms(3) length_seccomp_bytes [OF assms(4)], of 0 0] v(1)
    by (simp add: bpf_prog_run_def)
qed

section \<open>Straight-line steps\<close>

text \<open>
  The three instruction shapes of the built-in programs, as rewrite rules on a program
  whose remaining instructions are known.
\<close>

lemma exec_ld_abs:
  assumes "insns ! pc = BPF_STMT (BPF_LD OR BPF_W OR BPF_ABS) k" and "pc < length insns" and "it < m"
    and "bpf_load bytes k BPF_W = Some v"
  shows "bpf_exec insns bytes m pc A X it = bpf_exec insns bytes m (pc + 1) v X (it + 1)"
  using assms by (subst bpf_exec.simps) (simp add: BPF_STMT_def Let_def bpf_simps)

lemma exec_jeq:
  assumes "insns ! pc = BPF_JUMP (BPF_JMP OR BPF_JEQ OR BPF_K) k jt jf" and "pc < length insns" and "it < m"
  shows "bpf_exec insns bytes m pc A X it =
    bpf_exec insns bytes m (pc + (unat (if A = k then jt else jf) + 1)) A X (it + 1)"
  using assms by (subst bpf_exec.simps) (simp add: BPF_JUMP_def bpf_condition_def Let_def bpf_simps)

lemma exec_ret:
  assumes "insns ! pc = BPF_STMT (BPF_RET OR BPF_K) k" and "pc < length insns" and "it < m"
  shows "bpf_exec insns bytes m pc A X it = Some k"
  using assms by (subst bpf_exec.simps) (simp add: BPF_STMT_def Let_def bpf_simps)

end
