(* ===== verification/Seccomp_Enforce.thy ===== *)
theory Seccomp_Enforce
  imports Seccomp_Bpf
begin

text \<open>
  Policy management and enforcement: \<^verbatim>\<open>kernel/security/seccomp/enforce.c\<close>,
  \<^verbatim>\<open>seccomp_syscall.c\<close> and the program objects and helper programs of \<^verbatim>\<open>filter.c\<close>.

  Program objects live in a heap from addresses to programs with their reference counts;
  a NULL or freed program is an address without an entry. A process's filter chain is the
  list of its filters, the newest first. Results of \<^verbatim>\<open>kmalloc\<close>, \<^verbatim>\<open>copy_from_user\<close> and
  \<^verbatim>\<open>rdtsc\<close> are parameters; a filter run that reads outside its input is the result
  \<open>None\<close>. Console output and the \<^verbatim>\<open>PERF_SECCOMP\<close> timing code are not modelled.
\<close>

section \<open>State\<close>

record bpf_prog =
  prog_insns :: "bpf_insn list"
  prog_flags :: u32
  prog_refs :: u32

record seccomp_filter =
  flt_prog :: nat
  flt_mode :: u32
  flt_flags :: u32

record sproc =
  sp_pid :: u32
  sp_rip :: u64
  seccomp_mode :: u32
  seccomp_chain :: "seccomp_filter list"

record seccomp_audit_entry =
  ae_timestamp :: u64
  ae_pid :: u32
  ae_syscall_nr :: u32
  ae_action :: u32
  ae_args :: "u64 list"
  ae_ip :: u64

record seccomp_stats =
  total_checks :: u64
  allowed :: u64
  denied :: u64
  killed :: u64
  logged :: u64

record seccomp =
  progs :: "nat \<Rightarrow> bpf_prog option"
  global_stats :: seccomp_stats
  audit_log :: "seccomp_audit_entry list"
  audit_log_index :: nat

definition AUDIT_LOG_SIZE :: nat where "AUDIT_LOG_SIZE = 1024"

definition SECCOMP_MODE_DISABLED :: u32 where "SECCOMP_MODE_DISABLED = 0"
definition SECCOMP_MODE_STRICT :: u32 where "SECCOMP_MODE_STRICT = 1"
definition SECCOMP_MODE_FILTER :: u32 where "SECCOMP_MODE_FILTER = 2"
definition SECCOMP_FILTER_STRICT :: u32 where "SECCOMP_FILTER_STRICT = 1"
definition SECCOMP_FILTER_LOG :: u32 where "SECCOMP_FILTER_LOG = 2"

definition SYS_EXIT :: u32 where "SYS_EXIT = 0"
definition SYS_READ :: u32 where "SYS_READ = 2"
definition SYS_WRITE :: u32 where "SYS_WRITE = 3"

lemmas seccomp_consts [bpf_simps] =
  SECCOMP_MODE_DISABLED_def SECCOMP_MODE_STRICT_def SECCOMP_MODE_FILTER_def
  SECCOMP_FILTER_STRICT_def SECCOMP_FILTER_LOG_def SYS_EXIT_def SYS_READ_def SYS_WRITE_def

definition zero_entry :: seccomp_audit_entry where
  "zero_entry = \<lparr>ae_timestamp = 0, ae_pid = 0, ae_syscall_nr = 0, ae_action = 0,
     ae_args = replicate 6 0, ae_ip = 0\<rparr>"

definition seccomp_init :: "seccomp \<Rightarrow> seccomp" where
  "seccomp_init k = k\<lparr>
     global_stats := \<lparr>total_checks = 0, allowed = 0, denied = 0, killed = 0, logged = 0\<rparr>,
     audit_log := replicate AUDIT_LOG_SIZE zero_entry, audit_log_index := 0\<rparr>"

section \<open>Program objects\<close>

text \<open>\<open>obj\<close> and \<open>arr\<close> are the two \<^verbatim>\<open>kmalloc\<close> results: an address, and whether the copy fits.\<close>

definition bpf_prog_create :: "nat option \<Rightarrow> bool \<Rightarrow> bpf_insn list \<Rightarrow> seccomp \<Rightarrow> nat option \<times> seccomp" where
  "bpf_prog_create obj arr insns k =
     (if length insns = 0 \<or> MAX_BPF_INSNS < length insns then (None, k)
      else case obj of None \<Rightarrow> (None, k)
      | Some p \<Rightarrow>
          (if \<not> arr then (None, k)
           else (Some p, k\<lparr>progs := (progs k)(p := Some
             \<lparr>prog_insns = insns, prog_flags = 0, prog_refs = 1\<rparr>)\<rparr>)))"

definition bpf_prog_destroy :: "nat \<Rightarrow> seccomp \<Rightarrow> seccomp" where
  "bpf_prog_destroy p k =
     (case progs k p of None \<Rightarrow> k
      | Some pr \<Rightarrow>
          (let refs = prog_refs pr - 1 in
           if refs = 0 then k\<lparr>progs := (progs k)(p := None)\<rparr>
           else k\<lparr>progs := (progs k)(p := Some (pr\<lparr>prog_refs := refs\<rparr>))\<rparr>))"

section \<open>Filters\<close>

definition seccomp_install_filter ::
    "bool \<Rightarrow> nat \<Rightarrow> u32 \<Rightarrow> u32 \<Rightarrow> sproc \<Rightarrow> seccomp \<Rightarrow> int \<times> sproc \<times> seccomp" where
  "seccomp_install_filter mem p mode flags proc k =
     (case progs k p of None \<Rightarrow> (EINVAL, proc, k)
      | Some pr \<Rightarrow>
          (if bpf_prog_validate (prog_insns pr) \<noteq> 0 then (EINVAL, proc, k)
           else if \<not> mem then (ENOMEM, proc, k)
           else let flt = \<lparr>flt_prog = p, flt_mode = mode, flt_flags = flags\<rparr>
                in (0, proc\<lparr>seccomp_chain := flt # seccomp_chain proc, seccomp_mode := mode\<rparr>,
                    k\<lparr>progs := (progs k)(p := Some (pr\<lparr>prog_refs := prog_refs pr + 1\<rparr>))\<rparr>)))"

definition seccomp_remove_filter :: "sproc \<Rightarrow> seccomp \<Rightarrow> int \<times> sproc \<times> seccomp" where
  "seccomp_remove_filter proc k =
     (case seccomp_chain proc of [] \<Rightarrow> (EINVAL, proc, k)
      | flt # prev \<Rightarrow>
          (if flt_flags flt AND SECCOMP_FILTER_STRICT \<noteq> 0 then (EPERM, proc, k)
           else (0, proc\<lparr>seccomp_chain := prev,
                      seccomp_mode := (if prev = [] then SECCOMP_MODE_DISABLED else seccomp_mode proc)\<rparr>,
                 bpf_prog_destroy (flt_prog flt) k)))"

section \<open>Audit log\<close>

definition seccomp_audit_log ::
    "u64 \<Rightarrow> sproc \<Rightarrow> u32 \<Rightarrow> u32 \<Rightarrow> u64 list \<Rightarrow> u64 \<Rightarrow> seccomp \<Rightarrow> seccomp" where
  "seccomp_audit_log tsc proc nr action args ip k =
     (let entry = \<lparr>ae_timestamp = tsc, ae_pid = sp_pid proc, ae_syscall_nr = nr, ae_action = action,
            ae_args = args, ae_ip = ip\<rparr>
      in k\<lparr>audit_log := (audit_log k)[audit_log_index k := entry],
           audit_log_index := (audit_log_index k + 1) mod AUDIT_LOG_SIZE\<rparr>)"

definition seccomp_get_audit_log :: "seccomp \<Rightarrow> nat \<times> seccomp_audit_entry list" where
  "seccomp_get_audit_log k =
     (if audit_log_index k < AUDIT_LOG_SIZE then audit_log_index k else AUDIT_LOG_SIZE, audit_log k)"

definition seccomp_get_stats :: "seccomp \<Rightarrow> seccomp_stats" where
  "seccomp_get_stats k = global_stats k"

section \<open>Enforcement\<close>

definition count_allowed :: "seccomp \<Rightarrow> seccomp" where
  "count_allowed k = k\<lparr>global_stats := (global_stats k)\<lparr>allowed := allowed (global_stats k) + 1\<rparr>\<rparr>"

definition count_denied :: "seccomp \<Rightarrow> seccomp" where
  "count_denied k = k\<lparr>global_stats := (global_stats k)\<lparr>denied := denied (global_stats k) + 1\<rparr>\<rparr>"

text \<open>The loop over the chain; a filter whose program is gone runs as a NULL program.\<close>

definition run_filter :: "seccomp \<Rightarrow> seccomp_data \<Rightarrow> seccomp_filter \<Rightarrow> u32 option" where
  "run_filter k d f =
     (case progs k (flt_prog f) of None \<Rightarrow> Some SECCOMP_RET_KILL
      | Some pr \<Rightarrow> bpf_prog_run (prog_insns pr) d)"

primrec run_chain :: "seccomp \<Rightarrow> seccomp_data \<Rightarrow> seccomp_filter list \<Rightarrow> u32 \<Rightarrow> u32 option" where
  "run_chain k d [] result = Some result"
| "run_chain k d (f # fs) result =
     (case run_filter k d f of None \<Rightarrow> None
      | Some filter_result \<Rightarrow>
          run_chain k d fs
            (if filter_result AND SECCOMP_RET_ACTION_MASK < result AND SECCOMP_RET_ACTION_MASK
             then filter_result else result))"

definition seccomp_check_syscall ::
    "u64 \<Rightarrow> sproc \<Rightarrow> u32 \<Rightarrow> u64 list \<Rightarrow> u64 \<Rightarrow> seccomp \<Rightarrow> u32 option \<times> seccomp" where
  "seccomp_check_syscall tsc proc nr args ip k =
     (if seccomp_mode proc = SECCOMP_MODE_DISABLED then (Some SECCOMP_RET_ALLOW, count_allowed k)
      else let k = k\<lparr>global_stats := (global_stats k)\<lparr>total_checks := total_checks (global_stats k) + 1\<rparr>\<rparr> in
      if seccomp_mode proc = SECCOMP_MODE_STRICT then
        if nr = SYS_READ \<or> nr = SYS_WRITE \<or> nr = SYS_EXIT
        then (Some SECCOMP_RET_ALLOW, count_allowed k) else (Some SECCOMP_RET_KILL, count_denied k)
      else if seccomp_mode proc = SECCOMP_MODE_FILTER then
        (case seccomp_chain proc of [] \<Rightarrow> (Some SECCOMP_RET_KILL, count_denied k)
         | newest # prev \<Rightarrow>
             (let d = \<lparr>sd_nr = nr, sd_arch = AUDIT_ARCH_X86_64, sd_ip = ip, sd_args = args\<rparr> in
              case run_chain k d (seccomp_chain proc) SECCOMP_RET_ALLOW of
                None \<Rightarrow> (None, k)
              | Some result \<Rightarrow>
                  (if result AND SECCOMP_RET_ACTION_MASK = SECCOMP_RET_ALLOW
                   then (Some result, count_allowed k)
                   else let k = count_denied k
                        in (Some result,
                            if flt_flags newest AND SECCOMP_FILTER_LOG \<noteq> 0
                            then seccomp_audit_log tsc proc nr result args ip k else k))))
      else (Some SECCOMP_RET_KILL, count_denied k))"

definition seccomp_handle_violation :: "u32 \<Rightarrow> seccomp \<Rightarrow> seccomp" where
  "seccomp_handle_violation action k =
     (let action_type = action AND SECCOMP_RET_ACTION_MASK in
      if action_type = SECCOMP_RET_KILL
      then k\<lparr>global_stats := (global_stats k)\<lparr>killed := killed (global_stats k) + 1\<rparr>\<rparr>
      else if action_type = SECCOMP_RET_TRAP then k
      else if action_type = SECCOMP_RET_ERRNO then k
      else if action_type = SECCOMP_RET_TRACE then k
      else if action_type = SECCOMP_RET_LOG
      then k\<lparr>global_stats := (global_stats k)\<lparr>logged := logged (global_stats k) + 1\<rparr>\<rparr>
      else k)"

text \<open>
  The dispatcher's hook, for the current process if there is one. The outer \<open>None\<close> is a
  filter run that reads outside its input.
\<close>

definition seccomp_check ::
    "u64 \<Rightarrow> sproc option \<Rightarrow> u64 \<Rightarrow> u64 list \<Rightarrow> seccomp \<Rightarrow> int option \<times> seccomp" where
  "seccomp_check tsc cur nr scargs k =
     (case cur of None \<Rightarrow> (Some 0, k)
      | Some proc \<Rightarrow>
          (let mode = seccomp_mode proc in
           if mode = SECCOMP_MODE_DISABLED then (Some 0, k)
           else if mode \<noteq> SECCOMP_MODE_STRICT \<and> mode \<noteq> SECCOMP_MODE_FILTER then (Some 0, k)
           else if mode = SECCOMP_MODE_FILTER \<and> seccomp_chain proc = [] then (Some 0, k)
           else (case seccomp_check_syscall tsc proc (ucast nr) scargs (sp_rip proc) k of
               (None, k1) \<Rightarrow> (None, k1)
             | (Some result, k1) \<Rightarrow>
                 (let action = result AND SECCOMP_RET_ACTION_MASK in
                  if action = SECCOMP_RET_ALLOW \<or> action = SECCOMP_RET_LOG then (Some 0, k1)
                  else let k2 = seccomp_handle_violation result k1 in
                  if action = SECCOMP_RET_ERRNO then
                    let errno_val = result AND SECCOMP_RET_DATA_MASK in
                    if errno_val = 0 then (Some EPERM, k2) else (Some (- uint errno_val), k2)
                  else (Some EPERM, k2)))))"

section \<open>Built-in profiles\<close>

definition profile_head :: "bpf_insn list" where
  "profile_head =
     [BPF_STMT (BPF_LD OR BPF_W OR BPF_ABS) offsetof_arch,
      BPF_JUMP (BPF_JMP OR BPF_JEQ OR BPF_K) AUDIT_ARCH_X86_64 1 0,
      BPF_STMT (BPF_RET OR BPF_K) SECCOMP_RET_KILL,
      BPF_STMT (BPF_LD OR BPF_W OR BPF_ABS) offsetof_nr]"

text \<open>One check of a profile: if the syscall number is \<open>nr\<close>, return \<open>ret\<close>.\<close>

definition profile_case :: "u32 \<Rightarrow> u32 \<Rightarrow> bpf_insn list" where
  "profile_case nr ret =
     [BPF_JUMP (BPF_JMP OR BPF_JEQ OR BPF_K) nr 0 1, BPF_STMT (BPF_RET OR BPF_K) ret]"

definition profile_strict :: "bpf_insn list" where
  "profile_strict = profile_head @ profile_case 2 SECCOMP_RET_ALLOW @
     profile_case 3 SECCOMP_RET_ALLOW @ profile_case 0 SECCOMP_RET_ALLOW @
     [BPF_STMT (BPF_RET OR BPF_K) SECCOMP_RET_KILL]"

definition profile_browser :: "bpf_insn list" where
  "profile_browser = profile_head @ profile_case 7 SECCOMP_RET_KILL @
     profile_case 1 (SECCOMP_RET_ERRNO OR 1) @
     [BPF_STMT (BPF_RET OR BPF_K) SECCOMP_RET_ALLOW]"

definition profile_network :: "bpf_insn list" where
  "profile_network = profile_head @ profile_case 7 SECCOMP_RET_KILL @
     [BPF_STMT (BPF_RET OR BPF_K) SECCOMP_RET_ALLOW]"

definition profile_untrusted :: "bpf_insn list" where
  "profile_untrusted = profile_head @ profile_case 2 SECCOMP_RET_ALLOW @
     profile_case 3 SECCOMP_RET_ALLOW @ profile_case 0 SECCOMP_RET_ALLOW @
     profile_case 8 SECCOMP_RET_ALLOW @ [BPF_STMT (BPF_RET OR BPF_K) SECCOMP_RET_KILL]"

definition profile_insns :: "u32 \<Rightarrow> bpf_insn list option" where
  "profile_insns profile_id =
     (if profile_id = 1 then Some profile_strict
      else if profile_id = 2 then Some profile_browser
      else if profile_id = 3 then Some profile_network
      else if profile_id = 4 then Some profile_untrusted
      else None)"

definition seccomp_load_profile ::
    "nat option \<Rightarrow> bool \<Rightarrow> bool \<Rightarrow> u32 \<Rightarrow> sproc \<Rightarrow> seccomp \<Rightarrow> int \<times> sproc \<times> seccomp" where
  "seccomp_load_profile obj arr mem profile_id proc k =
     (case profile_insns profile_id of None \<Rightarrow> (EINVAL, proc, k)
      | Some insns \<Rightarrow>
          (case bpf_prog_create obj arr insns k of
             (None, k1) \<Rightarrow> (ENOMEM, proc, k1)
           | (Some p, k1) \<Rightarrow>
               (let (result, proc', k2) = seccomp_install_filter mem p SECCOMP_MODE_FILTER
                      (SECCOMP_FILTER_STRICT OR SECCOMP_FILTER_LOG) proc k1
                in (result, proc', if result \<noteq> 0 then bpf_prog_destroy p k2 else k2))))"

text \<open>The two helper programs of \<^verbatim>\<open>filter.c\<close>.\<close>

definition bpf_syscall_allow :: "bool \<Rightarrow> u32 \<Rightarrow> bpf_insn list option" where
  "bpf_syscall_allow mem syscall_nr =
     (if \<not> mem then None
      else Some [BPF_STMT (BPF_LD OR BPF_W OR BPF_ABS) offsetof_nr,
        BPF_JUMP (BPF_JMP OR BPF_JEQ OR BPF_K) syscall_nr 0 1,
        BPF_STMT (BPF_RET OR BPF_K) SECCOMP_RET_ALLOW,
        BPF_STMT (BPF_RET OR BPF_K) SECCOMP_RET_KILL])"

definition bpf_check_arch_x86_64 :: "bpf_insn list" where
  "bpf_check_arch_x86_64 =
     [BPF_STMT (BPF_LD OR BPF_W OR BPF_ABS) offsetof_arch,
      BPF_JUMP (BPF_JMP OR BPF_JEQ OR BPF_K) AUDIT_ARCH_X86_64 1 0,
      BPF_STMT (BPF_RET OR BPF_K) SECCOMP_RET_KILL]"

section \<open>The system call\<close>

text \<open>
  What the call reads from user space and gets from the allocator: the \<^verbatim>\<open>sock_fprog\<close> (length
  and filter pointer), the instruction at each index of the user's array, and the results
  of the four allocations in order.
\<close>

record user_env =
  ue_fprog :: "(u16 \<times> u64) option"
  ue_insn :: "nat \<Rightarrow> bpf_insn option"
  ue_kinsns :: bool
  ue_obj :: "nat option"
  ue_arr :: bool
  ue_filter :: bool

definition SECCOMP_USER_MAX_INSNS :: nat where "SECCOMP_USER_MAX_INSNS = 1024"

definition sys_seccomp ::
    "u64 \<Rightarrow> u64 \<Rightarrow> user_env \<Rightarrow> sproc option \<Rightarrow> seccomp \<Rightarrow> int \<times> sproc option \<times> seccomp" where
  "sys_seccomp operation flags u cur k =
     (case cur of None \<Rightarrow> (ESRCH, None, k)
      | Some proc \<Rightarrow>
      if operation = 0 then (0, Some (proc\<lparr>seccomp_mode := SECCOMP_MODE_STRICT\<rparr>), k)
      else if operation = 1 then
        (case ue_fprog u of None \<Rightarrow> (EFAULT, cur, k)
         | Some (len, user_filter) \<Rightarrow>
         if len = 0 \<or> SECCOMP_USER_MAX_INSNS < unat len \<or> user_filter = 0 then (EINVAL, cur, k)
         else if \<not> ue_kinsns u then (ENOMEM, cur, k)
         else (case those (map (ue_insn u) [0 ..< unat len]) of None \<Rightarrow> (EFAULT, cur, k)
         | Some kinsns \<Rightarrow>
         (case bpf_prog_create (ue_obj u) (ue_arr u) kinsns k of
            (None, k1) \<Rightarrow> (EINVAL, cur, k1)
          | (Some p, k1) \<Rightarrow>
              (let filter_flags = (if ucast flags AND SECCOMP_FILTER_STRICT \<noteq> 0
                     then SECCOMP_FILTER_LOG OR SECCOMP_FILTER_STRICT else SECCOMP_FILTER_LOG);
                   (rc, proc', k2) = seccomp_install_filter (ue_filter u) p SECCOMP_MODE_FILTER
                     filter_flags proc k1
               in if rc \<noteq> 0 then (rc, Some proc', bpf_prog_destroy p k2)
                  else (0, Some proc', bpf_prog_destroy p k2)))))
      else (EINVAL, cur, k))"

end
