(* ===== verification/Seccomp_Properties.thy ===== *)
theory Seccomp_Properties
  imports Seccomp_Enforce
begin

text \<open>
  The properties of the syscall filter: safe and terminating execution of validated
  programs, the most restrictive layer decides, layers never relax a policy, the exact
  meaning of the built-in profiles, error paths without leaks, the audit ring; and the
  inputs on which the validator, the verdict and strict mode do not protect.
\<close>

section \<open>Chains in which the most restrictive result wins\<close>


definition action_of :: "u32 \<Rightarrow> u32" where
  "action_of r = r AND SECCOMP_RET_ACTION_MASK"

definition stricter :: "u32 \<Rightarrow> u32 \<Rightarrow> u32" where
  "stricter filter_result result = (if action_of filter_result < action_of result then filter_result else result)"


lemma run_chain_fold:
  "those (map (run_filter k d) fs) = Some rs \<Longrightarrow> run_chain k d fs r = Some (fold stricter rs r)"
  by (induction fs arbitrary: rs r) (auto simp: stricter_def action_of_def split: option.splits)


lemma run_chain_cong:
  "(\<And>f. f \<in> set fs \<Longrightarrow> run_filter k d f = run_filter k' d f) \<Longrightarrow> run_chain k d fs r = run_chain k' d fs r"
  by (induction fs arbitrary: r) (auto split: option.splits)

text \<open>The input the enforcement code builds for a filter.\<close>

definition filter_input :: "u32 \<Rightarrow> u64 list \<Rightarrow> u64 \<Rightarrow> seccomp_data" where
  "filter_input nr args ip = \<lparr>sd_nr = nr, sd_arch = AUDIT_ARCH_X86_64, sd_ip = ip, sd_args = args\<rparr>"

lemma progs_stats [simp]:
  "run_filter (k\<lparr>global_stats := g\<rparr>) = run_filter k"
  by (simp add: run_filter_def fun_eq_iff)

lemma check_filter_mode:
  assumes "seccomp_mode proc = SECCOMP_MODE_FILTER" and "seccomp_chain proc \<noteq> []"
  shows "fst (seccomp_check_syscall tsc proc nr args ip k) =
    run_chain k (filter_input nr args ip) (seccomp_chain proc) SECCOMP_RET_ALLOW"
proof -
  have cong: "run_chain (k\<lparr>global_stats := g\<rparr>) d fs r = run_chain k d fs r" for g d fs r
    by (rule run_chain_cong) simp
  show ?thesis
    using assms unfolding seccomp_check_syscall_def filter_input_def
    by (auto simp: Let_def cong bpf_simps split: list.splits option.splits)
qed

section \<open>Properties\<close>

text \<open>
  C26: a program accepted by the validator, no longer than a created program can be, whose
  absolute loads lie inside the 64-byte input without wrap-around, never reads outside its
  input and always returns the value of one of its own RET instructions: neither the
  iteration limit nor the end of the program is ever reached.
\<close>

theorem bpf_validated_run_returns:
  assumes "bpf_prog_validate insns = 0" and "length insns \<le> MAX_BPF_INSNS"
    and "bpf_loads_inside insns" and "length (sd_args d) = 6"
  shows "\<exists>insn \<in> set insns. insn_code insn AND BPF_CLASS_MASK = BPF_RET \<and>
    bpf_prog_run insns d = Some (insn_k insn)"
  by (rule run_returns [OF assms])

lemma profile_strict_ok: "bpf_prog_validate profile_strict = 0" "length profile_strict \<le> MAX_BPF_INSNS"
  "bpf_loads_inside profile_strict"
  by (code_simp, code_simp) (simp add: bpf_loads_inside_def profile_strict_def profile_head_def
      profile_case_def BPF_STMT_def BPF_JUMP_def bpf_access_size_def offsetof_arch_def offsetof_nr_def
      SECCOMP_DATA_SIZE_def bpf_simps)

theorem bpf_validated_run_returns_witness:
  "bpf_prog_validate profile_strict = 0 \<and> bpf_loads_inside profile_strict \<and>
   bpf_prog_run profile_strict (filter_input 5 (replicate 6 0) 0) \<noteq> None"
  using bpf_validated_run_returns [OF profile_strict_ok, of "filter_input 5 (replicate 6 0) 0"]
    profile_strict_ok
  by (auto simp: filter_input_def)

text \<open>
  C27: the validator adds offset and access size in 32 bits. A word load at any offset from
  0xFFFFFFFC up passes validation, and running the accepted program reads outside the
  input, whatever the syscall.
\<close>

theorem bpf_validate_offset_wraps:
  assumes "0xFFFFFFFC \<le> k" and "length (sd_args d) = 6"
  shows "bpf_prog_validate [BPF_STMT (BPF_LD OR BPF_W OR BPF_ABS) k, BPF_STMT (BPF_RET OR BPF_K) r] = 0 \<and>
    bpf_prog_run [BPF_STMT (BPF_LD OR BPF_W OR BPF_ABS) k, BPF_STMT (BPF_RET OR BPF_K) r] d = None"
proof -
  have k: "0xFFFFFFFC \<le> unat k" using assms(1) by (simp add: word_le_nat_alt)
  have "unat (k + 4) \<le> 3"
  proof -
    have "unat (k + 4) = (unat k + 4) mod 2 ^ 32" by (simp add: unat_word_ariths)
    moreover have "unat k < 2 ^ 32" using unsigned_less [of k] by simp
    ultimately have "unat (k + 4) = unat k + 4 - 2 ^ 32" using k by (simp add: le_mod_geq)
    with \<open>unat k < 2 ^ 32\<close> show ?thesis by linarith
  qed
  moreover have "bpf_load (seccomp_bytes d) k BPF_W = None"
    using k length_seccomp_bytes [OF assms(2)] by (simp add: bpf_load_def SECCOMP_DATA_SIZE_def)
  ultimately show ?thesis
    by (simp add: bpf_prog_validate_def bpf_insn_ok_def BPF_STMT_def bpf_access_size_def Let_def
        SECCOMP_DATA_SIZE_def bpf_prog_run_def bpf_exec.simps bpf_simps)
qed

theorem bpf_validate_offset_wraps_witness:
  "(0xFFFFFFFC::u32) \<le> 0xFFFFFFFE \<and> length (sd_args (filter_input 4 (replicate 6 0) 0)) = 6 \<and>
   bpf_prog_run [BPF_STMT (BPF_LD OR BPF_W OR BPF_ABS) 0xFFFFFFFE,
     BPF_STMT (BPF_RET OR BPF_K) SECCOMP_RET_ALLOW] (filter_input 4 (replicate 6 0) 0) = None"
  using bpf_validate_offset_wraps [of "0xFFFFFFFE" "filter_input 4 (replicate 6 0) 0" SECCOMP_RET_ALLOW]
  by (simp add: filter_input_def)


text \<open>A process with two filters: only read and write, and no execve.\<close>

definition two_layers :: sproc where
  "two_layers = \<lparr>sp_pid = 7, sp_rip = 0x400000, seccomp_mode = SECCOMP_MODE_FILTER,
     seccomp_chain = [\<lparr>flt_prog = 16, flt_mode = SECCOMP_MODE_FILTER, flt_flags = SECCOMP_FILTER_LOG\<rparr>,
       \<lparr>flt_prog = 2, flt_mode = SECCOMP_MODE_FILTER, flt_flags = SECCOMP_FILTER_LOG\<rparr>]\<rparr>"

definition ret_prog :: "u32 \<Rightarrow> bpf_insn list" where
  "ret_prog r = [BPF_STMT (BPF_RET OR BPF_K) r]"

definition empty_stats :: seccomp_stats where
  "empty_stats = \<lparr>total_checks = 0, allowed = 0, denied = 0, killed = 0, logged = 0\<rparr>"

definition demo_kernel :: seccomp where
  "demo_kernel = seccomp_init \<lparr>progs = [16 \<mapsto> \<lparr>prog_insns = ret_prog SECCOMP_RET_LOG, prog_flags = 0, prog_refs = 1\<rparr>,
       2 \<mapsto> \<lparr>prog_insns = ret_prog (SECCOMP_RET_ERRNO OR 13), prog_flags = 0, prog_refs = 1\<rparr>,
       3 \<mapsto> \<lparr>prog_insns = ret_prog SECCOMP_RET_KILL, prog_flags = 0, prog_refs = 1\<rparr>,
       4 \<mapsto> \<lparr>prog_insns = ret_prog 0x80000000, prog_flags = 0, prog_refs = 1\<rparr>],
     global_stats = empty_stats, audit_log = [], audit_log_index = 0\<rparr>"

lemma run_ret_prog [simp]: "bpf_prog_run (ret_prog r) d = Some r"
  by (simp add: ret_prog_def bpf_prog_run_def exec_ret)

lemma run_demo:
  "run_filter demo_kernel d \<lparr>flt_prog = 16, flt_mode = m, flt_flags = f\<rparr> = Some SECCOMP_RET_LOG"
  "run_filter demo_kernel d \<lparr>flt_prog = 2, flt_mode = m, flt_flags = f\<rparr> = Some (SECCOMP_RET_ERRNO OR 13)"
  "run_filter demo_kernel d \<lparr>flt_prog = 3, flt_mode = m, flt_flags = f\<rparr> = Some SECCOMP_RET_KILL"
  "run_filter demo_kernel d \<lparr>flt_prog = 4, flt_mode = m, flt_flags = f\<rparr> = Some 0x80000000"
  by (simp_all add: run_filter_def demo_kernel_def seccomp_init_def)




section \<open>The built-in profiles\<close>

text \<open>The table a profile implements: the first matching number, or the default.\<close>

definition table_prog :: "(u32 \<times> u32) list \<Rightarrow> u32 \<Rightarrow> bpf_insn list" where
  "table_prog rows dflt = profile_head @ concat (map (\<lambda>(nr, ret). profile_case nr ret) rows) @
     [BPF_STMT (BPF_RET OR BPF_K) dflt]"

definition table_lookup :: "(u32 \<times> u32) list \<Rightarrow> u32 \<Rightarrow> u32 \<Rightarrow> u32" where
  "table_lookup rows dflt nr = (case map_of rows nr of Some r \<Rightarrow> r | None \<Rightarrow> dflt)"

lemma exec_table:
  assumes "insns = pre @ concat (map (\<lambda>(nr, ret). profile_case nr ret) rows) @ [BPF_STMT (BPF_RET OR BPF_K) dflt]"
    and "it + length rows < m"
  shows "bpf_exec insns bytes m (length pre) A X it = Some (table_lookup rows dflt A)"
  using assms
proof (induction rows arbitrary: pre it)
  case Nil
  then show ?case
    by (simp add: table_lookup_def exec_ret)
next
  case (Cons row rows)
  obtain nr ret where row: "row = (nr, ret)" by (cases row)
  let ?rest = "concat (map (\<lambda>(nr, ret). profile_case nr ret) rows) @ [BPF_STMT (BPF_RET OR BPF_K) dflt]"
  have insns: "insns = pre @ BPF_JUMP (BPF_JMP OR BPF_JEQ OR BPF_K) nr 0 1 # BPF_STMT (BPF_RET OR BPF_K) ret # ?rest"
    using Cons.prems(1) by (simp add: row profile_case_def)
  have jump: "bpf_exec insns bytes m (length pre) A X it =
      bpf_exec insns bytes m (length pre + (unat (if A = nr then 0 else 1 :: u8) + 1)) A X (it + 1)"
    by (rule exec_jeq) (use insns Cons.prems(2) in simp_all)
  show ?case
  proof (cases "A = nr")
    case True
    have "bpf_exec insns bytes m (length pre + 1) A X (it + 1) = Some ret"
      by (rule exec_ret) (use insns Cons.prems(2) in \<open>simp_all add: nth_append\<close>)
    with jump True show ?thesis by (simp add: table_lookup_def row)
  next
    case False
    let ?pre = "pre @ [BPF_JUMP (BPF_JMP OR BPF_JEQ OR BPF_K) nr 0 1, BPF_STMT (BPF_RET OR BPF_K) ret]"
    have "bpf_exec insns bytes m (length ?pre) A X (it + 1) = Some (table_lookup rows dflt A)"
      by (rule Cons.IH) (use insns Cons.prems(2) in simp_all)
    with jump False show ?thesis by (simp add: table_lookup_def row)
  qed
qed

lemma run_table:
  assumes "length rows \<le> 100"
  shows "bpf_prog_run (table_prog rows dflt) d =
    Some (if sd_arch d = AUDIT_ARCH_X86_64 then table_lookup rows dflt (sd_nr d) else SECCOMP_RET_KILL)"
proof -
  let ?p = "table_prog rows dflt" and ?b = "seccomp_bytes d"
  let ?m = "unat (of_nat (length (table_prog rows dflt)) * 10 :: u32)"
  have "length (concat (map (\<lambda>(nr, ret). profile_case nr ret) rows)) = 2 * length rows" for rows :: "(u32 \<times> u32) list"
    by (induction rows) (auto simp: profile_case_def)
  then have len: "length ?p = 2 * length rows + 5"
    by (simp add: table_prog_def profile_head_def)
  have m: "?m = 20 * length rows + 50"
    using assms unfolding len by (simp add: unat_word_ariths unsigned_of_nat take_bit_eq_mod)
  have head: "length profile_head = 4" by (simp add: profile_head_def)
  have nth: "?p ! 0 = BPF_STMT (BPF_LD OR BPF_W OR BPF_ABS) offsetof_arch"
    "?p ! 1 = BPF_JUMP (BPF_JMP OR BPF_JEQ OR BPF_K) AUDIT_ARCH_X86_64 1 0"
    "?p ! 2 = BPF_STMT (BPF_RET OR BPF_K) SECCOMP_RET_KILL"
    "?p ! 3 = BPF_STMT (BPF_LD OR BPF_W OR BPF_ABS) offsetof_nr"
    by (simp_all add: table_prog_def profile_head_def)
  have "bpf_exec ?p ?b ?m 0 0 0 0 = bpf_exec ?p ?b ?m 1 (sd_arch d) 0 1"
    using exec_ld_abs [OF nth(1), of 0 ?m ?b "sd_arch d" 0 0] len m load_arch by simp
  also have "\<dots> = bpf_exec ?p ?b ?m (if sd_arch d = AUDIT_ARCH_X86_64 then 3 else 2) (sd_arch d) 0 2"
    using exec_jeq [OF nth(2), of 1 ?m ?b "sd_arch d" 0] len m
    by (cases "sd_arch d = AUDIT_ARCH_X86_64") (simp_all del: One_nat_def)
  finally have start: "bpf_prog_run ?p d =
      bpf_exec ?p ?b ?m (if sd_arch d = AUDIT_ARCH_X86_64 then 3 else 2) (sd_arch d) 0 2"
    by (simp add: bpf_prog_run_def)
  show ?thesis
  proof (cases "sd_arch d = AUDIT_ARCH_X86_64")
    case True
    have "bpf_exec ?p ?b ?m 3 (sd_arch d) 0 2 = bpf_exec ?p ?b ?m (length profile_head) (sd_nr d) 0 3"
      using exec_ld_abs [OF nth(4), of 2 ?m ?b "sd_nr d" "sd_arch d" 0] len m load_nr head
      by simp
    also have "\<dots> = Some (table_lookup rows dflt (sd_nr d))"
      by (rule exec_table [where rows = rows]) (simp add: table_prog_def, simp only: m)
    finally show ?thesis using True start by simp
  next
    case False
    then show ?thesis
      using start exec_ret [OF nth(3), of 2 ?m ?b "sd_arch d" 0] len m by simp
  qed
qed

text \<open>What the instruction lists of the four profiles say about a syscall number.\<close>

definition profile_verdict :: "u32 \<Rightarrow> u32 \<Rightarrow> u32" where
  "profile_verdict profile_id nr =
     (if profile_id = 1 then if nr \<in> {0, 2, 3} then SECCOMP_RET_ALLOW else SECCOMP_RET_KILL
      else if profile_id = 2 then
        if nr = 7 then SECCOMP_RET_KILL else if nr = 1 then SECCOMP_RET_ERRNO OR 1 else SECCOMP_RET_ALLOW
      else if profile_id = 3 then if nr = 7 then SECCOMP_RET_KILL else SECCOMP_RET_ALLOW
      else if nr \<in> {0, 2, 3, 8} then SECCOMP_RET_ALLOW else SECCOMP_RET_KILL)"

lemma profile_tables:
  "profile_strict = table_prog [(2, SECCOMP_RET_ALLOW), (3, SECCOMP_RET_ALLOW), (0, SECCOMP_RET_ALLOW)] SECCOMP_RET_KILL"
  "profile_browser = table_prog [(7, SECCOMP_RET_KILL), (1, SECCOMP_RET_ERRNO OR 1)] SECCOMP_RET_ALLOW"
  "profile_network = table_prog [(7, SECCOMP_RET_KILL)] SECCOMP_RET_ALLOW"
  "profile_untrusted = table_prog [(2, SECCOMP_RET_ALLOW), (3, SECCOMP_RET_ALLOW), (0, SECCOMP_RET_ALLOW),
     (8, SECCOMP_RET_ALLOW)] SECCOMP_RET_KILL"
  by (simp_all add: table_prog_def profile_strict_def profile_browser_def profile_network_def profile_untrusted_def)

lemma run_profile:
  assumes "profile_insns i = Some insns" and "sd_arch d = AUDIT_ARCH_X86_64"
  shows "bpf_prog_run insns d = Some (profile_verdict i (sd_nr d))"
  using assms
  by (auto simp: profile_insns_def profile_tables run_table table_lookup_def profile_verdict_def split: if_splits)

lemma validate_profile:
  assumes "profile_insns i = Some insns"
  shows "bpf_prog_validate insns = 0" and "insns \<noteq> []" and "length insns \<le> MAX_BPF_INSNS"
proof -
  have v: "bpf_prog_validate profile_strict = 0" "bpf_prog_validate profile_browser = 0"
    "bpf_prog_validate profile_network = 0" "bpf_prog_validate profile_untrusted = 0"
    by code_simp+
  have l: "length profile_strict \<le> MAX_BPF_INSNS" "length profile_browser \<le> MAX_BPF_INSNS"
    "length profile_network \<le> MAX_BPF_INSNS" "length profile_untrusted \<le> MAX_BPF_INSNS"
    by code_simp+
  show "bpf_prog_validate insns = 0" "length insns \<le> MAX_BPF_INSNS"
    using assms v l by (auto simp: profile_insns_def split: if_splits)
  then show "insns \<noteq> []" by (simp add: validate_iff)
qed

text \<open>
  C30: loading one of the four profiles the kernel knows on a process without filters
  succeeds when memory is available, and from then on every syscall gets exactly the verdict
  written in the profile's instruction list. Strict permits exit, read and write and kills
  the rest; browser kills execve, answers fork with errno 1 and allows the rest; network
  kills execve and allows the rest, fork included; untrusted permits exit, read, write and
  getpid and kills the rest. Every other profile number is refused and changes nothing.
\<close>

theorem profile_enforced:
  shows "(i \<in> {1, 2, 3, 4} \<and> seccomp_chain proc = [] \<longrightarrow>
      (\<exists>proc' k'. seccomp_load_profile (Some p) True True i proc k = (0, proc', k') \<and>
        fst (seccomp_check_syscall tsc proc' nr args ip k') = Some
          (if i = 1 then if nr \<in> {0, 2, 3} then SECCOMP_RET_ALLOW else SECCOMP_RET_KILL
           else if i = 2 then if nr = 7 then SECCOMP_RET_KILL else if nr = 1 then SECCOMP_RET_ERRNO OR 1 else SECCOMP_RET_ALLOW
           else if i = 3 then if nr = 7 then SECCOMP_RET_KILL else SECCOMP_RET_ALLOW
           else if nr \<in> {0, 2, 3, 8} then SECCOMP_RET_ALLOW else SECCOMP_RET_KILL))) \<and>
    (i \<notin> {1, 2, 3, 4} \<longrightarrow> seccomp_load_profile obj arr mem i proc k = (EINVAL, proc, k))"
    (is "(_ \<longrightarrow> ?enforced) \<and> _")
proof (intro conjI impI)
  assume *: "i \<in> {1, 2, 3, 4} \<and> seccomp_chain proc = []"
  obtain insns where insns: "profile_insns i = Some insns"
    using * by (auto simp: profile_insns_def)
  note v = validate_profile [OF insns]
  let ?f = "\<lparr>flt_prog = p, flt_mode = SECCOMP_MODE_FILTER,
    flt_flags = SECCOMP_FILTER_STRICT OR SECCOMP_FILTER_LOG\<rparr>"
  let ?proc = "proc\<lparr>seccomp_chain := [?f], seccomp_mode := SECCOMP_MODE_FILTER\<rparr>"
  let ?k = "k\<lparr>progs := (progs k)(p := Some \<lparr>prog_insns = insns, prog_flags = 0, prog_refs = 2\<rparr>)\<rparr>"
  have load: "seccomp_load_profile (Some p) True True i proc k = (0, ?proc, ?k)"
    using insns v *
    by (simp add: seccomp_load_profile_def bpf_prog_create_def seccomp_install_filter_def)
  have "run_filter ?k (filter_input nr args ip) ?f = Some (profile_verdict i nr)"
    using run_profile [OF insns, of "filter_input nr args ip"] by (simp add: run_filter_def filter_input_def)
  then have "fst (seccomp_check_syscall tsc ?proc nr args ip ?k) = Some (stricter (profile_verdict i nr) SECCOMP_RET_ALLOW)"
    by (subst check_filter_mode) (simp_all add: stricter_def action_of_def)
  moreover have "stricter (profile_verdict i nr) SECCOMP_RET_ALLOW = profile_verdict i nr"
    by (simp add: profile_verdict_def stricter_def action_of_def bpf_simps)
  ultimately show ?enforced
    unfolding profile_verdict_def [symmetric] using load by simp
qed (simp add: seccomp_load_profile_def profile_insns_def)

definition fresh_proc :: sproc where
  "fresh_proc = \<lparr>sp_pid = 9, sp_rip = 0, seccomp_mode = SECCOMP_MODE_DISABLED, seccomp_chain = []\<rparr>"

theorem profile_enforced_witness:
  "seccomp_chain fresh_proc = [] \<and>
   (\<exists>proc' k'. seccomp_load_profile (Some 9) True True 3 fresh_proc demo_kernel = (0, proc', k') \<and>
     fst (seccomp_check_syscall 0 proc' 1 [] 0 k') = Some SECCOMP_RET_ALLOW) \<and>
   seccomp_load_profile (Some 9) True True 5 fresh_proc demo_kernel = (EINVAL, fresh_proc, demo_kernel)"
  using profile_enforced [of 3 fresh_proc 9 demo_kernel 0 1 "[]" 0]
    profile_enforced [of 5 fresh_proc 9 demo_kernel 0 1 "[]" 0 "Some 9" True True]
  by (simp add: fresh_proc_def)

section \<open>The dispatcher's hook\<close>

lemma data_bound: "uint (r AND SECCOMP_RET_DATA_MASK) \<le> 65535"
proof -
  have "r AND SECCOMP_RET_DATA_MASK \<le> SECCOMP_RET_DATA_MASK" by (rule word_and_le1)
  then show ?thesis by (simp add: word_le_def bpf_simps)
qed

text \<open>
  C31: the hook's answer, for every process, syscall and kernel state: permission (0) exactly
  when no policy is active (no process, mode neither strict nor filter, or filter mode
  without filters) or the verdict's action is ALLOW or LOG; otherwise a negative number
  between -65535 and -1, which is the filter's errno if the action is ERRNO with a non-zero
  value, and -EPERM in all other cases.
\<close>

theorem seccomp_check_verdict:
  assumes "fst (seccomp_check tsc cur nr args k) = Some v"
  shows "(\<exists>proc r. cur = Some proc \<and>
      (seccomp_mode proc = SECCOMP_MODE_STRICT \<or>
       seccomp_mode proc = SECCOMP_MODE_FILTER \<and> seccomp_chain proc \<noteq> []) \<and>
      fst (seccomp_check_syscall tsc proc (ucast nr) args (sp_rip proc) k) = Some r \<and>
      (v = 0 \<longleftrightarrow> action_of r = SECCOMP_RET_ALLOW \<or> action_of r = SECCOMP_RET_LOG) \<and>
      (action_of r = SECCOMP_RET_ERRNO \<and> r AND SECCOMP_RET_DATA_MASK \<noteq> 0 \<longrightarrow>
         v = - uint (r AND SECCOMP_RET_DATA_MASK)) \<and>
      (v \<noteq> 0 \<and> \<not> (action_of r = SECCOMP_RET_ERRNO \<and> r AND SECCOMP_RET_DATA_MASK \<noteq> 0) \<longrightarrow> v = EPERM) \<and>
      (v = 0 \<or> - 65535 \<le> v \<and> v \<le> - 1)) \<or>
    v = 0 \<and> (case cur of None \<Rightarrow> True | Some proc \<Rightarrow>
      seccomp_mode proc \<noteq> SECCOMP_MODE_STRICT \<and>
      (seccomp_mode proc = SECCOMP_MODE_FILTER \<longrightarrow> seccomp_chain proc = []))"
proof (cases cur)
  case None
  with assms show ?thesis by (simp add: seccomp_check_def)
next
  case (Some proc)
  show ?thesis
  proof (cases "seccomp_mode proc = SECCOMP_MODE_STRICT \<or>
      seccomp_mode proc = SECCOMP_MODE_FILTER \<and> seccomp_chain proc \<noteq> []")
    case False
    with Some assms show ?thesis
      by (auto simp: seccomp_check_def Let_def bpf_simps split: if_splits)
  next
    case active: True
    obtain o1 k1 where c: "seccomp_check_syscall tsc proc (ucast nr) args (sp_rip proc) k = (o1, k1)"
      by (meson surj_pair)
    from active Some assms c obtain r where r: "o1 = Some r"
      by (cases o1) (auto simp: seccomp_check_def Let_def bpf_simps)
    have data: "uint (r AND SECCOMP_RET_DATA_MASK) \<le> 65535"
      by (simp add: data_bound)
    have pos: "r AND SECCOMP_RET_DATA_MASK \<noteq> 0 \<Longrightarrow> 1 \<le> uint (r AND SECCOMP_RET_DATA_MASK)"
      using unsigned_greater_eq [of "r AND SECCOMP_RET_DATA_MASK", where 'a = int]
      by (metis int_one_le_iff_zero_less order_le_less uint_0_iff)
    have "fst (seccomp_check tsc cur nr args k) = Some
        (if action_of r = SECCOMP_RET_ALLOW \<or> action_of r = SECCOMP_RET_LOG then 0
         else if action_of r = SECCOMP_RET_ERRNO \<and> r AND SECCOMP_RET_DATA_MASK \<noteq> 0
         then - uint (r AND SECCOMP_RET_DATA_MASK) else EPERM)"
      using active Some c r by (auto simp: seccomp_check_def Let_def action_of_def bpf_simps)
    with assms have v: "v = (if action_of r = SECCOMP_RET_ALLOW \<or> action_of r = SECCOMP_RET_LOG then 0
         else if action_of r = SECCOMP_RET_ERRNO \<and> r AND SECCOMP_RET_DATA_MASK \<noteq> 0
         then - uint (r AND SECCOMP_RET_DATA_MASK) else EPERM)" by simp
    have "SECCOMP_RET_ERRNO \<noteq> SECCOMP_RET_ALLOW" "SECCOMP_RET_ERRNO \<noteq> SECCOMP_RET_LOG" "EPERM = -1"
      by (simp_all add: bpf_simps errno_simps)
    then have "(v = 0 \<longleftrightarrow> action_of r = SECCOMP_RET_ALLOW \<or> action_of r = SECCOMP_RET_LOG) \<and>
      (action_of r = SECCOMP_RET_ERRNO \<and> r AND SECCOMP_RET_DATA_MASK \<noteq> 0 \<longrightarrow>
         v = - uint (r AND SECCOMP_RET_DATA_MASK)) \<and>
      (v \<noteq> 0 \<and> \<not> (action_of r = SECCOMP_RET_ERRNO \<and> r AND SECCOMP_RET_DATA_MASK \<noteq> 0) \<longrightarrow> v = EPERM) \<and>
      (v = 0 \<or> - 65535 \<le> v \<and> v \<le> - 1)"
      using v data pos by auto
    then show ?thesis
      using active Some c r by auto
  qed
qed

theorem seccomp_check_verdict_witness:
  "fst (seccomp_check 0 (Some two_layers) 4 (replicate 6 0) demo_kernel) = Some (- 13)"
proof -
  have c: "fst (seccomp_check_syscall 0 two_layers (ucast (4::u64)) (replicate 6 0) (sp_rip two_layers) demo_kernel)
      = Some (SECCOMP_RET_ERRNO OR 13)"
    by (subst check_filter_mode) (simp_all add: two_layers_def run_demo bpf_simps)
  then obtain v where v: "fst (seccomp_check 0 (Some two_layers) 4 (replicate 6 0) demo_kernel) = Some v"
    by (cases "seccomp_check_syscall 0 two_layers (ucast (4::u64)) (replicate 6 0) (sp_rip two_layers) demo_kernel")
      (auto simp: seccomp_check_def Let_def two_layers_def bpf_simps)
  from seccomp_check_verdict [OF v] v c show ?thesis
    by (auto simp: two_layers_def action_of_def bpf_simps)
qed

text \<open>
  C32: a verdict can only fall below ALLOW (0x7fff0000), so a filter result whose action is
  numerically above it (such as 0x80000000, the kill-process action of other kernels) is
  ignored: when every filter returns such a value the hook permits the syscall.
\<close>

theorem high_action_permits:
  assumes "seccomp_mode proc = SECCOMP_MODE_FILTER" and "seccomp_chain proc \<noteq> []"
    and "those (map (run_filter k (filter_input (ucast nr) args (sp_rip proc))) (seccomp_chain proc)) = Some rs"
    and "\<forall>r \<in> set rs. SECCOMP_RET_ALLOW \<le> action_of r"
  shows "fst (seccomp_check tsc (Some proc) nr args k) = Some 0"
proof -
  have allow: "action_of SECCOMP_RET_ALLOW = SECCOMP_RET_ALLOW"
    by (simp add: action_of_def bpf_simps)
  have "fold stricter rs SECCOMP_RET_ALLOW = SECCOMP_RET_ALLOW"
    using assms(4) by (induction rs) (auto simp: stricter_def allow)
  then have "fst (seccomp_check_syscall tsc proc (ucast nr) args (sp_rip proc) k) = Some SECCOMP_RET_ALLOW"
    using check_filter_mode [OF assms(1,2)] run_chain_fold [OF assms(3)] by simp
  then show ?thesis
    using assms(1,2)
    by (cases "seccomp_check_syscall tsc proc (ucast nr) args (sp_rip proc) k")
      (auto simp: seccomp_check_def Let_def bpf_simps)
qed

definition kill_process_filter :: sproc where
  "kill_process_filter = \<lparr>sp_pid = 8, sp_rip = 0, seccomp_mode = SECCOMP_MODE_FILTER,
     seccomp_chain = [\<lparr>flt_prog = 4, flt_mode = SECCOMP_MODE_FILTER, flt_flags = SECCOMP_FILTER_STRICT\<rparr>]\<rparr>"

theorem high_action_permits_witness:
  "fst (seccomp_check 0 (Some kill_process_filter) 7 [] demo_kernel) = Some 0"
  by (rule high_action_permits [where rs = "[0x80000000]"])
    (simp_all add: kill_process_filter_def run_demo action_of_def bpf_simps)

text \<open>
  C33: the strict-mode request replaces the mode and keeps no other policy: afterwards read,
  write and exit are permitted whatever the filters installed before say about them.
\<close>

theorem strict_mode_drops_filters:
  assumes "ucast nr \<in> {SYS_READ, SYS_WRITE, SYS_EXIT}"
  shows "fst (sys_seccomp 0 flags u (Some proc) k) = 0 \<and>
    fst (seccomp_check tsc (fst (snd (sys_seccomp 0 flags u (Some proc) k))) nr args
      (snd (snd (sys_seccomp 0 flags u (Some proc) k)))) = Some 0"
  using assms
  by (auto simp: sys_seccomp_def seccomp_check_def seccomp_check_syscall_def count_allowed_def Let_def bpf_simps)

definition kill_all :: sproc where
  "kill_all = \<lparr>sp_pid = 8, sp_rip = 0, seccomp_mode = SECCOMP_MODE_FILTER,
     seccomp_chain = [\<lparr>flt_prog = 3, flt_mode = SECCOMP_MODE_FILTER, flt_flags = SECCOMP_FILTER_STRICT\<rparr>]\<rparr>"

definition no_user_env :: user_env where
  "no_user_env = \<lparr>ue_fprog = None, ue_insn = (\<lambda>_. None), ue_kinsns = False, ue_obj = None,
     ue_arr = False, ue_filter = False\<rparr>"

lemma kill_all_denies: "fst (seccomp_check_syscall 0 kill_all 3 [] 0 demo_kernel) = Some SECCOMP_RET_KILL"
  by (subst check_filter_mode) (simp_all add: kill_all_def run_demo bpf_simps)

theorem strict_mode_drops_filters_witness:
  "fst (seccomp_check_syscall 0 kill_all 3 [] 0 demo_kernel) = Some SECCOMP_RET_KILL \<and>
   fst (seccomp_check 0 (fst (snd (sys_seccomp 0 0 no_user_env (Some kill_all) demo_kernel))) 3 []
      (snd (snd (sys_seccomp 0 0 no_user_env (Some kill_all) demo_kernel)))) = Some 0"
  using strict_mode_drops_filters [of 3 0 no_user_env kill_all demo_kernel 0 "[]"] kill_all_denies
  by (simp add: bpf_simps)





section \<open>The audit ring\<close>

record audit_event =
  ev_tsc :: u64
  ev_proc :: sproc
  ev_nr :: u32
  ev_action :: u32
  ev_args :: "u64 list"
  ev_ip :: u64

definition log_event :: "audit_event \<Rightarrow> seccomp \<Rightarrow> seccomp" where
  "log_event e = seccomp_audit_log (ev_tsc e) (ev_proc e) (ev_nr e) (ev_action e) (ev_args e) (ev_ip e)"

definition event_entry :: "audit_event \<Rightarrow> seccomp_audit_entry" where
  "event_entry e = \<lparr>ae_timestamp = ev_tsc e, ae_pid = sp_pid (ev_proc e), ae_syscall_nr = ev_nr e,
     ae_action = ev_action e, ae_args = ev_args e, ae_ip = ev_ip e\<rparr>"

lemma log_event_effect:
  "audit_log (log_event e s) = (audit_log s)[audit_log_index s := event_entry e]"
  "audit_log_index (log_event e s) = Suc (audit_log_index s) mod AUDIT_LOG_SIZE"
  by (simp_all add: log_event_def seccomp_audit_log_def event_entry_def Let_def)

lemma audit_ring:
  "let s = fold log_event es (seccomp_init k) in
     length (audit_log s) = AUDIT_LOG_SIZE \<and> audit_log_index s = length es mod AUDIT_LOG_SIZE \<and>
     (\<forall>i < length es. length es \<le> i + AUDIT_LOG_SIZE \<longrightarrow>
        audit_log s ! (i mod AUDIT_LOG_SIZE) = event_entry (es ! i))"
proof (induction es rule: rev_induct)
  case Nil
  show ?case by (simp add: seccomp_init_def AUDIT_LOG_SIZE_def)
next
  case (snoc e es)
  let ?s = "fold log_event es (seccomp_init k)" and ?n = "length es"
  have pos: "0 < AUDIT_LOG_SIZE" by (simp add: AUDIT_LOG_SIZE_def)
  have s: "audit_log (log_event e ?s) = (audit_log ?s)[?n mod AUDIT_LOG_SIZE := event_entry e]"
    "audit_log_index (log_event e ?s) = Suc ?n mod AUDIT_LOG_SIZE" "length (audit_log ?s) = AUDIT_LOG_SIZE"
    using snoc.IH by (simp_all add: log_event_effect Let_def mod_Suc_eq)
  have "audit_log (log_event e ?s) ! (i mod AUDIT_LOG_SIZE) = event_entry ((es @ [e]) ! i)"
    if "i < Suc ?n" "Suc ?n \<le> i + AUDIT_LOG_SIZE" for i
  proof (cases "i = ?n")
    case True
    then show ?thesis using s pos by (simp add: nth_append)
  next
    case False
    with that have "i < ?n" "?n < i + AUDIT_LOG_SIZE" by simp_all
    then have "i mod AUDIT_LOG_SIZE \<noteq> ?n mod AUDIT_LOG_SIZE"
      using mod_eq_dvd_iff_nat [of i ?n AUDIT_LOG_SIZE] nat_dvd_not_less [of "?n - i" AUDIT_LOG_SIZE] by auto
    then show ?thesis using s(1) snoc.IH \<open>i < ?n\<close> that(2) by (simp add: nth_append Let_def)
  qed
  with s show ?case by (simp add: Let_def)
qed

text \<open>
  C35: the audit log is a ring of 1024 entries: after any number of logged denials each of
  the most recent 1024 is at its index modulo 1024. The reported number of entries, however,
  is the write index, so it is the number of denials modulo 1024: after exactly 1024 of them
  the full log is reported as empty.
\<close>

theorem audit_log_ring:
  "length (snd (seccomp_get_audit_log (fold log_event es (seccomp_init k)))) = AUDIT_LOG_SIZE \<and>
   (\<forall>i. i < length es \<and> length es \<le> i + AUDIT_LOG_SIZE \<longrightarrow>
      snd (seccomp_get_audit_log (fold log_event es (seccomp_init k))) ! (i mod AUDIT_LOG_SIZE) = event_entry (es ! i)) \<and>
   fst (seccomp_get_audit_log (fold log_event es (seccomp_init k))) = length es mod AUDIT_LOG_SIZE"
  using audit_ring [of es k] by (auto simp: Let_def seccomp_get_audit_log_def AUDIT_LOG_SIZE_def)

definition demo_event :: audit_event where
  "demo_event = \<lparr>ev_tsc = 5, ev_proc = fresh_proc, ev_nr = 7, ev_action = SECCOMP_RET_KILL,
     ev_args = replicate 6 0, ev_ip = 0\<rparr>"

theorem audit_log_ring_witness:
  "fst (seccomp_get_audit_log (fold log_event (replicate 1024 demo_event) (seccomp_init demo_kernel))) = 0 \<and>
   snd (seccomp_get_audit_log (fold log_event (replicate 1024 demo_event) (seccomp_init demo_kernel))) ! 5 =
     event_entry demo_event"
proof -
  let ?es = "replicate 1024 demo_event"
  have "length ?es = 1024" "?es ! 5 = demo_event" by (simp_all only: length_replicate nth_replicate)
  then show ?thesis
    using audit_log_ring [of ?es demo_kernel]
    by (auto simp: AUDIT_LOG_SIZE_def dest!: spec [of _ 5])
qed

end
