(* ===== verification/Capability.thy ===== *)
theory Capability
  imports Kernel_Prelude
begin

unbundle bit_operations_syntax

text \<open>
  The capability system of \<^verbatim>\<open>kernel/core/capability\<close>: capabilities, capability sets, and
  every operation on them (\<^verbatim>\<open>cap_table.c\<close>, \<^verbatim>\<open>cap_grant.c\<close>, \<^verbatim>\<open>cap_inherit.c\<close>).

  A set's linked list is a list, head first. The union of type-specific data is a datatype
  with one constructor per member and one for a zero-filled union; an accessor reads its
  own member, and zeros elsewhere (\<open>cap_typed\<close> of the properties states that the code keeps
  member and type together). C strings are character lists without the terminator. The
  n-th \<^verbatim>\<open>kmalloc\<close> of a call succeeds if \<open>mem n\<close>; freeing memory has no other effect than
  unlinking. \<open>gen\<close> is the global generation counter. Console output and the audit stub,
  which only prints, are not modelled.
\<close>

section \<open>Data\<close>

datatype cap_data =
    CapZero
  | CapFile string
  | CapNet string u16 u16
  | CapDevice u32 string
  | CapIpc u32

record capability =
  cap_type :: nat
  cap_flags :: u64
  cap_refs :: u32
  cap_data :: cap_data

record cap_set =
  caps :: "capability list"
  cap_count :: u32
  cap_bitmask :: u64
  cap_generation :: u32

definition CAP_NONE :: nat where "CAP_NONE = 0"
definition CAP_FILE_READ :: nat where "CAP_FILE_READ = 1"
definition CAP_FILE_WRITE :: nat where "CAP_FILE_WRITE = 2"
definition CAP_FILE_EXECUTE :: nat where "CAP_FILE_EXECUTE = 3"
definition CAP_FILE_CREATE :: nat where "CAP_FILE_CREATE = 4"
definition CAP_FILE_DELETE :: nat where "CAP_FILE_DELETE = 5"
definition CAP_FILE_CHMOD :: nat where "CAP_FILE_CHMOD = 7"
definition CAP_NET_BIND :: nat where "CAP_NET_BIND = 10"
definition CAP_NET_CONNECT :: nat where "CAP_NET_CONNECT = 11"
definition CAP_NET_LISTEN :: nat where "CAP_NET_LISTEN = 13"
definition CAP_DEVICE_ACCESS :: nat where "CAP_DEVICE_ACCESS = 20"
definition CAP_GPU :: nat where "CAP_GPU = 21"
definition CAP_AUDIO :: nat where "CAP_AUDIO = 22"
definition CAP_USB :: nat where "CAP_USB = 23"
definition CAP_SERIAL :: nat where "CAP_SERIAL = 24"
definition CAP_IPC :: nat where "CAP_IPC = 30"
definition CAP_IPC_BROADCAST :: nat where "CAP_IPC_BROADCAST = 31"
definition CAP_IPC_RECEIVE :: nat where "CAP_IPC_RECEIVE = 32"
definition CAP_SYS_ADMIN :: nat where "CAP_SYS_ADMIN = 40"
definition CAP_SYS_MODULE :: nat where "CAP_SYS_MODULE = 41"
definition CAP_SYS_TIME :: nat where "CAP_SYS_TIME = 42"
definition CAP_SYS_BOOT :: nat where "CAP_SYS_BOOT = 43"
definition CAP_SYS_PTRACE :: nat where "CAP_SYS_PTRACE = 44"
definition CAP_PROCESS_KILL :: nat where "CAP_PROCESS_KILL = 50"
definition CAP_PROCESS_SETUID :: nat where "CAP_PROCESS_SETUID = 52"
definition CAP_PROCESS_SETGID :: nat where "CAP_PROCESS_SETGID = 53"

definition CAP_FLAG_INHERITABLE :: u64 where "CAP_FLAG_INHERITABLE = 1"
definition CAP_FLAG_DELEGATABLE :: u64 where "CAP_FLAG_DELEGATABLE = 2"
definition CAP_FLAG_PERMANENT :: u64 where "CAP_FLAG_PERMANENT = 4"

definition CAP_SUCCESS :: int where "CAP_SUCCESS = 0"
definition CAP_ENOMEM :: int where "CAP_ENOMEM = -2"
definition CAP_EINVAL :: int where "CAP_EINVAL = -3"
definition CAP_EPERM :: int where "CAP_EPERM = -4"
definition CAP_ENOTFOUND :: int where "CAP_ENOTFOUND = -5"
definition CAP_EDUP :: int where "CAP_EDUP = -6"

lemmas cap_types [cap_simps] = CAP_NONE_def CAP_FILE_READ_def CAP_FILE_WRITE_def CAP_FILE_EXECUTE_def
  CAP_FILE_CREATE_def CAP_FILE_DELETE_def CAP_FILE_CHMOD_def CAP_NET_BIND_def CAP_NET_CONNECT_def
  CAP_NET_LISTEN_def CAP_DEVICE_ACCESS_def CAP_GPU_def CAP_AUDIO_def CAP_USB_def CAP_SERIAL_def
  CAP_IPC_def CAP_IPC_BROADCAST_def CAP_IPC_RECEIVE_def CAP_SYS_ADMIN_def CAP_SYS_MODULE_def
  CAP_SYS_TIME_def CAP_SYS_BOOT_def CAP_SYS_PTRACE_def CAP_PROCESS_KILL_def CAP_PROCESS_SETUID_def
  CAP_PROCESS_SETGID_def

lemmas cap_codes [cap_simps] = CAP_FLAG_INHERITABLE_def CAP_FLAG_DELEGATABLE_def CAP_FLAG_PERMANENT_def
  CAP_SUCCESS_def CAP_ENOMEM_def CAP_EINVAL_def CAP_EPERM_def CAP_ENOTFOUND_def CAP_EDUP_def

fun path_pattern :: "cap_data \<Rightarrow> string" where
  "path_pattern (CapFile p) = p"
| "path_pattern _ = []"

fun net_host :: "cap_data \<Rightarrow> string" where
  "net_host (CapNet h _ _) = h"
| "net_host _ = []"

fun net_port_min :: "cap_data \<Rightarrow> u16" where
  "net_port_min (CapNet _ p _) = p"
| "net_port_min _ = 0"

fun net_port_max :: "cap_data \<Rightarrow> u16" where
  "net_port_max (CapNet _ _ p) = p"
| "net_port_max _ = 0"

fun dev_id :: "cap_data \<Rightarrow> u32" where
  "dev_id (CapDevice d _) = d"
| "dev_id _ = 0"

fun ipc_pid :: "cap_data \<Rightarrow> u32" where
  "ipc_pid (CapIpc p) = p"
| "ipc_pid _ = 0"

definition is_file_type :: "nat \<Rightarrow> bool" where
  "is_file_type t \<longleftrightarrow> CAP_FILE_READ \<le> t \<and> t \<le> CAP_FILE_CHMOD"

definition is_net_type :: "nat \<Rightarrow> bool" where
  "is_net_type t \<longleftrightarrow> CAP_NET_BIND \<le> t \<and> t \<le> CAP_NET_LISTEN"

section \<open>Creating capabilities\<close>

text \<open>\<^verbatim>\<open>strncpy\<close> into a zeroed buffer of \<open>n + 1\<close> bytes keeps the first \<open>n\<close> characters.\<close>

definition capability_create_file :: "bool \<Rightarrow> nat \<Rightarrow> string \<Rightarrow> u64 \<Rightarrow> capability option" where
  "capability_create_file mem t pattern flags =
     (if \<not> is_file_type t then None
      else if \<not> mem then None
      else Some \<lparr>cap_type = t, cap_flags = flags, cap_refs = 1, cap_data = CapFile (take 255 pattern)\<rparr>)"

definition capability_create_net :: "bool \<Rightarrow> nat \<Rightarrow> string \<Rightarrow> u16 \<Rightarrow> u16 \<Rightarrow> u64 \<Rightarrow> capability option" where
  "capability_create_net mem t host port_min port_max flags =
     (if \<not> is_net_type t then None
      else if \<not> mem then None
      else Some \<lparr>cap_type = t, cap_flags = flags, cap_refs = 1,
                  cap_data = CapNet (take 255 host) port_min port_max\<rparr>)"

definition capability_create_device :: "bool \<Rightarrow> u32 \<Rightarrow> string \<Rightarrow> u64 \<Rightarrow> capability option" where
  "capability_create_device mem device_id device_class flags =
     (if \<not> mem then None
      else Some \<lparr>cap_type = CAP_DEVICE_ACCESS, cap_flags = flags, cap_refs = 1,
                  cap_data = CapDevice device_id (take 31 device_class)\<rparr>)"

definition capability_create_ipc :: "bool \<Rightarrow> u32 \<Rightarrow> u64 \<Rightarrow> capability option" where
  "capability_create_ipc mem target_pid flags =
     (if \<not> mem then None
      else Some \<lparr>cap_type = CAP_IPC, cap_flags = flags, cap_refs = 1, cap_data = CapIpc target_pid\<rparr>)"

definition capability_create_simple :: "bool \<Rightarrow> nat \<Rightarrow> u64 \<Rightarrow> capability option" where
  "capability_create_simple mem t flags =
     (if \<not> mem then None
      else Some \<lparr>cap_type = t, cap_flags = flags, cap_refs = 1, cap_data = CapZero\<rparr>)"

text \<open>Drop one reference; the flag says whether the memory is freed.\<close>

definition capability_destroy :: "capability \<Rightarrow> capability \<times> bool" where
  "capability_destroy cap =
     (let refs = cap_refs cap - 1 in (cap\<lparr>cap_refs := refs\<rparr>, refs = 0))"

section \<open>Capability sets\<close>

definition capability_set_create :: "bool \<Rightarrow> u32 \<Rightarrow> cap_set option" where
  "capability_set_create mem gen =
     (if \<not> mem then None
      else Some \<lparr>caps = [], cap_count = 0, cap_bitmask = 0, cap_generation = gen\<rparr>)"

definition capability_set_refresh :: "u32 \<Rightarrow> cap_set \<Rightarrow> cap_set" where
  "capability_set_refresh gen cs =
     (if cap_generation cs < gen then cs\<lparr>cap_generation := gen\<rparr> else cs)"

text \<open>The duplicate test of \<^verbatim>\<open>capability_add\<close> against one existing capability.\<close>

definition cap_duplicate :: "capability \<Rightarrow> capability \<Rightarrow> bool" where
  "cap_duplicate existing cap \<longleftrightarrow> cap_type existing = cap_type cap \<and>
     (if is_file_type (cap_type existing)
      then path_pattern (cap_data existing) = path_pattern (cap_data cap)
      else if is_net_type (cap_type existing)
      then net_host (cap_data existing) = net_host (cap_data cap) \<and>
           net_port_min (cap_data existing) = net_port_min (cap_data cap) \<and>
           net_port_max (cap_data existing) = net_port_max (cap_data cap)
      else True)"

definition capability_add :: "capability \<Rightarrow> cap_set \<Rightarrow> int \<times> cap_set" where
  "capability_add cap cs =
     (if list_ex (\<lambda>existing. cap_duplicate existing cap) (caps cs) then (CAP_EDUP, cs)
      else (CAP_SUCCESS,
            cs\<lparr>caps := cap # caps cs, cap_count := cap_count cs + 1,
                cap_bitmask := (if cap_type cap < 64
                  then cap_bitmask cs OR push_bit (cap_type cap) 1 else cap_bitmask cs)\<rparr>))"

text \<open>
  The unlinking loop removes every node of the type and counts down; the mask bit is
  cleared and set again only if a node of the type is still there.
\<close>

definition capability_remove :: "nat \<Rightarrow> cap_set \<Rightarrow> int \<times> cap_set" where
  "capability_remove t cs =
     (let rest = filter (\<lambda>c. cap_type c \<noteq> t) (caps cs);
          removed = length (caps cs) - length rest
      in if removed = 0 then (CAP_ENOTFOUND, cs)
         else let cs' = cs\<lparr>caps := rest, cap_count := cap_count cs - of_nat removed\<rparr>
              in if t < 64
                 then let mask = cap_bitmask cs' AND NOT (push_bit t 1)
                      in (CAP_SUCCESS, cs'\<lparr>cap_bitmask :=
                           (if list_ex (\<lambda>c. cap_type c = t) rest then mask OR push_bit t 1 else mask)\<rparr>)
                 else (CAP_SUCCESS, cs'))"

definition capability_has :: "u32 \<Rightarrow> cap_set \<Rightarrow> nat \<Rightarrow> bool \<times> cap_set" where
  "capability_has gen cs t =
     (let cs = (if cap_generation cs < gen then capability_set_refresh gen cs else cs)
      in if t < 64 then (cap_bitmask cs AND push_bit t 1 \<noteq> 0, cs)
         else (list_ex (\<lambda>c. cap_type c = t) (caps cs), cs))"

text \<open>The copy loops of clone and inherit: the first failing allocation or insertion gives up.\<close>

fun copy_caps :: "(nat \<Rightarrow> bool) \<Rightarrow> nat \<Rightarrow> capability list \<Rightarrow> cap_set \<Rightarrow> cap_set option" where
  "copy_caps mem n [] cs = Some cs"
| "copy_caps mem n (cap # rest) cs =
     (if \<not> mem n then None
      else let (result, cs') = capability_add (cap\<lparr>cap_refs := 1\<rparr>) cs
           in if result \<noteq> CAP_SUCCESS then None else copy_caps mem (Suc n) rest cs')"

definition capability_set_clone :: "(nat \<Rightarrow> bool) \<Rightarrow> u32 \<Rightarrow> cap_set \<Rightarrow> cap_set option" where
  "capability_set_clone mem gen cs =
     (case capability_set_create (mem 0) gen of None \<Rightarrow> None
      | Some new_set \<Rightarrow> copy_caps mem 1 (caps cs) new_set)"

definition inheritable :: "u64 \<Rightarrow> capability \<Rightarrow> bool" where
  "inheritable inherit_mask cap \<longleftrightarrow> cap_flags cap AND CAP_FLAG_INHERITABLE \<noteq> 0 \<and>
     cap_type cap < 64 \<and> inherit_mask AND push_bit (cap_type cap) 1 \<noteq> 0"

definition capability_inherit :: "(nat \<Rightarrow> bool) \<Rightarrow> u32 \<Rightarrow> cap_set option \<Rightarrow> u64 \<Rightarrow> cap_set option" where
  "capability_inherit mem gen parent inherit_mask =
     (case parent of None \<Rightarrow> capability_set_create (mem 0) gen
      | Some cs \<Rightarrow>
          (case capability_set_create (mem 0) gen of None \<Rightarrow> None
           | Some child \<Rightarrow> copy_caps mem 1 (filter (inheritable inherit_mask) (caps cs)) child))"

section \<open>Granting, delegating, revoking\<close>

record cap_proc =
  cp_pid :: u32
  cp_caps :: "cap_set option"

definition capability_can_delegate :: "capability \<Rightarrow> bool" where
  "capability_can_delegate cap \<longleftrightarrow> cap_flags cap AND CAP_FLAG_DELEGATABLE \<noteq> 0"

definition proc_has :: "u32 \<Rightarrow> cap_proc \<Rightarrow> nat \<Rightarrow> bool" where
  "proc_has gen p t = (case cp_caps p of None \<Rightarrow> False | Some cs \<Rightarrow> fst (capability_has gen cs t))"

definition proc_add :: "capability \<Rightarrow> cap_proc \<Rightarrow> int \<times> cap_proc" where
  "proc_add cap p =
     (case cp_caps p of None \<Rightarrow> (CAP_EINVAL, p)
      | Some cs \<Rightarrow> (let (result, cs') = capability_add cap cs in (result, p\<lparr>cp_caps := Some cs'\<rparr>)))"

text \<open>The grantee after the call; \<open>granter\<close> only has its set's generation refreshed.\<close>

definition capability_grant :: "bool \<Rightarrow> u32 \<Rightarrow> cap_proc \<Rightarrow> cap_proc \<Rightarrow> capability \<Rightarrow> int \<times> cap_proc" where
  "capability_grant mem gen granter grantee cap =
     (if \<not> proc_has gen granter (cap_type cap) then (CAP_EPERM, grantee)
      else if \<not> capability_can_delegate cap then (CAP_EPERM, grantee)
      else if \<not> mem then (CAP_ENOMEM, grantee)
      else proc_add (cap\<lparr>cap_refs := 1\<rparr>) grantee)"

definition capability_revoke :: "u32 \<Rightarrow> cap_proc \<Rightarrow> nat \<Rightarrow> int \<times> cap_proc \<times> u32" where
  "capability_revoke gen p t =
     (case cp_caps p of None \<Rightarrow> (CAP_EINVAL, p, gen)
      | Some cs \<Rightarrow>
          (let (result, cs') = capability_remove t cs
           in (result, p\<lparr>cp_caps := Some cs'\<rparr>, if result = CAP_SUCCESS then gen + 1 else gen)))"

definition capability_revoke_all :: "bool \<Rightarrow> u32 \<Rightarrow> cap_proc \<Rightarrow> int \<times> cap_proc \<times> u32" where
  "capability_revoke_all mem gen p =
     (case cp_caps p of None \<Rightarrow> (CAP_EINVAL, p, gen)
      | Some cs \<Rightarrow> (CAP_SUCCESS, p\<lparr>cp_caps := capability_set_create mem gen\<rparr>, gen + 1))"

text \<open>
  \<^verbatim>\<open>strncmp(old, pattern, strlen(old))\<close> is zero exactly if \<open>pattern\<close> starts with \<open>old\<close>.
\<close>

definition capability_restrict :: "capability \<Rightarrow> string \<Rightarrow> int \<times> capability" where
  "capability_restrict cap pattern =
     (if cap_type cap < CAP_FILE_READ \<or> CAP_FILE_CHMOD < cap_type cap then (CAP_EINVAL, cap)
      else let old = path_pattern (cap_data cap)
           in if take (length old) pattern \<noteq> old then (CAP_EPERM, cap)
              else (CAP_SUCCESS, cap\<lparr>cap_data := CapFile (take 255 pattern)\<rparr>))"

text \<open>
  The first capability of the type decides. \<open>None\<close> is the null dereference of a granter
  without a set.
\<close>

definition capability_delegate ::
    "bool \<Rightarrow> cap_proc \<Rightarrow> cap_proc \<Rightarrow> nat \<Rightarrow> string option \<Rightarrow> (int \<times> cap_proc) option" where
  "capability_delegate mem granter grantee t constraint =
     (case cp_caps granter of None \<Rightarrow> None
      | Some cs \<Rightarrow> Some
          (case find (\<lambda>c. cap_type c = t) (caps cs) of
             None \<Rightarrow> (CAP_ENOTFOUND, grantee)
           | Some granter_cap \<Rightarrow>
               if cap_flags granter_cap AND CAP_FLAG_DELEGATABLE = 0 then (CAP_EPERM, grantee)
               else if \<not> mem then (CAP_ENOMEM, grantee)
               else let new_cap = granter_cap\<lparr>cap_refs := 1\<rparr>
                    in case constraint of
                         None \<Rightarrow> proc_add new_cap grantee
                       | Some pattern \<Rightarrow>
                           (if is_file_type t then
                              let (result, restricted) = capability_restrict new_cap pattern
                              in if result \<noteq> CAP_SUCCESS then (CAP_EPERM, grantee)
                                 else proc_add restricted grantee
                            else proc_add new_cap grantee)))"

definition capability_kernel_grant :: "cap_proc \<Rightarrow> capability \<Rightarrow> int \<times> cap_proc" where
  "capability_kernel_grant p cap = proc_add cap p"

definition capability_global_revoke :: "u32 \<Rightarrow> int \<times> u32" where
  "capability_global_revoke gen = (CAP_SUCCESS, gen + 1)"

definition capability_init :: u32 where
  "capability_init = 1"

section \<open>Standard sets\<close>

text \<open>The loops over a table of freshly created capabilities; failures are dropped.\<close>

fun add_created :: "capability option list \<Rightarrow> cap_set \<Rightarrow> cap_set" where
  "add_created [] cs = cs"
| "add_created (None # rest) cs = add_created rest cs"
| "add_created (Some cap # rest) cs = add_created rest (snd (capability_add cap cs))"

definition ALL_FLAGS :: u64 where
  "ALL_FLAGS = CAP_FLAG_PERMANENT OR CAP_FLAG_INHERITABLE OR CAP_FLAG_DELEGATABLE"

definition capability_create_init_set :: "(nat \<Rightarrow> bool) \<Rightarrow> u32 \<Rightarrow> cap_set option" where
  "capability_create_init_set mem gen =
     map_option (add_created
       [capability_create_file (mem 1) CAP_FILE_READ ''/*'' ALL_FLAGS,
        capability_create_file (mem 2) CAP_FILE_WRITE ''/*'' ALL_FLAGS,
        capability_create_file (mem 3) CAP_FILE_EXECUTE ''/*'' ALL_FLAGS,
        capability_create_file (mem 4) CAP_FILE_CREATE ''/*'' ALL_FLAGS,
        capability_create_file (mem 5) CAP_FILE_DELETE ''/*'' ALL_FLAGS,
        capability_create_net (mem 6) CAP_NET_BIND ''*'' 0 65535 ALL_FLAGS,
        capability_create_net (mem 7) CAP_NET_CONNECT ''*'' 0 65535 ALL_FLAGS,
        capability_create_device (mem 8) 0xFFFFFFFF ''all'' ALL_FLAGS,
        capability_create_simple (mem 9) CAP_IPC_BROADCAST ALL_FLAGS,
        capability_create_simple (mem 10) CAP_SYS_ADMIN (CAP_FLAG_PERMANENT OR CAP_FLAG_DELEGATABLE),
        capability_create_simple (mem 11) CAP_SYS_MODULE (CAP_FLAG_PERMANENT OR CAP_FLAG_DELEGATABLE),
        capability_create_simple (mem 12) CAP_PROCESS_KILL (CAP_FLAG_PERMANENT OR CAP_FLAG_DELEGATABLE)])
       (capability_set_create (mem 0) gen)"

definition capability_create_user_set :: "(nat \<Rightarrow> bool) \<Rightarrow> u32 \<Rightarrow> cap_set option" where
  "capability_create_user_set mem gen =
     map_option (add_created
       [capability_create_file (mem 1) CAP_FILE_READ ''/tmp/*'' CAP_FLAG_INHERITABLE,
        capability_create_file (mem 2) CAP_FILE_WRITE ''/tmp/*'' CAP_FLAG_INHERITABLE,
        capability_create_file (mem 3) CAP_FILE_READ ''/home/*'' CAP_FLAG_INHERITABLE,
        capability_create_file (mem 4) CAP_FILE_WRITE ''/home/*'' CAP_FLAG_INHERITABLE,
        capability_create_net (mem 5) CAP_NET_CONNECT ''*'' 80 443 CAP_FLAG_INHERITABLE,
        capability_create_simple (mem 6) CAP_IPC_RECEIVE CAP_FLAG_INHERITABLE])
       (capability_set_create (mem 0) gen)"

definition DEFAULT_INHERIT_MASK :: u64 where
  "DEFAULT_INHERIT_MASK = push_bit CAP_FILE_READ 1 OR push_bit CAP_FILE_WRITE 1 OR
     push_bit CAP_FILE_EXECUTE 1 OR push_bit CAP_FILE_CREATE 1 OR push_bit CAP_NET_BIND 1 OR
     push_bit CAP_NET_CONNECT 1 OR push_bit CAP_NET_LISTEN 1 OR push_bit CAP_IPC 1 OR
     push_bit CAP_IPC_RECEIVE 1"

definition capability_inherit_from_parent :: "(nat \<Rightarrow> bool) \<Rightarrow> u32 \<Rightarrow> cap_proc option \<Rightarrow> cap_set option" where
  "capability_inherit_from_parent mem gen parent =
     (case parent of None \<Rightarrow> capability_set_create (mem 0) gen
      | Some p \<Rightarrow>
          (case cp_caps p of None \<Rightarrow> capability_set_create (mem 0) gen
           | Some cs \<Rightarrow> capability_inherit mem gen (Some cs) DEFAULT_INHERIT_MASK))"

definition capability_reset_for_exec :: "(nat \<Rightarrow> bool) \<Rightarrow> u32 \<Rightarrow> string \<Rightarrow> cap_set option" where
  "capability_reset_for_exec mem gen executable_path =
     map_option (add_created
       (if take 5 executable_path = ''/bin/'' \<or> take 6 executable_path = ''/sbin/'' then
          [capability_create_file (mem 1) CAP_FILE_READ ''/*'' CAP_FLAG_INHERITABLE,
           capability_create_file (mem 2) CAP_FILE_WRITE ''/tmp/*'' CAP_FLAG_INHERITABLE,
           capability_create_net (mem 3) CAP_NET_CONNECT ''*'' 0 65535 CAP_FLAG_INHERITABLE,
           capability_create_simple (mem 4) CAP_IPC_RECEIVE CAP_FLAG_INHERITABLE]
        else
          [capability_create_file (mem 1) CAP_FILE_READ ''/tmp/*'' CAP_FLAG_INHERITABLE,
           capability_create_file (mem 2) CAP_FILE_WRITE ''/tmp/*'' CAP_FLAG_INHERITABLE,
           capability_create_file (mem 3) CAP_FILE_READ ''/home/*'' CAP_FLAG_INHERITABLE,
           capability_create_net (mem 4) CAP_NET_CONNECT ''*'' 80 443 CAP_FLAG_INHERITABLE]))
       (capability_set_create (mem 0) gen)"

definition capability_drop_privileged :: "cap_set \<Rightarrow> int \<times> cap_set" where
  "capability_drop_privileged cs =
     (CAP_SUCCESS,
      fold (\<lambda>t s. snd (capability_remove t s))
        [CAP_SYS_ADMIN, CAP_SYS_MODULE, CAP_SYS_TIME, CAP_SYS_BOOT, CAP_SYS_PTRACE,
         CAP_PROCESS_KILL, CAP_PROCESS_SETUID, CAP_PROCESS_SETGID] cs)"

definition capability_elevate_privileged :: "cap_set \<Rightarrow> u32 \<Rightarrow> int" where
  "capability_elevate_privileged cs auth_token = CAP_EPERM"

end
