(* ===== verification/Cap_Check.thy ===== *)
theory Cap_Check
  imports Capability
begin

text \<open>
  Access decisions of \<^verbatim>\<open>cap_check.c\<close>: the wildcard matcher with its backtracking loop, the
  file, network, device and IPC checks and the system-call table. Every check first brings
  the set's generation up to date and returns the set with its decision.
\<close>

section \<open>Pattern matching\<close>

text \<open>
  \<open>path_matches_pattern\<close> is the function of the code and \<open>match_suffixes\<close> its inner loop,
  which tries the rest of the pattern at every non-empty suffix of the path.
\<close>

function path_matches_pattern :: "string \<Rightarrow> string \<Rightarrow> bool"
    and match_suffixes :: "string \<Rightarrow> string \<Rightarrow> bool" where
  "path_matches_pattern path [] = (path = [])"
| "path_matches_pattern path (c # pattern) =
     (if c = CHR ''*'' then (if pattern = [] then True else match_suffixes path pattern)
      else (case path of [] \<Rightarrow> False
            | p # path' \<Rightarrow> if c = p then path_matches_pattern path' pattern else False))"
| "match_suffixes [] pattern = False"
| "match_suffixes (p # path) pattern =
     (path_matches_pattern (p # path) pattern \<or> match_suffixes path pattern)"
  by pat_completeness auto
termination
  by (relation "measures [\<lambda>x. case x of Inl (p, q) \<Rightarrow> length q | Inr (p, q) \<Rightarrow> length q,
      \<lambda>x. case x of Inl (p, q) \<Rightarrow> 2 * length p | Inr (p, q) \<Rightarrow> 2 * length p + 1]") auto

definition host_matches_pattern :: "string \<Rightarrow> string \<Rightarrow> bool" where
  "host_matches_pattern host pattern \<longleftrightarrow>
     pattern = ''*'' \<or> host = pattern \<or> path_matches_pattern host pattern"

section \<open>Checks\<close>

definition cap_fresh :: "u32 \<Rightarrow> cap_set \<Rightarrow> cap_set" where
  "cap_fresh gen cs = (if cap_generation cs < gen then capability_set_refresh gen cs else cs)"

definition capability_check_file :: "u32 \<Rightarrow> cap_set \<Rightarrow> string \<Rightarrow> nat \<Rightarrow> bool \<times> cap_set" where
  "capability_check_file gen cs path access =
     (list_ex (\<lambda>cap. cap_type cap = access \<and> path_matches_pattern path (path_pattern (cap_data cap)))
        (caps (cap_fresh gen cs)), cap_fresh gen cs)"

definition net_port_match :: "u16 \<Rightarrow> cap_data \<Rightarrow> bool" where
  "net_port_match port d =
     (if net_port_max d = 0 then net_port_min d = 0 \<or> net_port_min d = port
      else net_port_min d \<le> port \<and> port \<le> net_port_max d)"

definition capability_check_net :: "u32 \<Rightarrow> cap_set \<Rightarrow> string \<Rightarrow> u16 \<Rightarrow> nat \<Rightarrow> bool \<times> cap_set" where
  "capability_check_net gen cs host port access =
     (list_ex (\<lambda>cap. cap_type cap = access \<and> host_matches_pattern host (net_host (cap_data cap)) \<and>
          net_port_match port (cap_data cap)) (caps (cap_fresh gen cs)), cap_fresh gen cs)"

definition capability_check_device :: "u32 \<Rightarrow> cap_set \<Rightarrow> u32 \<Rightarrow> bool \<times> cap_set" where
  "capability_check_device gen cs device_id =
     (list_ex (\<lambda>cap. cap_type cap \<in> {CAP_DEVICE_ACCESS, CAP_GPU, CAP_AUDIO, CAP_USB, CAP_SERIAL} \<and>
          (dev_id (cap_data cap) = 0xFFFFFFFF \<or> dev_id (cap_data cap) = device_id))
        (caps (cap_fresh gen cs)), cap_fresh gen cs)"

definition capability_check_ipc :: "u32 \<Rightarrow> cap_set \<Rightarrow> u32 \<Rightarrow> bool \<times> cap_set" where
  "capability_check_ipc gen cs target_pid =
     (let cs = cap_fresh gen cs; (broadcast, cs) = capability_has gen cs CAP_IPC_BROADCAST
      in if broadcast then (True, cs)
         else (list_ex (\<lambda>cap. cap_type cap = CAP_IPC \<and>
                 (ipc_pid (cap_data cap) = 0 \<or> ipc_pid (cap_data cap) = target_pid)) (caps cs), cs))"

text \<open>
  The table of system calls: exit 0, fork 1, read 2, write 3, open 4, close 5, waitpid 6,
  execve 7, getpid 8 and sleep 9 need no capability; any other number is denied.
\<close>

definition syscall_check_capability :: "u32 \<Rightarrow> int \<Rightarrow> cap_set option \<Rightarrow> bool" where
  "syscall_check_capability gen syscall_num cs =
     (case cs of None \<Rightarrow> False | Some _ \<Rightarrow> syscall_num \<in> {0, 1, 2, 3, 4, 5, 6, 7, 8, 9})"

section \<open>The matcher against the meaning of a pattern\<close>

text \<open>A star stands for any sequence of characters, every other character for itself.\<close>

fun glob :: "string \<Rightarrow> string \<Rightarrow> bool" where
  "glob [] path = (path = [])"
| "glob (c # pattern) path =
     (if c = CHR ''*'' then \<exists>n \<le> length path. glob pattern (drop n path)
      else (case path of [] \<Rightarrow> False | p # path' \<Rightarrow> c = p \<and> glob pattern path'))"

lemma glob_star_suffix: "glob pattern (drop n path) \<Longrightarrow> glob (CHR ''*'' # pattern) path"
  by (cases "n \<le> length path") (auto intro: exI [of _ "length path"])

lemma match_suffixes_iff:
  "match_suffixes path pattern \<longleftrightarrow> (\<exists>n < length path. path_matches_pattern (drop n path) pattern)"
proof (induction path)
  case (Cons p path)
  have "(\<exists>n < length (p # path). path_matches_pattern (drop n (p # path)) pattern) \<longleftrightarrow>
      path_matches_pattern (p # path) pattern \<or> (\<exists>n < length path. path_matches_pattern (drop n path) pattern)"
    by (metis (no_types, lifting) drop0 drop_Suc_Cons length_Cons less_Suc_eq_0_disj)
  with Cons.IH show ?case by simp
qed simp

lemma match_sound: "path_matches_pattern path pattern \<Longrightarrow> glob pattern path"
proof (induction pattern arbitrary: path)
  case (Cons c pattern)
  show ?case
  proof (cases "c = CHR ''*''")
    case True
    show ?thesis
    proof (cases "pattern = []")
      case True
      with \<open>c = CHR ''*''\<close> show ?thesis by (auto intro: exI [of _ "length path"])
    next
      case False
      with True Cons.prems obtain n where "path_matches_pattern (drop n path) pattern"
        by (auto simp: match_suffixes_iff)
      with Cons.IH True show ?thesis by (blast intro: glob_star_suffix)
    qed
  next
    case False
    with Cons show ?thesis by (cases path) (auto split: if_splits)
  qed
qed simp

text \<open>On the empty path only a single star or the empty pattern match.\<close>

lemma glob_Nil: "glob pattern [] \<longleftrightarrow> set pattern \<subseteq> {CHR ''*''}"
  by (induction pattern) auto

definition ends_double_star :: "string \<Rightarrow> bool" where
  "ends_double_star pattern \<longleftrightarrow> (\<exists>q. pattern = q @ ''**'')"

lemma ends_double_star_Cons: "ends_double_star pattern \<Longrightarrow> ends_double_star (c # pattern)"
  by (metis append_Cons ends_double_star_def)

lemma all_stars_double:
  assumes "set pattern \<subseteq> {CHR ''*''}" and "pattern \<noteq> []"
  shows "ends_double_star (CHR ''*'' # pattern)"
  using assms
proof (induction pattern)
  case (Cons c pattern)
  show ?case
  proof (cases "pattern = []")
    case True
    with Cons.prems show ?thesis by (auto simp: ends_double_star_def intro: exI [of _ "[]"])
  next
    case False
    with Cons have "ends_double_star (CHR ''*'' # pattern)" by simp
    with Cons.prems ends_double_star_Cons show ?thesis by auto
  qed
qed simp

lemma match_complete:
  "glob pattern path \<Longrightarrow> \<not> ends_double_star pattern \<Longrightarrow> path_matches_pattern path pattern"
proof (induction pattern arbitrary: path)
  case (Cons c pattern)
  have rest: "\<not> ends_double_star pattern" using Cons.prems(2) ends_double_star_Cons by blast
  show ?case
  proof (cases "c = CHR ''*''")
    case True
    show ?thesis
    proof (cases "pattern = []")
      case True
      with \<open>c = CHR ''*''\<close> show ?thesis by simp
    next
      case False
      obtain n where n: "n \<le> length path" "glob pattern (drop n path)" using True Cons.prems(1) by auto
      have "n \<noteq> length path"
      proof
        assume "n = length path"
        with n(2) have "set pattern \<subseteq> {CHR ''*''}" by (simp add: glob_Nil)
        with all_stars_double False Cons.prems(2) True show False by simp
      qed
      with n Cons.IH [OF n(2) rest] True False show ?thesis
        by (auto simp: match_suffixes_iff intro: exI [of _ n])
    qed
  next
    case False
    with Cons.prems(1) Cons.IH rest show ?thesis by (cases path) (auto split: if_splits)
  qed
qed simp

end
