(* ===== verification/Cap_Properties.thy ===== *)
theory Cap_Properties
  imports Cap_Check
begin

text \<open>
  The properties of the capability system: the fast mask answers exactly as the list over
  every sequence of operations, children and clones get exactly what they should, the
  matcher against the meaning of patterns, the policies of the standard sets; and the
  operations that widen authority or ignore a flag.
\<close>

section \<open>The invariant of a set\<close>

definition no_duplicates :: "capability list \<Rightarrow> bool" where
  "no_duplicates = sorted_wrt (\<lambda>c d. \<not> cap_duplicate c d)"

definition cap_ok :: "cap_set \<Rightarrow> bool" where
  "cap_ok cs \<longleftrightarrow> cap_count cs = of_nat (length (caps cs)) \<and>
     (\<forall>t < 64. bit (cap_bitmask cs) t \<longleftrightarrow> t \<in> cap_type ` set (caps cs)) \<and>
     no_duplicates (caps cs)"

lemma cap_duplicate_sym: "cap_duplicate c d \<longleftrightarrow> cap_duplicate d c"
  by (auto simp: cap_duplicate_def)

lemma cap_duplicate_refs [simp]:
  "cap_duplicate (c\<lparr>cap_refs := r\<rparr>) d = cap_duplicate c d"
  "cap_duplicate c (d\<lparr>cap_refs := r\<rparr>) = cap_duplicate c d"
  by (simp_all add: cap_duplicate_def)

lemma mask_test: "t < 64 \<Longrightarrow> (w AND push_bit t 1 \<noteq> 0) \<longleftrightarrow> bit w t" for w :: u64
  by (auto simp: word_eq_zero_iff_bits bit_simps)

lemma mask_bit: "bit (push_bit t (1::u64)) n \<longleftrightarrow> n = t \<and> t < 64"
  by (auto simp: bit_simps)

lemma create_ok: "capability_set_create mem gen = Some cs \<Longrightarrow> cap_ok cs \<and> caps cs = []"
  by (auto simp: capability_set_create_def cap_ok_def no_duplicates_def split: if_splits)

lemma refresh_same [simp]:
  "caps (capability_set_refresh gen cs) = caps cs" "cap_ok (capability_set_refresh gen cs) = cap_ok cs"
  "cap_bitmask (capability_set_refresh gen cs) = cap_bitmask cs"
  by (simp_all add: capability_set_refresh_def cap_ok_def)

lemma fresh_same [simp]: "caps (cap_fresh gen cs) = caps cs" "cap_ok (cap_fresh gen cs) = cap_ok cs"
  by (simp_all add: cap_fresh_def)

lemma add_ok:
  assumes "cap_ok cs"
  shows "cap_ok (snd (capability_add c cs))"
proof (cases "list_ex (\<lambda>e. cap_duplicate e c) (caps cs)")
  case False
  then have "no_duplicates (c # caps cs)"
    using assms by (simp add: cap_ok_def no_duplicates_def list_ex_iff cap_duplicate_sym)
  with False assms show ?thesis
    by (auto simp: cap_ok_def capability_add_def bit_or_iff mask_bit simp del: push_bit_of_1)
qed (use assms in \<open>simp add: capability_add_def\<close>)

lemma add_types: "cap_type ` set (caps (snd (capability_add c cs))) = insert (cap_type c) (cap_type ` set (caps cs))"
proof (cases "list_ex (\<lambda>e. cap_duplicate e c) (caps cs)")
  case True
  then obtain e where "e \<in> set (caps cs)" "cap_duplicate e c" by (auto simp: list_ex_iff)
  moreover from this have "cap_type c = cap_type e" by (simp add: cap_duplicate_def)
  ultimately have "cap_type c \<in> cap_type ` set (caps cs)" by blast
  with True show ?thesis by (simp add: capability_add_def insert_absorb)
qed (simp add: capability_add_def)

lemma remove_list: "caps (snd (capability_remove t cs)) = filter (\<lambda>c. cap_type c \<noteq> t) (caps cs)"
proof (cases "length (caps cs) - length (filter (\<lambda>c. cap_type c \<noteq> t) (caps cs)) = 0")
  case True
  then have "filter (\<lambda>c. cap_type c \<noteq> t) (caps cs) = caps cs"
    by (metis diff_is_0_eq length_filter_less linorder_not_less filter_id_conv)
  with True show ?thesis by (simp add: capability_remove_def)
next
  case False
  then show ?thesis by (simp add: capability_remove_def Let_def)
qed

lemma remove_code:
  "fst (capability_remove t cs) = (if t \<in> cap_type ` set (caps cs) then CAP_SUCCESS else CAP_ENOTFOUND)"
  "t \<notin> cap_type ` set (caps cs) \<Longrightarrow> capability_remove t cs = (CAP_ENOTFOUND, cs)"
proof -
  show none: "capability_remove t cs = (CAP_ENOTFOUND, cs)" if "t \<notin> cap_type ` set (caps cs)"
  proof -
    have "filter (\<lambda>c. cap_type c \<noteq> t) (caps cs) = caps cs" using that by (auto simp: filter_id_conv)
    then show ?thesis by (simp add: capability_remove_def)
  qed
  have "fst (capability_remove t cs) = CAP_SUCCESS" if "t \<in> cap_type ` set (caps cs)"
  proof -
    have "length (filter (\<lambda>c. cap_type c \<noteq> t) (caps cs)) < length (caps cs)"
      using that by (auto intro: length_filter_less)
    then show ?thesis by (simp add: capability_remove_def Let_def)
  qed
  with none show "fst (capability_remove t cs) = (if t \<in> cap_type ` set (caps cs) then CAP_SUCCESS else CAP_ENOTFOUND)"
    by simp
qed

lemma remove_ok:
  assumes "cap_ok cs"
  shows "cap_ok (snd (capability_remove t cs))"
proof (cases "length (caps cs) - length (filter (\<lambda>c. cap_type c \<noteq> t) (caps cs)) = 0")
  case True
  with assms show ?thesis by (simp add: capability_remove_def)
next
  case False
  let ?rest = "filter (\<lambda>c. cap_type c \<noteq> t) (caps cs)"
  have "cap_count cs - of_nat (length (caps cs) - length ?rest) = of_nat (length ?rest)"
    using assms by (simp add: cap_ok_def of_nat_diff [OF length_filter_le])
  moreover have "no_duplicates ?rest"
    using assms by (simp add: cap_ok_def no_duplicates_def sorted_wrt_filter)
  moreover have "\<not> list_ex (\<lambda>c. cap_type c = t) ?rest" by (simp add: list_ex_iff)
  ultimately show ?thesis
    using assms False by (auto simp: capability_remove_def Let_def cap_ok_def bit_simps)
qed

section \<open>Stores of typed objects\<close>

text \<open>
  What callers of a set rely on: membership by type after insertions and removals. A
  sequence of removals is then a set difference.
\<close>

locale typed_store =
  fixes inv :: "'s \<Rightarrow> bool"
    and held :: "'s \<Rightarrow> nat set"
    and kind :: "'c \<Rightarrow> nat"
    and add :: "'c \<Rightarrow> 's \<Rightarrow> 's"
    and remove :: "nat \<Rightarrow> 's \<Rightarrow> 's"
    and has :: "'s \<Rightarrow> nat \<Rightarrow> bool"
  assumes add_inv: "inv s \<Longrightarrow> inv (add c s)"
    and remove_inv: "inv s \<Longrightarrow> inv (remove t s)"
    and add_held: "held (add c s) = insert (kind c) (held s)"
    and remove_held: "held (remove t s) = held s - {t}"
    and has_held: "inv s \<Longrightarrow> has s t \<longleftrightarrow> t \<in> held s"
begin

lemma fold_remove: "inv s \<Longrightarrow> inv (fold remove ts s) \<and> held (fold remove ts s) = held s - set ts"
  by (induction ts arbitrary: s) (auto simp: remove_inv remove_held)

lemma has_fold_remove: "inv s \<Longrightarrow> has (fold remove ts s) t \<longleftrightarrow> has s t \<and> t \<notin> set ts"
  using fold_remove [of s ts] by (simp add: has_held)

lemma has_add: "inv s \<Longrightarrow> has (add c s) t \<longleftrightarrow> t = kind c \<or> has s t"
  by (simp add: has_held add_inv add_held)

end

lemma has_exact:
  assumes "cap_ok cs"
  shows "fst (capability_has gen cs t) \<longleftrightarrow> t \<in> cap_type ` set (caps cs)"
proof -
  have "fst (capability_has gen cs t) \<longleftrightarrow>
      (if t < 64 then cap_bitmask cs AND push_bit t 1 \<noteq> 0 else list_ex (\<lambda>c. cap_type c = t) (caps cs))"
    by (simp add: capability_has_def Let_def)
  then show ?thesis
    using assms unfolding list_ex_iff cap_ok_def
    by (cases "t < 64") (simp_all only: mask_test if_True if_False, auto)
qed

interpretation cap_store: typed_store cap_ok "\<lambda>cs. cap_type ` set (caps cs)" cap_type
  "\<lambda>c cs. snd (capability_add c cs)" "\<lambda>t cs. snd (capability_remove t cs)"
  "\<lambda>cs t. fst (capability_has gen cs t)" for gen
  by unfold_locales (auto simp: add_ok remove_ok add_types remove_list has_exact)

section \<open>Copying\<close>

abbreviation own :: "capability \<Rightarrow> capability" where
  "own c \<equiv> c\<lparr>cap_refs := 1\<rparr>"

lemma copy_caps_list:
  assumes "copy_caps mem n xs cs = Some cs'"
  shows "caps cs' = rev (map own xs) @ caps cs \<and> (cap_ok cs \<longrightarrow> cap_ok cs')"
  using assms
proof (induction xs arbitrary: n cs)
  case (Cons c xs)
  obtain cs1 where a: "capability_add (own c) cs = (CAP_SUCCESS, cs1)"
    "copy_caps mem (Suc n) xs cs1 = Some cs'"
    using Cons.prems by (auto split: if_splits prod.splits)
  then have "caps cs1 = own c # caps cs"
    by (auto simp: capability_add_def cap_simps split: if_splits)
  moreover have "cap_ok cs \<Longrightarrow> cap_ok cs1" using add_ok [of cs "own c"] a(1) by simp
  ultimately show ?case
    using Cons.IH [OF a(2)] by simp
qed simp

lemma copy_caps_succeeds:
  assumes "\<And>n. mem n" and "no_duplicates xs" and "\<forall>c \<in> set xs. \<forall>d \<in> set (caps cs). \<not> cap_duplicate d c"
  shows "copy_caps mem n xs cs \<noteq> None"
  using assms(2,3)
proof (induction xs arbitrary: n cs)
  case (Cons c xs)
  let ?cs = "snd (capability_add (own c) cs)"
  have a: "capability_add (own c) cs = (CAP_SUCCESS, ?cs)" "caps ?cs = own c # caps cs"
    using Cons.prems(2) by (simp_all add: capability_add_def list_ex_iff)
  have "copy_caps mem (Suc n) xs ?cs \<noteq> None"
    using Cons.prems by (intro Cons.IH) (auto simp: no_duplicates_def a(2))
  moreover have "copy_caps mem n (c # xs) cs = copy_caps mem (Suc n) xs ?cs"
    using assms(1) arg_cong [OF a(1), of fst] by (simp add: split_beta)
  ultimately show ?case by simp
qed simp

section \<open>Sets the interface can build\<close>

inductive cap_built :: "cap_set \<Rightarrow> bool" where
  create: "capability_set_create mem gen = Some cs \<Longrightarrow> cap_built cs"
| add: "cap_built cs \<Longrightarrow> cap_built (snd (capability_add c cs))"
| remove: "cap_built cs \<Longrightarrow> cap_built (snd (capability_remove t cs))"
| refresh: "cap_built cs \<Longrightarrow> cap_built (capability_set_refresh gen cs)"
| clone: "cap_built cs \<Longrightarrow> capability_set_clone mem gen cs = Some cs' \<Longrightarrow> cap_built cs'"
| inherit: "cap_built cs \<Longrightarrow> capability_inherit mem gen (Some cs) im = Some cs' \<Longrightarrow> cap_built cs'"
| drop: "cap_built cs \<Longrightarrow> cap_built (snd (capability_drop_privileged cs))"

lemma clone_list:
  assumes "capability_set_clone mem gen cs = Some cs'"
  shows "caps cs' = rev (map own (caps cs)) \<and> cap_ok cs'"
proof -
  obtain cs0 where "capability_set_create (mem 0) gen = Some cs0" "copy_caps mem 1 (caps cs) cs0 = Some cs'"
    using assms by (auto simp: capability_set_clone_def split: option.splits)
  with copy_caps_list create_ok show ?thesis by fastforce
qed

lemma inherit_list:
  assumes "capability_inherit mem gen (Some cs) im = Some cs'"
  shows "caps cs' = rev (map own (filter (inheritable im) (caps cs))) \<and> cap_ok cs'"
proof -
  obtain cs0 where "capability_set_create (mem 0) gen = Some cs0"
    "copy_caps mem 1 (filter (inheritable im) (caps cs)) cs0 = Some cs'"
    using assms by (auto simp: capability_inherit_def split: option.splits)
  with copy_caps_list create_ok show ?thesis by fastforce
qed

lemma built_ok: "cap_built cs \<Longrightarrow> cap_ok cs"
proof (induction rule: cap_built.induct)
  case (drop cs)
  then show ?case
    using cap_store.fold_remove [of cs] by (simp add: capability_drop_privileged_def del: fold.simps)
qed (simp_all add: create_ok add_ok remove_ok clone_list inherit_list)

text \<open>
  C19: for every set the interface can build, by any sequence of creations, insertions,
  removals, refreshes, clones, inheritances and privilege drops, the constant-time mask
  test answers exactly as a search of the list would, the counter is the length of the
  list, and no two entries are duplicates.
\<close>

theorem capability_has_exact:
  assumes "cap_built cs"
  shows "(fst (capability_has gen cs t) \<longleftrightarrow> (\<exists>c \<in> set (caps cs). cap_type c = t)) \<and>
    cap_count cs = of_nat (length (caps cs)) \<and> no_duplicates (caps cs)"
  using built_ok [OF assms] has_exact [of cs gen t] by (auto simp: cap_ok_def)

definition tmp_read :: capability where
  "tmp_read = \<lparr>cap_type = CAP_FILE_READ, cap_flags = CAP_FLAG_INHERITABLE OR CAP_FLAG_DELEGATABLE,
     cap_refs = 1, cap_data = CapFile ''/tmp/*''\<rparr>"

definition empty_set :: cap_set where
  "empty_set = \<lparr>caps = [], cap_count = 0, cap_bitmask = 0, cap_generation = 1\<rparr>"

definition tmp_set :: cap_set where
  "tmp_set = snd (capability_add tmp_read empty_set)"

lemma tmp_set_built: "cap_built tmp_set"
proof -
  have "capability_set_create True 1 = Some empty_set"
    by (simp add: capability_set_create_def empty_set_def)
  then show ?thesis unfolding tmp_set_def by (intro cap_built.add cap_built.create)
qed

lemma tmp_set_caps: "caps tmp_set = [tmp_read]"
  by (simp add: tmp_set_def capability_add_def empty_set_def)

theorem capability_has_exact_witness:
  "cap_built tmp_set \<and> fst (capability_has 5 tmp_set CAP_FILE_READ) \<and> \<not> fst (capability_has 5 tmp_set CAP_SYS_ADMIN)"
  using capability_has_exact [OF tmp_set_built, of 5 CAP_FILE_READ]
    capability_has_exact [OF tmp_set_built, of 5 CAP_SYS_ADMIN] tmp_set_built
  by (simp add: tmp_set_caps tmp_read_def cap_simps)

text \<open>
  C20: a forked child's set is exactly the parent's inheritable capabilities whose type is
  in the mask, each with a fresh reference count, and nothing else; the call fails only for
  lack of memory. With the default mask no system, process, device or broadcast capability
  is ever inherited, whatever its flags.
\<close>

theorem capability_inherit_exact:
  assumes "cap_built parent"
  shows "(\<forall>child. capability_inherit mem gen (Some parent) im = Some child \<longrightarrow>
      caps child = rev (map (\<lambda>c. c\<lparr>cap_refs := 1\<rparr>) (filter (inheritable im) (caps parent)))) \<and>
    ((\<forall>n. mem n) \<longrightarrow> capability_inherit mem gen (Some parent) im \<noteq> None) \<and>
    (\<forall>c. inheritable DEFAULT_INHERIT_MASK c \<longrightarrow> cap_type c \<in> {CAP_FILE_READ, CAP_FILE_WRITE,
      CAP_FILE_EXECUTE, CAP_FILE_CREATE, CAP_NET_BIND, CAP_NET_CONNECT, CAP_NET_LISTEN, CAP_IPC, CAP_IPC_RECEIVE})"
proof (intro conjI allI impI)
  show "caps child = rev (map own (filter (inheritable im) (caps parent)))"
    if "capability_inherit mem gen (Some parent) im = Some child" for child
    using inherit_list [OF that] by simp
  show "capability_inherit mem gen (Some parent) im \<noteq> None" if m: "\<forall>n. mem n"
  proof -
    have "no_duplicates (filter (inheritable im) (caps parent))"
      using built_ok [OF assms] by (simp add: cap_ok_def no_duplicates_def sorted_wrt_filter)
    then have "copy_caps mem 1 (filter (inheritable im) (caps parent)) cs0 \<noteq> None" if "caps cs0 = []" for cs0
      using m that by (intro copy_caps_succeeds) auto
    with m show ?thesis by (simp add: capability_inherit_def capability_set_create_def)
  qed
  show "cap_type c \<in> {CAP_FILE_READ, CAP_FILE_WRITE, CAP_FILE_EXECUTE, CAP_FILE_CREATE, CAP_NET_BIND,
      CAP_NET_CONNECT, CAP_NET_LISTEN, CAP_IPC, CAP_IPC_RECEIVE}"
    if "inheritable DEFAULT_INHERIT_MASK c" for c
  proof -
    have "cap_type c < 64" "bit DEFAULT_INHERIT_MASK (cap_type c)"
      using that mask_test [of "cap_type c" DEFAULT_INHERIT_MASK] unfolding inheritable_def by simp_all
    then show ?thesis
      unfolding DEFAULT_INHERIT_MASK_def bit_or_iff mask_bit by blast
  qed
qed

theorem capability_inherit_exact_witness:
  "cap_built tmp_set \<and> capability_inherit (\<lambda>_. True) 1 (Some tmp_set) DEFAULT_INHERIT_MASK \<noteq> None"
  using capability_inherit_exact [OF tmp_set_built, of "\<lambda>_. True" 1 DEFAULT_INHERIT_MASK] tmp_set_built by blast

lemma check_ipc_iff:
  "fst (capability_check_ipc g cs pid) \<longleftrightarrow> fst (capability_has g (cap_fresh g cs) CAP_IPC_BROADCAST) \<or>
   list_ex (\<lambda>c. cap_type c = CAP_IPC \<and> (ipc_pid (cap_data c) = 0 \<or> ipc_pid (cap_data c) = pid)) (caps cs)"
  by (auto simp: capability_check_ipc_def capability_has_def Let_def split: prod.splits)

text \<open>
  C23: a clone decides as its original does: for every path, host and port, device, target
  process and type, the file, network, device, IPC and membership checks of the clone give
  the same answer.
\<close>

theorem capability_clone_same_decisions:
  assumes "cap_built cs" and "capability_set_clone mem gen cs = Some cs'"
  shows "fst (capability_check_file g cs' path access) = fst (capability_check_file g cs path access) \<and>
    fst (capability_check_net g cs' host port access) = fst (capability_check_net g cs host port access) \<and>
    fst (capability_check_device g cs' dev) = fst (capability_check_device g cs dev) \<and>
    fst (capability_check_ipc g cs' pid) = fst (capability_check_ipc g cs pid) \<and>
    fst (capability_has g cs' t) = fst (capability_has g cs t)"
proof -
  have list: "set (caps cs') = own ` set (caps cs)" and ok: "cap_ok cs'" "cap_ok cs"
    using clone_list [OF assms(2)] built_ok [OF assms(1)] by simp_all
  have ex: "list_ex P (caps cs') = list_ex P (caps cs)" if "\<And>c. P (own c) = P c" for P
    using that by (auto simp: list_ex_iff list)
  have types: "cap_type ` set (caps cs') = cap_type ` set (caps cs)"
    by (simp add: list image_image)
  then have has: "fst (capability_has g cs' t) = fst (capability_has g cs t)" for g t
    using ok by (simp add: has_exact)
  have "fst (capability_has g (cap_fresh g cs') CAP_IPC_BROADCAST) =
      fst (capability_has g (cap_fresh g cs) CAP_IPC_BROADCAST)"
    using ok types by (simp add: has_exact)
  then show ?thesis
    unfolding check_ipc_iff using has by (simp add: capability_check_file_def capability_check_net_def
        capability_check_device_def ex)
qed

theorem capability_clone_same_decisions_witness:
  "cap_built tmp_set \<and> (\<exists>cs'. capability_set_clone (\<lambda>_. True) 1 tmp_set = Some cs' \<and>
     fst (capability_check_file 1 cs' ''/tmp/x'' CAP_FILE_READ))"
proof -
  obtain cs' where c: "capability_set_clone (\<lambda>_. True) 1 tmp_set = Some cs'"
    by (simp add: capability_set_clone_def capability_set_create_def tmp_set_caps capability_add_def)
  have "fst (capability_check_file 1 tmp_set ''/tmp/x'' CAP_FILE_READ)"
    by (simp add: capability_check_file_def tmp_set_caps tmp_read_def)
  with capability_clone_same_decisions [OF tmp_set_built c, of 1 "''/tmp/x''" CAP_FILE_READ] c tmp_set_built
  show ?thesis by blast
qed

section \<open>Patterns\<close>

text \<open>
  C22: the backtracking matcher is sound for the meaning of patterns (a star stands for any
  sequence) on every input, always terminates, and is exact for every pattern that does not
  end in two stars.
\<close>

theorem path_matches_pattern_glob:
  "(path_matches_pattern path pattern \<longrightarrow> glob pattern path) \<and>
   (\<not> ends_double_star pattern \<longrightarrow> path_matches_pattern path pattern = glob pattern path)"
  using match_sound match_complete by blast

theorem path_matches_pattern_glob_witness:
  "path_matches_pattern ''/home/u/x.c'' ''/home/*/x.*'' = glob ''/home/*/x.*'' ''/home/u/x.c'' \<and>
   \<not> path_matches_pattern ''a'' ''a**'' \<and> glob ''a**'' ''a''"
proof -
  have "\<not> ends_double_star ''/home/*/x.*''"
  proof
    assume "ends_double_star ''/home/*/x.*''"
    then obtain q where "''/home/*/x.*'' = q @ ''**''" by (auto simp: ends_double_star_def)
    then have "rev ''/home/*/x.*'' = rev (q @ ''**'')" by (rule arg_cong)
    then show False by simp
  qed
  then show ?thesis
    using path_matches_pattern_glob [of "''/home/u/x.c''" "''/home/*/x.*''"] by simp
qed

lemma match_prefix_star:
  assumes "CHR ''*'' \<notin> set p"
  shows "path_matches_pattern path (p @ ''*'') \<longleftrightarrow> take (length p) path = p"
  using assms
proof (induction p arbitrary: path)
  case (Cons c p)
  then show ?case by (cases path) auto
qed simp

lemma glob_extend: "glob (q @ CHR ''*'' # ext) path \<Longrightarrow> glob (q @ ''*'') path"
proof (induction q arbitrary: path)
  case Nil
  show ?case by (auto intro: exI [of _ "length path"])
next
  case (Cons c q)
  then show ?case by (cases path) (auto split: if_splits)
qed

section \<open>The union member and the type\<close>

text \<open>
  What the code's accesses to the union rely on: the member in use is the one of the type,
  and its strings fit their buffers with the terminator.
\<close>

definition cap_typed :: "capability \<Rightarrow> bool" where
  "cap_typed c = (case cap_data c of
     CapZero \<Rightarrow> True
   | CapFile p \<Rightarrow> is_file_type (cap_type c) \<and> length p < 256
   | CapNet h _ _ \<Rightarrow> is_net_type (cap_type c) \<and> length h < 256
   | CapDevice _ d \<Rightarrow> cap_type c = CAP_DEVICE_ACCESS \<and> length d < 32
   | CapIpc _ \<Rightarrow> cap_type c = CAP_IPC)"

definition set_typed :: "cap_set \<Rightarrow> bool" where
  "set_typed cs \<longleftrightarrow> (\<forall>c \<in> set (caps cs). cap_typed c)"

definition proc_typed :: "cap_proc \<Rightarrow> bool" where
  "proc_typed p \<longleftrightarrow> pred_option set_typed (cp_caps p)"

lemma own_typed [simp]: "cap_typed (own c) = cap_typed c"
  by (simp add: cap_typed_def split: cap_data.split)

lemma create_typed:
  "capability_create_file mem t pattern flags = Some c \<Longrightarrow> cap_typed c"
  "capability_create_net mem t host lo hi flags = Some c \<Longrightarrow> cap_typed c"
  "capability_create_device mem d cls flags = Some c \<Longrightarrow> cap_typed c"
  "capability_create_ipc mem pid flags = Some c \<Longrightarrow> cap_typed c"
  "capability_create_simple mem t flags = Some c \<Longrightarrow> cap_typed c"
  by (auto simp: cap_typed_def capability_create_file_def capability_create_net_def
      capability_create_device_def capability_create_ipc_def capability_create_simple_def split: if_splits)

lemma add_typed: "set_typed cs \<Longrightarrow> cap_typed c \<Longrightarrow> set_typed (snd (capability_add c cs))"
  by (simp add: set_typed_def capability_add_def)

lemma remove_typed: "set_typed cs \<Longrightarrow> set_typed (snd (capability_remove t cs))"
  by (simp add: set_typed_def remove_list)

lemma proc_add_typed: "proc_typed p \<Longrightarrow> cap_typed c \<Longrightarrow> proc_typed (snd (proc_add c p))"
  by (cases "cp_caps p") (simp_all add: proc_add_def proc_typed_def split_beta add_typed)

lemma restrict_result:
  "snd (capability_restrict c pattern) = c \<or>
   is_file_type (cap_type c) \<and> snd (capability_restrict c pattern) = c\<lparr>cap_data := CapFile (take 255 pattern)\<rparr>"
  by (auto simp: capability_restrict_def is_file_type_def Let_def)

lemma restrict_typed: "cap_typed c \<Longrightarrow> cap_typed (snd (capability_restrict c pattern))"
  using restrict_result [of c pattern] by (elim disjE) (simp_all add: cap_typed_def)

lemma restrict_success:
  assumes "capability_restrict c pattern = (CAP_SUCCESS, c')"
  shows "is_file_type (cap_type c) \<and> take (length (path_pattern (cap_data c))) pattern = path_pattern (cap_data c) \<and>
    c' = c\<lparr>cap_data := CapFile (take 255 pattern)\<rparr>"
  using assms by (auto simp: capability_restrict_def Let_def is_file_type_def cap_codes split: if_splits)

lemma add_created_typed:
  "set_typed cs \<Longrightarrow> (\<forall>c. Some c \<in> set xs \<longrightarrow> cap_typed c) \<Longrightarrow> set_typed (add_created xs cs)"
  by (induction xs cs rule: add_created.induct) (auto simp: add_typed)

lemma set_create_typed: "capability_set_create mem gen = Some cs \<Longrightarrow> set_typed cs"
  using create_ok by (simp add: set_typed_def)

section \<open>Runs of the capability system\<close>

text \<open>
  \<open>cap_run P gen\<close>: the processes' sets and the global generation after some sequence of
  fork, exec, grant, delegate, revoke and privilege drop from the state with only the init
  process, under every pattern of allocation failures. \<open>cap_made\<close> are the capabilities that
  the constructors return.
\<close>

definition cap_made :: "capability \<Rightarrow> bool" where
  "cap_made c \<longleftrightarrow> (\<exists>t pattern flags. capability_create_file True t pattern flags = Some c) \<or>
     (\<exists>t host lo hi flags. capability_create_net True t host lo hi flags = Some c) \<or>
     (\<exists>d cls flags. capability_create_device True d cls flags = Some c) \<or>
     (\<exists>pid flags. capability_create_ipc True pid flags = Some c) \<or>
     (\<exists>t flags. capability_create_simple True t flags = Some c)"

inductive cap_run :: "(u32 \<Rightarrow> cap_proc) \<Rightarrow> u32 \<Rightarrow> bool" where
  boot: "capability_create_init_set mem capability_init = Some cs \<Longrightarrow>
    cap_run ((\<lambda>pid. \<lparr>cp_pid = pid, cp_caps = None\<rparr>)(1 := \<lparr>cp_pid = 1, cp_caps = Some cs\<rparr>)) capability_init"
| fork: "cap_run P gen \<Longrightarrow>
    cap_run (P(child := \<lparr>cp_pid = child, cp_caps = capability_inherit_from_parent mem gen (Some (P parent))\<rparr>)) gen"
| exec: "cap_run P gen \<Longrightarrow> capability_reset_for_exec mem gen path = Some cs \<Longrightarrow>
    cap_run (P(pid := (P pid)\<lparr>cp_caps := Some cs\<rparr>)) gen"
| grant: "cap_run P gen \<Longrightarrow> cap_made c \<Longrightarrow>
    cap_run (P(grantee := snd (capability_grant m gen (P granter) (P grantee) c))) gen"
| kernel_grant: "cap_run P gen \<Longrightarrow> cap_made c \<Longrightarrow>
    cap_run (P(pid := snd (capability_kernel_grant (P pid) c))) gen"
| delegate: "cap_run P gen \<Longrightarrow>
    capability_delegate m (P granter) (P grantee) t constraint = Some (r, p') \<Longrightarrow> cap_run (P(grantee := p')) gen"
| revoke: "cap_run P gen \<Longrightarrow> capability_revoke gen (P pid) t = (r, p', gen') \<Longrightarrow> cap_run (P(pid := p')) gen'"
| revoke_all: "cap_run P gen \<Longrightarrow> capability_revoke_all m gen (P pid) = (r, p', gen') \<Longrightarrow>
    cap_run (P(pid := p')) gen'"
| drop: "cap_run P gen \<Longrightarrow> cp_caps (P pid) = Some cs \<Longrightarrow>
    cap_run (P(pid := (P pid)\<lparr>cp_caps := Some (snd (capability_drop_privileged cs))\<rparr>)) gen"
| check: "cap_run P gen \<Longrightarrow> cp_caps (P pid) = Some cs \<Longrightarrow>
    cap_run (P(pid := (P pid)\<lparr>cp_caps := Some (cap_fresh gen cs)\<rparr>)) gen"
| global_revoke: "cap_run P gen \<Longrightarrow> cap_run P (snd (capability_global_revoke gen))"

text \<open>A process is sound if its set is, and typed.\<close>

definition proc_sound :: "cap_proc \<Rightarrow> bool" where
  "proc_sound p \<longleftrightarrow> pred_option (\<lambda>cs. set_typed cs \<and> cap_ok cs) (cp_caps p)"

lemma made_typed: "cap_made c \<Longrightarrow> cap_typed c"
  by (auto simp: cap_made_def intro: create_typed)

lemma proc_add_sound: "proc_sound p \<Longrightarrow> cap_typed c \<Longrightarrow> proc_sound (snd (proc_add c p))"
  by (cases "cp_caps p") (simp_all add: proc_add_def proc_sound_def split_beta add_typed add_ok)

lemma add_created_ok: "cap_ok cs \<Longrightarrow> cap_ok (add_created xs cs)"
  by (induction xs cs rule: add_created.induct) (simp_all add: add_ok)

lemma add_created_sound:
  "capability_set_create mem gen = Some cs \<Longrightarrow> (\<forall>c. Some c \<in> set xs \<longrightarrow> cap_typed c) \<Longrightarrow>
   set_typed (add_created xs cs) \<and> cap_ok (add_created xs cs)"
  by (simp add: add_created_typed set_create_typed add_created_ok create_ok)

lemma init_set_sound: "capability_create_init_set mem gen = Some cs \<Longrightarrow> set_typed cs \<and> cap_ok cs"
  by (auto simp: capability_create_init_set_def simp del: add_created.simps
      intro!: add_created_sound dest!: create_typed [OF sym])

lemma exec_set_sound: "capability_reset_for_exec mem gen path = Some cs \<Longrightarrow> set_typed cs \<and> cap_ok cs"
  by (auto simp: capability_reset_for_exec_def simp del: add_created.simps
      intro!: add_created_sound dest!: create_typed [OF sym] split: if_splits)

lemma inherit_sound:
  assumes "proc_sound p" and "capability_inherit_from_parent mem gen (Some p) = Some cs"
  shows "set_typed cs \<and> cap_ok cs"
proof (cases "cp_caps p")
  case None
  with assms(2) create_ok set_create_typed show ?thesis by (simp add: capability_inherit_from_parent_def)
next
  case (Some ps)
  with assms inherit_list [of mem gen ps DEFAULT_INHERIT_MASK cs] show ?thesis
    by (auto simp: capability_inherit_from_parent_def proc_sound_def set_typed_def)
qed

lemma delegate_cases:
  assumes "capability_delegate m granter p t constraint = Some (r, p')"
  obtains "p' = p" "r \<noteq> CAP_SUCCESS"
  | cs g c where "cp_caps granter = Some cs" "find (\<lambda>c. cap_type c = t) (caps cs) = Some g"
    "proc_add c p = (r, p')"
    "c = own g \<or> (\<exists>pattern. constraint = Some pattern \<and> capability_restrict (own g) pattern = (CAP_SUCCESS, c))"
  using assms
  by (auto simp: capability_delegate_def Let_def cap_codes split: option.splits if_splits prod.splits)

lemma delegate_sound:
  assumes "proc_sound granter" and "proc_sound p" and "capability_delegate m granter p t constraint = Some (r, p')"
  shows "proc_sound p'"
  using assms(3)
proof (cases rule: delegate_cases)
  case (2 cs g c)
  then have "cap_typed g"
    using assms(1) by (auto simp: proc_sound_def set_typed_def find_Some_iff)
  then have "cap_typed c" using 2(4) restrict_typed [of "own g"] by (metis own_typed snd_conv)
  with 2(3) proc_add_sound [OF assms(2), of c] show ?thesis by simp
qed (use assms in simp)

lemma drop_sound: "set_typed cs \<and> cap_ok cs \<Longrightarrow>
    set_typed (snd (capability_drop_privileged cs)) \<and> cap_ok (snd (capability_drop_privileged cs))"
proof -
  have "set_typed (fold (\<lambda>t s. snd (capability_remove t s)) ts cs) \<and>
      cap_ok (fold (\<lambda>t s. snd (capability_remove t s)) ts cs)" if "set_typed cs \<and> cap_ok cs" for ts
    using that by (induction ts arbitrary: cs) (simp_all add: remove_typed remove_ok)
  then show "set_typed cs \<and> cap_ok cs \<Longrightarrow> ?thesis" by (simp add: capability_drop_privileged_def del: fold.simps)
qed

lemma revoke_sound:
  assumes "proc_sound p"
  shows "proc_sound (fst (snd (capability_revoke gen p t)))"
proof (cases "cp_caps p")
  case (Some cs)
  then have "fst (snd (capability_revoke gen p t)) = p\<lparr>cp_caps := Some (snd (capability_remove t cs))\<rparr>"
    by (simp add: capability_revoke_def split_beta)
  then show ?thesis
    using assms Some by (simp add: proc_sound_def remove_typed remove_ok)
qed (simp add: capability_revoke_def proc_sound_def)

lemma revoke_all_sound:
  assumes "proc_sound p"
  shows "proc_sound (fst (snd (capability_revoke_all m gen p)))"
proof (cases "cp_caps p")
  case (Some cs)
  then show ?thesis
    using create_ok [of m gen] set_create_typed [of m gen]
    by (cases "capability_set_create m gen") (simp_all add: capability_revoke_all_def proc_sound_def)
qed (simp add: capability_revoke_all_def proc_sound_def)

lemma run_sound: "cap_run P gen \<Longrightarrow> proc_sound (P pid)"
proof (induction arbitrary: pid rule: cap_run.induct)
  case (boot mem cs)
  then have "set_typed cs \<and> cap_ok cs" by (rule init_set_sound)
  then show ?case by (cases "pid = 1") (simp_all add: proc_sound_def)
next
  case (fork P gen child mem parent)
  have "proc_sound \<lparr>cp_pid = child, cp_caps = capability_inherit_from_parent mem gen (Some (P parent))\<rparr>"
    unfolding proc_sound_def pred_option_def cap_proc.simps
    using inherit_sound [OF fork.IH] by (auto elim: option.set_cases)
  with fork.IH [of pid] show ?case by (cases "pid = child") simp_all
next
  case (exec P gen mem path cs p)
  then show ?case using exec_set_sound [OF exec.hyps(2)] by (simp add: proc_sound_def)
next
  case (grant P gen c grantee m granter)
  then show ?case by (simp add: capability_grant_def proc_add_sound made_typed)
next
  case (kernel_grant P gen c p)
  then show ?case by (simp add: capability_kernel_grant_def proc_add_sound made_typed)
next
  case (delegate P gen m granter grantee t constraint r p')
  then show ?case using delegate_sound [OF _ _ delegate.hyps(2)] by simp
next
  case (drop P gen p cs)
  then show ?case using drop_sound [of cs] drop.IH [of p] by (simp add: proc_sound_def)
next
  case (check P gen p cs)
  then show ?case using check.IH [of p] by (simp add: proc_sound_def set_typed_def)
next
  case (revoke P gen p t r p' gen')
  then show ?case using revoke_sound [of "P p" gen t] by simp
next
  case (revoke_all P gen m p r p' gen')
  then show ?case using revoke_all_sound [of "P p" m gen] by simp
qed

lemma capability_set_has:
  assumes "cap_run P gen" and "cp_caps (P pid) = Some cs"
  shows "fst (capability_has g cs t) \<longleftrightarrow> t \<in> cap_type ` set (caps cs)"
  using run_sound [OF assms(1), of pid] assms(2) has_exact by (simp add: proc_sound_def)

text \<open>
  C16: after any sequence of fork, exec, grant, delegate, revoke, revoke-all, privilege drop,
  check and global revocation from boot, with any allocation failing at any point, the set of
  every process keeps type and union member together with every string inside its buffer, so
  no check reads a member that was not written or an unterminated string; and the mask test
  agrees with the list.
\<close>

theorem capability_runs_typed:
  assumes "cap_run P gen" and "cp_caps (P pid) = Some cs"
  shows "set_typed cs \<and> (fst (capability_has g cs t) \<longleftrightarrow> (\<exists>c \<in> set (caps cs). cap_type c = t))"
proof -
  have "set_typed cs" "cap_ok cs" using run_sound [OF assms(1), of pid] assms(2) by (simp_all add: proc_sound_def)
  with has_exact [of cs g t] show ?thesis by auto
qed

definition boot_set :: cap_set where
  "boot_set = the (capability_create_init_set (\<lambda>_. True) capability_init)"

definition boot_procs :: "u32 \<Rightarrow> cap_proc" where
  "boot_procs = (\<lambda>pid. \<lparr>cp_pid = pid, cp_caps = None\<rparr>)(1 := \<lparr>cp_pid = 1, cp_caps = Some boot_set\<rparr>)"

lemma boot_procs_run: "cap_run boot_procs capability_init"
  unfolding boot_procs_def
  by (rule cap_run.boot [of "\<lambda>_. True"]) (simp add: boot_set_def capability_create_init_set_def capability_set_create_def)

theorem capability_runs_typed_witness:
  "cap_run boot_procs capability_init \<and> cp_caps (boot_procs 1) = Some boot_set \<and> set_typed boot_set"
  using capability_runs_typed [OF boot_procs_run, of 1 boot_set] boot_procs_run
  by (simp add: boot_procs_def)

section \<open>Restricting and delegating\<close>

definition single_star :: "string \<Rightarrow> bool" where
  "single_star pattern \<longleftrightarrow> (\<exists>q. pattern = q @ ''*'') \<and> \<not> ends_double_star pattern"

lemma restrict_narrows:
  assumes "cap_typed c" and "single_star (path_pattern (cap_data c))"
    and "capability_restrict c pattern = (CAP_SUCCESS, c')"
    and "path_matches_pattern path (path_pattern (cap_data c'))"
  shows "path_matches_pattern path (path_pattern (cap_data c))"
proof -
  let ?old = "path_pattern (cap_data c)"
  obtain q where q: "?old = q @ ''*''" "\<not> ends_double_star ?old" using assms(2) by (auto simp: single_star_def)
  have len: "length ?old \<le> 255"
    using assms(1) by (cases "cap_data c") (auto simp: cap_typed_def)
  obtain ext where ext: "pattern = ?old @ ext"
    using restrict_success [OF assms(3)] by (metis append_take_drop_id)
  have "path_pattern (cap_data c') = take 255 pattern" using restrict_success [OF assms(3)] by simp
  also have "\<dots> = q @ CHR ''*'' # take (255 - length ?old) ext" using ext len q(1) by (simp add: take_Cons' Suc_diff_le)
  finally have "glob (q @ CHR ''*'' # take (255 - length ?old) ext) path"
    using match_sound [OF assms(4)] by simp
  then have "glob ?old path" using glob_extend q(1) by simp
  with q(2) show ?thesis by (rule match_complete [rotated])
qed

text \<open>
  C24: restricting a file capability whose pattern ends in one star never adds a path. A
  pattern without a star is different: \<^verbatim>\<open>capability_restrict\<close> accepts the same text followed
  by a star, and the result reaches every path with that prefix, although the old
  capability reached one.
\<close>

theorem capability_restrict_scope:
  assumes "cap_typed c"
  shows "(single_star (path_pattern (cap_data c)) \<longrightarrow> capability_restrict c pattern = (CAP_SUCCESS, c') \<longrightarrow>
      path_matches_pattern path (path_pattern (cap_data c')) \<longrightarrow> path_matches_pattern path (path_pattern (cap_data c))) \<and>
    (is_file_type (cap_type c) \<longrightarrow> cap_data c = CapFile file \<longrightarrow> CHR ''*'' \<notin> set file \<longrightarrow> length file < 255 \<longrightarrow>
      (\<exists>w. capability_restrict c (file @ ''*'') = (CAP_SUCCESS, w) \<and>
        (\<forall>more. path_matches_pattern (file @ more) (path_pattern (cap_data w)))))"
proof (intro conjI impI)
  show "path_matches_pattern path (path_pattern (cap_data c))"
    if "single_star (path_pattern (cap_data c))" "capability_restrict c pattern = (CAP_SUCCESS, c')"
      "path_matches_pattern path (path_pattern (cap_data c'))"
    using restrict_narrows assms that by blast
  assume "is_file_type (cap_type c)" "cap_data c = CapFile file" "CHR ''*'' \<notin> set file" "length file < 255"
  then show "\<exists>w. capability_restrict c (file @ ''*'') = (CAP_SUCCESS, w) \<and>
      (\<forall>more. path_matches_pattern (file @ more) (path_pattern (cap_data w)))"
    by (auto simp: capability_restrict_def is_file_type_def match_prefix_star)
qed

lemma tmp_read_typed: "cap_typed tmp_read"
  by (simp add: tmp_read_def cap_typed_def is_file_type_def cap_simps)

lemma tmp_read_star: "single_star (path_pattern (cap_data tmp_read))"
proof -
  have "False" if "''/tmp/*'' = q @ ''**''" for q
    using arg_cong [OF that, of rev] by simp
  moreover have "\<exists>q. ''/tmp/*'' = q @ ''*''" by (rule exI [of _ "''/tmp/''"]) simp
  ultimately show ?thesis by (auto simp: single_star_def ends_double_star_def tmp_read_def)
qed

theorem capability_restrict_scope_witness:
  "cap_typed tmp_read \<and> \<not> path_matches_pattern ''/etc/x'' (path_pattern (cap_data
     (snd (capability_restrict tmp_read ''/tmp/*/x''))))"
proof -
  have "capability_restrict tmp_read ''/tmp/*/x'' = (CAP_SUCCESS, snd (capability_restrict tmp_read ''/tmp/*/x''))"
    by (simp add: capability_restrict_def tmp_read_def cap_simps)
  moreover have "\<not> path_matches_pattern ''/etc/x'' (path_pattern (cap_data tmp_read))"
    by (simp add: tmp_read_def)
  ultimately show ?thesis
    using capability_restrict_scope [OF tmp_read_typed] tmp_read_star tmp_read_typed by blast
qed

text \<open>
  The pattern a delegation of \<open>h\<close> hands on: the constraint, cut to the length of the field,
  if there is one and the type has a pattern, else the pattern of \<open>h\<close>.
\<close>

definition delegated_pattern :: "capability \<Rightarrow> string option \<Rightarrow> string" where
  "delegated_pattern h constraint =
     (case constraint of None \<Rightarrow> path_pattern (cap_data h)
      | Some pattern \<Rightarrow> if is_file_type (cap_type h) then take 255 pattern else path_pattern (cap_data h))"

lemma delegate_effect:
  assumes "cp_caps granter = Some gs" and "cp_caps p = Some es" and "find (\<lambda>c. cap_type c = t) (caps gs) = Some h"
    and "capability_delegate m granter p t constraint = Some (r, p')" and "cp_caps p' = Some es'"
  shows "r = CAP_SUCCESS \<Longrightarrow> \<exists>c. caps es' = c # caps es \<and> cap_type c = t \<and> path_pattern (cap_data c) = delegated_pattern h constraint \<and>
      (constraint = None \<or> \<not> is_file_type t \<or> (\<exists>pattern. constraint = Some pattern \<and> capability_restrict (own h) pattern = (CAP_SUCCESS, c)))"
    and "r \<noteq> CAP_SUCCESS \<Longrightarrow> es' = es"
    and "r = CAP_EDUP \<Longrightarrow> is_file_type t \<Longrightarrow> \<exists>c \<in> set (caps es). cap_type c = t \<and> path_pattern (cap_data c) = delegated_pattern h constraint"
proof -
  have t: "cap_type h = t" using assms(3) by (auto simp: find_Some_iff)
  have cases: "p' = p \<and> r \<noteq> CAP_SUCCESS \<and> r \<noteq> CAP_EDUP \<or> (\<exists>c. proc_add c p = (r, p') \<and> cap_type c = t \<and> path_pattern (cap_data c) = delegated_pattern h constraint \<and>
      (constraint = None \<or> \<not> is_file_type t \<or> (\<exists>pattern. constraint = Some pattern \<and> capability_restrict (own h) pattern = (CAP_SUCCESS, c))))"
  proof (cases "cap_flags h AND CAP_FLAG_DELEGATABLE = 0 \<or> \<not> m")
    case True
    then show ?thesis using assms(1,3,4) by (auto simp: capability_delegate_def cap_codes split: if_splits)
  next
    case False
    show ?thesis
    proof (cases "constraint = None \<or> \<not> is_file_type t")
      case True
      then have "proc_add (own h) p = (r, p')"
        using assms(1,3,4) False by (auto simp: capability_delegate_def Let_def split: option.splits)
      moreover have "path_pattern (cap_data (own h)) = delegated_pattern h constraint"
        using True t by (auto simp: delegated_pattern_def split: option.split)
      ultimately show ?thesis using True t by (intro disjI2 exI [of _ "own h"]) auto
    next
      case c: False
      then obtain pattern where pt: "constraint = Some pattern" "is_file_type t" by auto
      obtain k c where k: "capability_restrict (own h) pattern = (k, c)" by fastforce
      show ?thesis
      proof (cases "k = CAP_SUCCESS")
        case True
        have "proc_add c p = (r, p')" using assms(1,3,4) False pt k True by (simp add: capability_delegate_def)
        moreover have "cap_type c = t" "path_pattern (cap_data c) = delegated_pattern h constraint"
          using restrict_success [of "own h" pattern c] k True t pt by (auto simp: delegated_pattern_def)
        ultimately show ?thesis using pt k True by blast
      next
        case False': False
        then show ?thesis using assms(1,3,4) False pt k by (simp add: capability_delegate_def cap_codes)
      qed
    qed
  qed
  show "r = CAP_SUCCESS \<Longrightarrow> \<exists>c. caps es' = c # caps es \<and> cap_type c = t \<and> path_pattern (cap_data c) = delegated_pattern h constraint \<and>
      (constraint = None \<or> \<not> is_file_type t \<or> (\<exists>pattern. constraint = Some pattern \<and> capability_restrict (own h) pattern = (CAP_SUCCESS, c)))"
    using cases assms(2,5) by (auto simp: proc_add_def capability_add_def cap_codes split: if_splits)
  show "r \<noteq> CAP_SUCCESS \<Longrightarrow> es' = es"
    using cases assms(2,5) by (auto simp: proc_add_def capability_add_def split: if_splits)
  show "r = CAP_EDUP \<Longrightarrow> is_file_type t \<Longrightarrow> \<exists>c \<in> set (caps es). cap_type c = t \<and> path_pattern (cap_data c) = delegated_pattern h constraint"
    using cases assms(2) by (auto simp: proc_add_def capability_add_def cap_duplicate_def list_ex_iff cap_codes split: if_splits)
qed

text \<open>
  C17: what a delegation gives, exactly. Let \<open>h\<close> be the granter's first capability of the
  type. After a successful call the grantee may open a path if and only if it could before
  or the path matches the pattern handed on; after a failed one nothing has changed. So
  without a constraint, and with any constraint if the pattern of \<open>h\<close> ends in one star, the
  grantee gains no path that the granter cannot open. If the pattern of \<open>h\<close> has no star, a
  constraint amplifies: constrained by that pattern followed by a star, the delegation opens
  every path below it to the grantee, although \<open>h\<close> opens one.
\<close>

theorem capability_delegate_scope:
  assumes "cap_run P gen" and "cp_caps (P granter) = Some gs" and "cp_caps (P grantee) = Some es"
    and "find (\<lambda>c. cap_type c = t) (caps gs) = Some h"
    and "capability_delegate m (P granter) (P grantee) t constraint = Some (r, p')" and "cp_caps p' = Some es'"
  shows "(fst (capability_check_file g es' path access) \<longleftrightarrow> fst (capability_check_file g es path access) \<or>
        r = CAP_SUCCESS \<and> access = t \<and> path_matches_pattern path (delegated_pattern h constraint)) \<and>
    (constraint = None \<or> single_star (path_pattern (cap_data h)) \<longrightarrow> fst (capability_check_file g es' path access) \<longrightarrow>
        fst (capability_check_file g es path access) \<or> fst (capability_check_file g gs path access)) \<and>
    (is_file_type t \<and> cap_data h = CapFile file \<and> CHR ''*'' \<notin> set file \<and> length file < 255 \<and> constraint = Some (file @ ''*'') \<and>
        r \<in> {CAP_SUCCESS, CAP_EDUP} \<longrightarrow> fst (capability_check_file g es' (file @ below) t))"
proof -
  note eff = delegate_effect [OF assms(2-6)]
  have h: "h \<in> set (caps gs)" "cap_type h = t" "cap_typed h"
    using assms(2,4) run_sound [OF assms(1), of granter] by (auto simp: find_Some_iff proc_sound_def set_typed_def)
  have exact: "fst (capability_check_file g es' pa ac) \<longleftrightarrow> fst (capability_check_file g es pa ac) \<or>
        r = CAP_SUCCESS \<and> ac = t \<and> path_matches_pattern pa (delegated_pattern h constraint)" for pa ac
  proof (cases "r = CAP_SUCCESS")
    case True
    with eff(1) show ?thesis by (auto simp: capability_check_file_def)
  qed (use eff(2) in simp)
  have holds: "fst (capability_check_file g gs path t)" if "path_matches_pattern path (path_pattern (cap_data h))"
    using that h(1,2) by (auto simp: capability_check_file_def list_ex_iff)
  have narrow: "path_matches_pattern path (path_pattern (cap_data h))"
    if r: "r = CAP_SUCCESS" and co: "constraint = None \<or> single_star (path_pattern (cap_data h))"
      and pm: "path_matches_pattern path (delegated_pattern h constraint)"
  proof (cases "constraint = None \<or> \<not> is_file_type t")
    case True
    then show ?thesis using pm h(2) by (auto simp: delegated_pattern_def split: option.splits)
  next
    case False
    then obtain c pattern where c: "path_pattern (cap_data c) = delegated_pattern h constraint"
      "capability_restrict (own h) pattern = (CAP_SUCCESS, c)" using eff(1) [OF r] by auto
    then show ?thesis using restrict_narrows [of "own h" pattern c path] h(3) co pm False by auto
  qed
  have amplify: "fst (capability_check_file g es' (file @ below) t)"
    if "is_file_type t" "CHR ''*'' \<notin> set file" "length file < 255" "constraint = Some (file @ ''*'')" "r \<in> {CAP_SUCCESS, CAP_EDUP}"
  proof -
    have "path_matches_pattern (file @ below) (delegated_pattern h constraint)"
      using that h(2) match_prefix_star [OF that(2)] by (simp add: delegated_pattern_def)
    moreover from this have "fst (capability_check_file g es (file @ below) t)" if "r = CAP_EDUP"
      using eff(3) [OF that \<open>is_file_type t\<close>] by (auto simp: capability_check_file_def list_ex_iff intro!: bexI)
    ultimately show ?thesis using exact [of "file @ below" t] that(5) by blast
  qed
  show ?thesis using exact [of path access] holds narrow amplify by blast
qed

section \<open>Removing authority\<close>

text \<open>
  C21: dropping privileges and revoking are exact. After a drop the eight system and process
  types are gone and every other type is held as before. A revocation succeeds exactly if
  the type was held, removes every capability of it, whatever its flags, permanent ones
  included, leaves the others in order, and advances the generation.
\<close>

theorem capability_removal_exact:
  assumes "cap_run P gen" and "cp_caps (P pid) = Some cs"
  shows "(fst (capability_has g (snd (capability_drop_privileged cs)) t) \<longleftrightarrow>
      fst (capability_has g cs t) \<and> t \<notin> {CAP_SYS_ADMIN, CAP_SYS_MODULE, CAP_SYS_TIME, CAP_SYS_BOOT,
        CAP_SYS_PTRACE, CAP_PROCESS_KILL, CAP_PROCESS_SETUID, CAP_PROCESS_SETGID}) \<and>
    (\<exists>p' cs'. capability_revoke gen (P pid) t =
        (if fst (capability_has g cs t) then (CAP_SUCCESS, p', gen + 1) else (CAP_ENOTFOUND, P pid, gen)) \<and>
      cp_caps p' = Some cs' \<and> caps cs' = filter (\<lambda>c. cap_type c \<noteq> t) (caps cs))"
proof (rule conjI)
  have ok: "cap_ok cs" using run_sound [OF assms(1), of pid] assms(2) by (simp add: proc_sound_def)
  then show "fst (capability_has g (snd (capability_drop_privileged cs)) t) \<longleftrightarrow>
      fst (capability_has g cs t) \<and> t \<notin> {CAP_SYS_ADMIN, CAP_SYS_MODULE, CAP_SYS_TIME, CAP_SYS_BOOT,
        CAP_SYS_PTRACE, CAP_PROCESS_KILL, CAP_PROCESS_SETUID, CAP_PROCESS_SETGID}"
    using cap_store.has_fold_remove [of cs g _ t]
    by (simp add: capability_drop_privileged_def del: fold.simps)
  show "\<exists>p' cs'. capability_revoke gen (P pid) t =
        (if fst (capability_has g cs t) then (CAP_SUCCESS, p', gen + 1) else (CAP_ENOTFOUND, P pid, gen)) \<and>
      cp_caps p' = Some cs' \<and> caps cs' = filter (\<lambda>c. cap_type c \<noteq> t) (caps cs)"
  proof (cases "fst (capability_has g cs t)")
    case True
    then obtain cs1 where "capability_remove t cs = (CAP_SUCCESS, cs1)"
      using remove_code(1) [of t cs] has_exact [OF ok] by (cases "capability_remove t cs") simp
    with True assms(2) remove_list [of t cs] show ?thesis by (simp add: capability_revoke_def)
  next
    case False
    then have "capability_remove t cs = (CAP_ENOTFOUND, cs)" using remove_code(2) has_exact [OF ok] by blast
    with False assms(2) remove_list [of t cs] show ?thesis
      by (cases "P pid") (auto simp: capability_revoke_def cap_codes intro!: exI [of _ "P pid"])
  qed
qed

lemma boot_set_caps: "cp_caps (boot_procs 1) = Some boot_set"
  by (simp add: boot_procs_def)

theorem capability_removal_exact_witness:
  "cap_run boot_procs capability_init \<and> cp_caps (boot_procs 1) = Some boot_set \<and>
   \<not> fst (capability_has 1 (snd (capability_drop_privileged boot_set)) CAP_SYS_ADMIN)"
  using capability_removal_exact [OF boot_procs_run boot_set_caps, of 1 CAP_SYS_ADMIN] boot_procs_run boot_set_caps
  by blast

text \<open>A process 2 that has executed an ordinary program, beside init.\<close>

definition exec_set :: cap_set where
  "exec_set = the (capability_reset_for_exec (\<lambda>_. True) capability_init ''/home/a'')"

definition exec_procs :: "u32 \<Rightarrow> cap_proc" where
  "exec_procs = boot_procs(2 := (boot_procs 2)\<lparr>cp_caps := Some exec_set\<rparr>)"

lemma exec_procs_run: "cap_run exec_procs capability_init"
  unfolding exec_procs_def
  by (rule cap_run.exec [OF boot_procs_run, of "\<lambda>_. True" "''/home/a''"])
    (simp add: exec_set_def capability_reset_for_exec_def capability_set_create_def)

lemma exec_procs_caps: "cp_caps (exec_procs 1) = Some boot_set" "cp_caps (exec_procs 2) = Some exec_set"
  by (simp_all add: exec_procs_def boot_procs_def)

definition root_read :: capability where
  "root_read = \<lparr>cap_type = CAP_FILE_READ, cap_flags = ALL_FLAGS, cap_refs = 1, cap_data = CapFile ''/*''\<rparr>"

lemma boot_set_read: "find (\<lambda>c. cap_type c = CAP_FILE_READ) (caps boot_set) = Some root_read"
  by (simp add: boot_set_def root_read_def capability_create_init_set_def capability_set_create_def capability_create_file_def
      capability_create_net_def capability_create_device_def capability_create_simple_def is_file_type_def is_net_type_def
      capability_add_def cap_duplicate_def cap_simps)

lemma root_read_star: "single_star (path_pattern (cap_data root_read))"
proof -
  have "False" if "''/*'' = q @ ''**''" for q using arg_cong [OF that, of rev] by simp
  moreover have "\<exists>q. ''/*'' = q @ ''*''" by (rule exI [of _ "''/''"]) simp
  ultimately show ?thesis by (auto simp: single_star_def ends_double_star_def root_read_def)
qed

lemma exec_set_read:
  "fst (capability_add (own root_read\<lparr>cap_data := CapFile ''/*b''\<rparr>) exec_set) = CAP_SUCCESS"
  by (simp add: exec_set_def root_read_def capability_reset_for_exec_def capability_set_create_def capability_create_file_def
      capability_create_net_def is_file_type_def is_net_type_def capability_add_def cap_duplicate_def cap_simps)

theorem capability_delegate_scope_witness:
  "cap_run exec_procs capability_init \<and> single_star (path_pattern (cap_data root_read)) \<and>
   (\<exists>p' es'. capability_delegate True (exec_procs 1) (exec_procs 2) CAP_FILE_READ (Some ''/*b'') = Some (CAP_SUCCESS, p') \<and>
     cp_caps p' = Some es' \<and> fst (capability_check_file 1 es' ''/ab'' CAP_FILE_READ) \<and> fst (capability_check_file 1 boot_set ''/ab'' CAP_FILE_READ))"
proof -
  let ?c = "own root_read\<lparr>cap_data := CapFile ''/*b''\<rparr>"
  let ?es = "snd (capability_add ?c exec_set)" and ?p = "(exec_procs 2)\<lparr>cp_caps := Some (snd (capability_add ?c exec_set))\<rparr>"
  have "capability_restrict (own root_read) ''/*b'' = (CAP_SUCCESS, ?c)"
    by (simp add: capability_restrict_def root_read_def cap_simps)
  moreover have "proc_add ?c (exec_procs 2) = (CAP_SUCCESS, ?p)" unfolding proc_add_def exec_procs_caps by (simp add: exec_set_read split_beta)
  ultimately have d: "capability_delegate True (exec_procs 1) (exec_procs 2) CAP_FILE_READ (Some ''/*b'') = Some (CAP_SUCCESS, ?p)"
    by (simp add: capability_delegate_def exec_procs_caps boot_set_read)
      (simp add: root_read_def ALL_FLAGS_def is_file_type_def cap_codes cap_simps)
  have e: "cp_caps ?p = Some ?es" by simp
  have m: "path_matches_pattern ''/ab'' (delegated_pattern root_read (Some ''/*b''))"
    by (simp add: delegated_pattern_def root_read_def is_file_type_def cap_simps)
  have no: "\<not> fst (capability_check_file 1 exec_set ''/ab'' CAP_FILE_READ)"
    by (simp add: exec_set_def capability_reset_for_exec_def capability_set_create_def capability_create_file_def
        capability_create_net_def is_file_type_def is_net_type_def capability_add_def cap_duplicate_def
        capability_check_file_def cap_fresh_def capability_set_refresh_def cap_simps)
  show ?thesis
    using capability_delegate_scope [OF exec_procs_run exec_procs_caps boot_set_read d e, of 1 "''/ab''" CAP_FILE_READ] m no
      exec_procs_run root_read_star d e by blast
qed

section \<open>Granting\<close>

text \<open>
  C25: \<^verbatim>\<open>capability_grant\<close> looks at types only. A process that holds one capability of a
  type can grant any capability of that type that carries the delegatable flag, whatever
  its pattern: from read access below \<^verbatim>\<open>/tmp/\<close> it hands out read access to every path.
\<close>

theorem capability_grant_amplifies:
  assumes "cap_run P gen" and "cp_caps (P granter) = Some gs" and "cp_caps (P grantee) = Some es"
    and "c \<in> set (caps gs)" and "cap_type c = CAP_FILE_READ"
    and "capability_create_file True CAP_FILE_READ ''*'' CAP_FLAG_DELEGATABLE = Some any_file"
  shows "\<exists>r p' es'. capability_grant True gen (P granter) (P grantee) any_file = (r, p') \<and>
    cp_caps p' = Some es' \<and> fst (capability_check_file gen es' path CAP_FILE_READ)"
proof -
  have any: "any_file = \<lparr>cap_type = CAP_FILE_READ, cap_flags = 2, cap_refs = 1, cap_data = CapFile ''*''\<rparr>"
    using assms(6) by (simp add: capability_create_file_def cap_codes split: if_splits)
  have "fst (capability_has gen gs CAP_FILE_READ)"
    using capability_set_has [OF assms(1,2), of gen CAP_FILE_READ] assms(4,5) by force
  then have g: "capability_grant True gen (P granter) (P grantee) any_file = proc_add any_file (P grantee)"
    using assms(2) by (simp add: capability_grant_def proc_has_def any capability_can_delegate_def cap_codes)
  let ?es = "snd (capability_add any_file es)"
  have "\<exists>e \<in> set (caps ?es). cap_type e = CAP_FILE_READ \<and> path_pattern (cap_data e) = ''*''"
    by (auto simp: capability_add_def list_ex_iff cap_duplicate_def any is_file_type_def cap_types)
  then have "fst (capability_check_file gen ?es path CAP_FILE_READ)"
    by (auto simp: capability_check_file_def list_ex_iff)
  then show ?thesis
    using assms(3) by (auto simp: g proc_add_def split_beta)
qed

theorem capability_grant_amplifies_witness:
  "cap_run exec_procs capability_init \<and> (\<exists>r p' es'. capability_grant True capability_init (exec_procs 2) (exec_procs 2)
      \<lparr>cap_type = CAP_FILE_READ, cap_flags = CAP_FLAG_DELEGATABLE, cap_refs = 1, cap_data = CapFile ''*''\<rparr> = (r, p') \<and>
    cp_caps p' = Some es' \<and> fst (capability_check_file capability_init es' ''/etc/x'' CAP_FILE_READ))"
proof -
  have "\<exists>c \<in> set (caps exec_set). cap_type c = CAP_FILE_READ"
    by (simp add: exec_set_def capability_reset_for_exec_def capability_set_create_def capability_create_file_def
        capability_create_net_def is_file_type_def is_net_type_def capability_add_def cap_duplicate_def cap_simps)
  then obtain c where "c \<in> set (caps exec_set)" "cap_type c = CAP_FILE_READ" by blast
  from capability_grant_amplifies [OF exec_procs_run exec_procs_caps(2) exec_procs_caps(2) this,
      of "\<lparr>cap_type = CAP_FILE_READ, cap_flags = CAP_FLAG_DELEGATABLE, cap_refs = 1, cap_data = CapFile ''*''\<rparr>" "''/etc/x''"]
  show ?thesis using exec_procs_run by (simp add: capability_create_file_def is_file_type_def cap_types)
qed

section \<open>Programs outside the system directories\<close>

lemma add_created_subset: "set (caps (add_created xs cs)) \<subseteq> {c. Some c \<in> set xs} \<union> set (caps cs)"
  by (induction xs cs rule: add_created.induct) (auto simp: capability_add_def split: if_splits)

definition tmp_path :: "string \<Rightarrow> bool" where
  "tmp_path path \<longleftrightarrow> take 5 path = ''/tmp/''"

definition home_path :: "string \<Rightarrow> bool" where
  "home_path path \<longleftrightarrow> take 6 path = ''/home/''"

lemma match_tmp: "path_matches_pattern path ''/tmp/*'' \<longleftrightarrow> tmp_path path"
  using match_prefix_star [of "''/tmp/''" path] by (simp add: tmp_path_def eval_nat_numeral)

lemma match_home: "path_matches_pattern path ''/home/*'' \<longleftrightarrow> home_path path"
  using match_prefix_star [of "''/home/''" path] by (simp add: home_path_def eval_nat_numeral)

lemma exec_caps:
  assumes "capability_reset_for_exec mem gen exe = Some cs" and "take 5 exe \<noteq> ''/bin/''" and "take 6 exe \<noteq> ''/sbin/''"
    and "c \<in> set (caps cs)"
  shows "cap_type c = CAP_FILE_READ \<and> cap_data c = CapFile ''/tmp/*'' \<or> cap_type c = CAP_FILE_WRITE \<and> cap_data c = CapFile ''/tmp/*'' \<or>
    cap_type c = CAP_FILE_READ \<and> cap_data c = CapFile ''/home/*'' \<or> cap_type c = CAP_NET_CONNECT \<and> cap_data c = CapNet ''*'' 80 443"
proof -
  let ?xs = "[capability_create_file (mem 1) CAP_FILE_READ ''/tmp/*'' CAP_FLAG_INHERITABLE,
           capability_create_file (mem 2) CAP_FILE_WRITE ''/tmp/*'' CAP_FLAG_INHERITABLE,
           capability_create_file (mem 3) CAP_FILE_READ ''/home/*'' CAP_FLAG_INHERITABLE,
           capability_create_net (mem 4) CAP_NET_CONNECT ''*'' 80 443 CAP_FLAG_INHERITABLE]"
  obtain cs0 where "capability_set_create (mem 0) gen = Some cs0" "cs = add_created ?xs cs0"
    using assms(1-3) by (auto simp: capability_reset_for_exec_def simp del: add_created.simps)
  then have "Some c \<in> set ?xs"
    using assms(4) add_created_subset [of ?xs cs0] create_ok [of "mem 0" gen cs0] by auto
  then show ?thesis
    unfolding list.set insert_iff empty_iff capability_create_file_def capability_create_net_def
    by (elim disjE) (simp_all split: if_splits)
qed

lemma exec_caps_all:
  assumes "capability_reset_for_exec mem gen exe = Some cs" and "take 5 exe \<noteq> ''/bin/''" and "take 6 exe \<noteq> ''/sbin/''"
    and "\<forall>n. mem n"
  shows "map (\<lambda>c. (cap_type c, cap_data c)) (caps cs) = [(CAP_NET_CONNECT, CapNet ''*'' 80 443),
    (CAP_FILE_READ, CapFile ''/home/*''), (CAP_FILE_WRITE, CapFile ''/tmp/*''), (CAP_FILE_READ, CapFile ''/tmp/*'')]"
  using assms by (auto simp: capability_reset_for_exec_def capability_set_create_def capability_create_file_def
      capability_create_net_def is_file_type_def is_net_type_def capability_add_def cap_duplicate_def cap_simps)

lemma list_ex_map_pair: "list_ex (\<lambda>c. P (f c)) xs = list_ex P (map f xs)"
  by (induction xs) simp_all

text \<open>
  C18: a program executed from outside \<^verbatim>\<open>/bin/\<close> and \<^verbatim>\<open>/sbin/\<close> is confined whatever its
  parent held and whichever allocations fail: it reads below \<^verbatim>\<open>/tmp/\<close> and \<^verbatim>\<open>/home/\<close> only,
  writes below \<^verbatim>\<open>/tmp/\<close> only, connects to ports 80 to 443 only, and reaches no device and no
  other process. When no allocation fails it may do all of these.
\<close>

theorem exec_confined:
  assumes "capability_reset_for_exec mem gen exe = Some cs" and "take 5 exe \<noteq> ''/bin/''" and "take 6 exe \<noteq> ''/sbin/''"
  shows "(is_file_type access \<longrightarrow> fst (capability_check_file g cs path access) \<longrightarrow>
      access = CAP_FILE_READ \<and> (tmp_path path \<or> home_path path) \<or> access = CAP_FILE_WRITE \<and> tmp_path path) \<and>
    (is_net_type access \<longrightarrow> fst (capability_check_net g cs host port access) \<longrightarrow>
      access = CAP_NET_CONNECT \<and> 80 \<le> port \<and> port \<le> 443) \<and>
    \<not> fst (capability_check_device g cs dev) \<and> \<not> fst (capability_check_ipc g cs pid) \<and>
    ((\<forall>n. mem n) \<longrightarrow>
      fst (capability_check_file g cs path CAP_FILE_READ) = (tmp_path path \<or> home_path path) \<and>
      fst (capability_check_file g cs path CAP_FILE_WRITE) = tmp_path path \<and>
      fst (capability_check_net g cs host port CAP_NET_CONNECT) = (80 \<le> port \<and> port \<le> 443))"
proof (intro conjI impI)
  note caps = exec_caps [OF assms]
  have ok: "cap_ok cs" using exec_set_sound [OF assms(1)] by simp
  show "access = CAP_FILE_READ \<and> (tmp_path path \<or> home_path path) \<or> access = CAP_FILE_WRITE \<and> tmp_path path"
    if a: "is_file_type access" "fst (capability_check_file g cs path access)"
  proof -
    obtain c where c: "c \<in> set (caps cs)" "cap_type c = access" "path_matches_pattern path (path_pattern (cap_data c))"
      using a(2) by (auto simp: capability_check_file_def list_ex_iff)
    from caps [OF c(1)] a(1) c(2,3) show ?thesis
      by (elim disjE conjE)
        (simp_all del: path_matches_pattern.simps add: match_tmp match_home is_file_type_def cap_types)
  qed
  show "access = CAP_NET_CONNECT" "80 \<le> port" "port \<le> 443"
    if a: "is_net_type access" "fst (capability_check_net g cs host port access)"
  proof -
    obtain c where c: "c \<in> set (caps cs)" "cap_type c = access" "net_port_match port (cap_data c)"
      using a(2) by (auto simp: capability_check_net_def list_ex_iff)
    have "cap_type c = CAP_NET_CONNECT \<and> cap_data c = CapNet ''*'' 80 443"
      using caps [OF c(1)] a(1) c(2) by (elim disjE conjE) (simp_all add: is_net_type_def cap_types)
    with c show "access = CAP_NET_CONNECT" "80 \<le> port" "port \<le> 443" by (simp_all add: net_port_match_def)
  qed
  have types: "cap_type c \<in> {CAP_FILE_READ, CAP_FILE_WRITE, CAP_NET_CONNECT}" if "c \<in> set (caps cs)" for c
    using caps [OF that] by blast
  show "\<not> fst (capability_check_device g cs dev)"
  proof
    assume "fst (capability_check_device g cs dev)"
    then obtain c where "c \<in> set (caps cs)" "cap_type c \<in> {CAP_DEVICE_ACCESS, CAP_GPU, CAP_AUDIO, CAP_USB, CAP_SERIAL}"
      by (auto simp: capability_check_device_def list_ex_iff)
    with types [of c] show False by (auto simp: cap_types)
  qed
  show "\<not> fst (capability_check_ipc g cs pid)"
  proof
    assume "fst (capability_check_ipc g cs pid)"
    then obtain c where "c \<in> set (caps cs)" "cap_type c \<in> {CAP_IPC_BROADCAST, CAP_IPC}"
      using has_exact [of "cap_fresh g cs" g] ok by (auto simp: check_ipc_iff list_ex_iff)
    with types [of c] show False by (auto simp: cap_types)
  qed
  assume "\<forall>n. mem n"
  note list = exec_caps_all [OF assms this]
  have dec: "fst (capability_check_file g cs path a) =
      list_ex (\<lambda>(t, d). t = a \<and> path_matches_pattern path (path_pattern d)) (map (\<lambda>c. (cap_type c, cap_data c)) (caps cs))" for a
    by (simp add: capability_check_file_def list_ex_map_pair [symmetric])
  show "fst (capability_check_file g cs path CAP_FILE_READ) = (tmp_path path \<or> home_path path)"
    "fst (capability_check_file g cs path CAP_FILE_WRITE) = tmp_path path"
    unfolding dec list by (simp_all del: path_matches_pattern.simps add: match_tmp match_home cap_types) blast
  have "fst (capability_check_net g cs host port CAP_NET_CONNECT) =
      list_ex (\<lambda>(t, d). t = CAP_NET_CONNECT \<and> host_matches_pattern host (net_host d) \<and> net_port_match port d)
        (map (\<lambda>c. (cap_type c, cap_data c)) (caps cs))"
    by (simp add: capability_check_net_def list_ex_map_pair [symmetric])
  then show "fst (capability_check_net g cs host port CAP_NET_CONNECT) = (80 \<le> port \<and> port \<le> 443)"
    unfolding list by (simp add: host_matches_pattern_def net_port_match_def cap_types)
qed

theorem exec_confined_witness:
  "capability_reset_for_exec (\<lambda>_. True) capability_init ''/home/a'' = Some exec_set \<and>
   fst (capability_check_file 1 exec_set ''/tmp/x'' CAP_FILE_WRITE) \<and>
   \<not> fst (capability_check_file 1 exec_set ''/etc/x'' CAP_FILE_WRITE) \<and> \<not> fst (capability_check_device 1 exec_set 7)"
proof -
  have "capability_reset_for_exec (\<lambda>_. True) capability_init ''/home/a'' = Some exec_set"
    by (simp add: exec_set_def capability_reset_for_exec_def capability_set_create_def)
  from this exec_confined [OF this, of 0 1 "''/tmp/x''" "[]" 0 7 0] exec_confined [OF this, of 0 1 "''/etc/x''" "[]" 0 7 0]
  show ?thesis by (simp add: tmp_path_def eval_nat_numeral)
qed

end
