(* ===== verification/User_Copy.thy ===== *)
theory User_Copy
  imports Kernel_Prelude
begin

unbundle bit_operations_syntax

text \<open>
  The boundary between kernel and user memory, \<^verbatim>\<open>kernel/core/mem/vmm.c\<close>: address checks, the
  software walk of the live page tables, and the three copy routines every system call
  relies on.

  Memory is physical: \<open>entries\<close> gives the page-table entry at a physical address, \<open>pmem\<close>
  the data byte at one, \<open>cr3\<close> is the register, \<open>smap\<close> whether the processor enforces
  supervisor-mode access prevention. Page tables and data frames are separate maps. What
  the processor does with an access from ring 0 is \<open>user_read\<close> and \<open>user_write\<close>: \<open>None\<close> is a
  page fault, which the kernel does not survive. Kernel pointers are taken as valid.
\<close>

section \<open>Memory and the processor\<close>

record mmu =
  cr3 :: u64
  entries :: "u64 \<Rightarrow> u64"
  pmem :: "u64 \<Rightarrow> u8"
  smap :: bool

definition PAGE_PRESENT :: u64 where "PAGE_PRESENT = 0x01"
definition PAGE_WRITE :: u64 where "PAGE_WRITE = 0x02"
definition PAGE_USER :: u64 where "PAGE_USER = 0x04"
definition PAGE_HUGE :: u64 where "PAGE_HUGE = 0x80"
definition ADDR_MASK :: u64 where "ADDR_MASK = 0x000FFFFFFFFFF000"
definition USER_SPACE_END :: u64 where "USER_SPACE_END = 0x0000800000000000"

lemmas page_flags [page_simps] = PAGE_PRESENT_def PAGE_WRITE_def PAGE_USER_def PAGE_HUGE_def

definition table_entry :: "'a mmu_scheme \<Rightarrow> u64 \<Rightarrow> nat \<Rightarrow> u64 \<Rightarrow> u64" where
  "table_entry mm table shift va = entries mm (table + 8 * (drop_bit shift va AND 0x1FF))"

text \<open>
  The walk that the accessibility checks write out: the leaf entry, or nothing if an upper
  level is absent. The flag says that the leaf is a 2 MB page; the last component is the
  conjunction of the three upper entries, which only the processor looks at.
\<close>

definition page_walk :: "'a mmu_scheme \<Rightarrow> u64 \<Rightarrow> (u64 \<times> bool \<times> u64) option" where
  "page_walk mm va =
     (let pml4e = table_entry mm (PAGE_BASE (cr3 mm)) 39 va
      in if pml4e AND PAGE_PRESENT = 0 then None
         else let pdpte = table_entry mm (pml4e AND ADDR_MASK) 30 va
              in if pdpte AND PAGE_PRESENT = 0 then None
                 else let pde = table_entry mm (pdpte AND ADDR_MASK) 21 va
                      in if pde AND PAGE_PRESENT = 0 then None
                         else if pde AND PAGE_HUGE \<noteq> 0 then Some (pde, True, pml4e AND pdpte)
                         else Some (table_entry mm (pde AND ADDR_MASK) 12 va, False, pml4e AND pdpte AND pde))"

text \<open>Where the processor finds a byte of a mapped page.\<close>

definition translate :: "u64 \<Rightarrow> bool \<Rightarrow> u64 \<Rightarrow> u64" where
  "translate leaf huge va =
     (if huge then (leaf AND 0x000FFFFFFFE00000) OR (va AND 0x1FFFFF)
      else (leaf AND ADDR_MASK) OR PAGE_OFFSET va)"

definition user_byte :: "'a mmu_scheme \<Rightarrow> u64 \<Rightarrow> u8" where
  "user_byte mm va = (case page_walk mm va of None \<Rightarrow> 0 | Some (leaf, huge, _) \<Rightarrow> pmem mm (translate leaf huge va))"

text \<open>
  A ring-0 read needs a present page and, on a page that is user at all levels under SMAP,
  the AC flag; a write needs the page writable at all levels as well.
\<close>

definition user_read :: "'a mmu_scheme \<Rightarrow> bool \<Rightarrow> u64 \<Rightarrow> u8 option" where
  "user_read mm ac va =
     (case page_walk mm va of None \<Rightarrow> None
      | Some (leaf, huge, upper) \<Rightarrow>
          if leaf AND PAGE_PRESENT = 0 then None
          else if smap mm \<and> leaf AND upper AND PAGE_USER \<noteq> 0 \<and> \<not> ac then None
          else Some (pmem mm (translate leaf huge va)))"

definition user_write :: "u64 \<Rightarrow> u8 \<Rightarrow> 'a mmu_scheme \<Rightarrow> 'a mmu_scheme option" where
  "user_write va b mm =
     (case page_walk mm va of None \<Rightarrow> None
      | Some (leaf, huge, upper) \<Rightarrow>
          if leaf AND PAGE_PRESENT = 0 \<or> leaf AND upper AND PAGE_WRITE = 0 then None
          else Some (mm\<lparr>pmem := (pmem mm)(translate leaf huge va := b)\<rparr>))"

section \<open>Checks\<close>

definition validate_user_buffer :: "u64 \<Rightarrow> u64 \<Rightarrow> bool" where
  "validate_user_buffer ptr n =
     (if ptr = 0 then False
      else let end = ptr + n
           in if end < ptr then False
              else if ptr \<ge> USER_SPACE_END then False
              else if end > USER_SPACE_END then False
              else True)"

definition is_user_address :: "u64 \<Rightarrow> bool" where
  "is_user_address addr \<longleftrightarrow> addr < USER_SPACE_END"

definition page_grants :: "'a mmu_scheme \<Rightarrow> u64 \<Rightarrow> u64 \<Rightarrow> bool" where
  "page_grants mm required va =
     (case page_walk mm va of None \<Rightarrow> False | Some (leaf, _, _) \<Rightarrow> leaf AND required = required)"

definition user_page_is_accessible :: "'a mmu_scheme \<Rightarrow> u64 \<Rightarrow> bool" where
  "user_page_is_accessible mm addr = page_grants mm (PAGE_PRESENT OR PAGE_USER) (PAGE_BASE addr)"

function pages_grant :: "'a mmu_scheme \<Rightarrow> u64 \<Rightarrow> u64 \<Rightarrow> u64 \<Rightarrow> bool" where
  "pages_grant mm required va last_page =
     (if va \<le> last_page then
        if \<not> page_grants mm required va then False
        else if va + 0x1000 < va then True
        else pages_grant mm required (va + 0x1000) last_page
      else True)"
  by pat_completeness auto
termination
proof (relation "measure (\<lambda>(mm, required, va, last_page). 2 ^ 64 - unat va)")
  fix mm :: "'a mmu_scheme" and required va last_page :: u64
  assume "\<not> va + 0x1000 < va"
  then have "unat va < unat (va + 0x1000)" by (simp add: not_less unat_plus_simple)
  moreover have "unat (va + 0x1000) < 2 ^ LENGTH(64)" by (rule unsigned_less)
  ultimately show "((mm, required, va + 0x1000, last_page), mm, required, va, last_page)
      \<in> measure (\<lambda>(mm, required, va, last_page). 2 ^ 64 - unat va)" by simp
qed simp

declare pages_grant.simps [simp del]

definition user_range_is_accessible :: "'a mmu_scheme \<Rightarrow> u64 \<Rightarrow> u64 \<Rightarrow> bool \<Rightarrow> bool" where
  "user_range_is_accessible mm addr n need_write =
     pages_grant mm ((PAGE_PRESENT OR PAGE_USER) OR (if need_write then PAGE_WRITE else 0))
       (PAGE_BASE addr) (PAGE_BASE (addr + n - 1))"

section \<open>Copying\<close>

datatype 'a copy_outcome = COPY_SUCCESS 'a | COPY_EFAULT | Page_Fault

definition span :: "u64 \<Rightarrow> u64 \<Rightarrow> u64 list" where
  "span addr n = map (\<lambda>i. addr + of_nat i) [0..<unat n]"

fun read_all :: "'a mmu_scheme \<Rightarrow> u64 list \<Rightarrow> u8 list option" where
  "read_all mm [] = Some []"
| "read_all mm (va # vas) =
     (case user_read mm True va of None \<Rightarrow> None | Some b \<Rightarrow> map_option ((#) b) (read_all mm vas))"

fun write_all :: "(u64 \<times> u8) list \<Rightarrow> 'a mmu_scheme \<Rightarrow> 'a mmu_scheme option" where
  "write_all [] mm = Some mm"
| "write_all ((va, b) # rest) mm =
     (case user_write va b mm of None \<Rightarrow> None | Some mm' \<Rightarrow> write_all rest mm')"

definition user_range_ok :: "u64 \<Rightarrow> u64 \<Rightarrow> bool" where
  "user_range_ok addr n =
     (if addr = 0 \<or> n = 0 then False
      else if n > USER_SPACE_END then False
      else if \<not> is_user_address addr then False
      else if addr > USER_SPACE_END - n then False
      else is_user_address (addr + n - 1))"

definition copy_from_user :: "'a mmu_scheme \<Rightarrow> u64 \<Rightarrow> u64 \<Rightarrow> u8 list copy_outcome" where
  "copy_from_user mm user_src n =
     (if \<not> user_range_ok user_src n then COPY_EFAULT
      else if \<not> user_range_is_accessible mm user_src n False then COPY_EFAULT
      else case read_all mm (span user_src n) of None \<Rightarrow> Page_Fault | Some bytes \<Rightarrow> COPY_SUCCESS bytes)"

text \<open>
  \<open>cow\<close> is \<^verbatim>\<open>cow_handle_write\<close>, called on every page of the range if the first check fails.
\<close>

definition copy_to_user :: "(u64 \<Rightarrow> 'a mmu_scheme \<Rightarrow> 'a mmu_scheme) \<Rightarrow> 'a mmu_scheme \<Rightarrow> u64 \<Rightarrow> u8 list \<Rightarrow>
    'a mmu_scheme copy_outcome" where
  "copy_to_user cow mm user_dst bytes =
     (let n = of_nat (length bytes);
          store = (\<lambda>mm. case write_all (zip (span user_dst n) bytes) mm of
            None \<Rightarrow> Page_Fault | Some mm' \<Rightarrow> COPY_SUCCESS mm')
      in if \<not> user_range_ok user_dst n then COPY_EFAULT
         else if user_range_is_accessible mm user_dst n True then store mm
         else let lo = PAGE_BASE user_dst; hi = PAGE_BASE (user_dst + n - 1);
                  mm' = fold cow (map (\<lambda>k. lo + 0x1000 * of_nat k) [0..<Suc (unat ((hi - lo) div 0x1000))]) mm
              in if \<not> user_range_is_accessible mm' user_dst n True then COPY_EFAULT else store mm')"

text \<open>
  The loop of \<^verbatim>\<open>copy_user_string\<close>: \<open>copied\<close> bytes so far, \<open>left\<close> still allowed, \<open>ac\<close> the AC
  flag. The value is the string without its terminator.
\<close>

fun copy_string :: "'a mmu_scheme \<Rightarrow> u64 \<Rightarrow> nat \<Rightarrow> nat \<Rightarrow> bool \<Rightarrow> u8 list copy_outcome" where
  "copy_string mm src copied 0 ac = COPY_SUCCESS []"
| "copy_string mm src copied (Suc left) ac =
     (let cur_addr = src + of_nat copied
      in if \<not> is_user_address cur_addr then COPY_SUCCESS []
         else if PAGE_OFFSET cur_addr = 0 \<and> \<not> user_page_is_accessible mm cur_addr then COPY_EFAULT
         else let ac' = (PAGE_OFFSET cur_addr = 0 \<or> ac)
              in case user_read mm ac' cur_addr of
                   None \<Rightarrow> Page_Fault
                 | Some c \<Rightarrow>
                     (if c = 0 then COPY_SUCCESS []
                      else case copy_string mm src (Suc copied) left ac' of
                             COPY_SUCCESS s \<Rightarrow> COPY_SUCCESS (c # s)
                           | COPY_EFAULT \<Rightarrow> COPY_EFAULT
                           | Page_Fault \<Rightarrow> Page_Fault))"

definition copy_user_string :: "'a mmu_scheme \<Rightarrow> u64 \<Rightarrow> nat \<Rightarrow> u8 list copy_outcome" where
  "copy_user_string mm user_src max_bytes =
     (if user_src = 0 \<or> max_bytes = 0 then COPY_EFAULT
      else if \<not> is_user_address user_src then COPY_EFAULT
      else copy_string mm user_src 0 (max_bytes - 1) False)"

definition validate_user_string :: "'a mmu_scheme \<Rightarrow> u64 \<Rightarrow> u64 \<Rightarrow> bool copy_outcome" where
  "validate_user_string mm str max_len =
     (if \<not> validate_user_buffer str 1 then COPY_SUCCESS False
      else case copy_from_user mm str (if max_len < 256 then max_len else 256) of
             COPY_SUCCESS bytes \<Rightarrow> COPY_SUCCESS (0 \<in> set bytes)
           | COPY_EFAULT \<Rightarrow> COPY_SUCCESS False
           | Page_Fault \<Rightarrow> Page_Fault)"

end
