(* ===== verification/User_Copy_Properties.thy ===== *)
theory User_Copy_Properties
  imports User_Copy
begin

unbundle bit_operations_syntax

text \<open>
  Properties of the user-memory boundary: the page loop of the accessibility check covers
  exactly the bytes of the range, bulk copies never fault, strings are only safe from a page
  boundary on, and copying out and in again is the identity.
\<close>

section \<open>The page loop\<close>

lemma table_entry_page: "12 \<le> s \<Longrightarrow> table_entry mm table s (PAGE_BASE va) = table_entry mm table s va"
  by (simp add: table_entry_def PAGE_BASE_index)

lemma page_walk_page: "page_walk mm (PAGE_BASE va) = page_walk mm va"
  by (simp add: page_walk_def Let_def table_entry_page)

lemma page_grants_page: "page_grants mm r (PAGE_BASE va) = page_grants mm r va"
  by (simp add: page_grants_def page_walk_page)

lemma pages_grant_iff:
  assumes "unat va mod 4096 = 0" and "unat last_page + 4096 < 2 ^ 64"
  shows "pages_grant mm r va last_page \<longleftrightarrow>
    (\<forall>w. va \<le> w \<and> w \<le> last_page \<and> unat w mod 4096 = 0 \<longrightarrow> page_grants mm r w)"
  using assms
proof (induction mm r va last_page rule: pages_grant.induct)
  case (1 mm r va last_page)
  show ?case
  proof (cases "va \<le> last_page")
    case True
    then have sum: "unat (va + 0x1000) = unat va + 4096"
      using "1.prems"(2) unat_add_lem [of va "0x1000"] by (simp add: word_le_nat_alt)
    then have nw: "\<not> va + 0x1000 < va" by (simp add: word_less_nat_alt)
    have split: "va \<le> w \<longleftrightarrow> w = va \<or> va + 0x1000 \<le> w" if w: "unat w mod 4096 = 0" for w
    proof -
      have "unat va \<le> unat w \<longleftrightarrow> unat w = unat va \<or> unat va + 4096 \<le> unat w"
      proof -
        obtain a b where "unat va = 4096 * a" "unat w = 4096 * b"
          using w "1.prems"(1) by (auto simp: mod_eq_0_iff_dvd dvd_def)
        then show ?thesis by auto
      qed
      then show ?thesis by (simp add: word_le_nat_alt sum word_unat_eq_iff)
    qed
    show ?thesis
    proof (cases "page_grants mm r va")
      case g: True
      have "pages_grant mm r (va + 0x1000) last_page \<longleftrightarrow>
          (\<forall>w. va + 0x1000 \<le> w \<and> w \<le> last_page \<and> unat w mod 4096 = 0 \<longrightarrow> page_grants mm r w)"
        using "1.IH" [OF True _ nw] g sum "1.prems" by simp
      moreover have "pages_grant mm r va last_page = pages_grant mm r (va + 0x1000) last_page"
        using True g nw by (subst pages_grant.simps) simp
      moreover have "(\<forall>w. va \<le> w \<and> w \<le> last_page \<and> unat w mod 4096 = 0 \<longrightarrow> page_grants mm r w) \<longleftrightarrow>
          (\<forall>w. (w = va \<or> va + 0x1000 \<le> w) \<and> w \<le> last_page \<and> unat w mod 4096 = 0 \<longrightarrow> page_grants mm r w)"
      proof (intro iff_allI)
        fix w
        show "(va \<le> w \<and> w \<le> last_page \<and> unat w mod 4096 = 0 \<longrightarrow> page_grants mm r w) \<longleftrightarrow>
            ((w = va \<or> va + 0x1000 \<le> w) \<and> w \<le> last_page \<and> unat w mod 4096 = 0 \<longrightarrow> page_grants mm r w)"
          using split [of w] by argo
      qed
      ultimately show ?thesis using g by auto
    next
      case False
      then have "\<not> pages_grant mm r va last_page" using True by (subst pages_grant.simps) simp
      moreover have "va \<le> va \<and> va \<le> last_page \<and> unat va mod 4096 = 0" using True "1.prems"(1) by simp
      ultimately show ?thesis using False by metis
    qed
  next
    case False
    then have "pages_grant mm r va last_page" by (subst pages_grant.simps) simp
    with False show ?thesis by (metis order_trans)
  qed
qed


lemma span_unat:
  "unat addr + unat n \<le> 2 ^ 47 \<Longrightarrow> i < unat n \<Longrightarrow> unat (addr + of_nat i) = unat addr + i" for addr n :: u64
  by (simp add: unat_word_ariths unsigned_of_nat take_bit_eq_mod)

lemma span_last:
  fixes addr n :: u64
  assumes "n \<noteq> 0" and "unat addr + unat n \<le> 2 ^ 47"
  shows "unat (addr + n - 1) = unat addr + unat n - 1"
proof -
  have n: "0 < unat n" using assms(1) by (simp add: unat_gt_0)
  then have "addr + n - 1 = addr + of_nat (unat n - 1)" by (simp add: of_nat_diff)
  then show ?thesis using span_unat [OF assms(2), of "unat n - 1"] n by (simp add: add_diff_eq)
qed

lemma span_grant_iff:
  assumes "n \<noteq> 0" and "unat addr + unat n \<le> 2 ^ 47"
  shows "pages_grant mm r (PAGE_BASE addr) (PAGE_BASE (addr + n - 1)) \<longleftrightarrow>
    (\<forall>va \<in> set (span addr n). page_grants mm r va)"
proof -
  have n: "0 < unat n" using assms(1) by (simp add: unat_gt_0)
  note sum = span_unat [OF assms(2)] and last = span_last [OF assms]
  have iff: "pages_grant mm r (PAGE_BASE addr) (PAGE_BASE (addr + n - 1)) \<longleftrightarrow>
      (\<forall>w. PAGE_BASE addr \<le> w \<and> w \<le> PAGE_BASE (addr + n - 1) \<and> unat w mod 4096 = 0 \<longrightarrow> page_grants mm r w)"
  proof (rule pages_grant_iff)
    show "unat (PAGE_BASE addr) mod 4096 = 0" by (rule PAGE_BASE_mod)
    have "unat (PAGE_BASE (addr + n - 1)) \<le> unat addr + unat n - 1" using PAGE_BASE_le [of "addr + n - 1"] last by simp
    with assms(2) show "unat (PAGE_BASE (addr + n - 1)) + 4096 < 2 ^ 64" by simp
  qed
  show ?thesis
  proof
    assume a: "pages_grant mm r (PAGE_BASE addr) (PAGE_BASE (addr + n - 1))"
    have all: "page_grants mm r w"
      if "PAGE_BASE addr \<le> w" "w \<le> PAGE_BASE (addr + n - 1)" "unat w mod 4096 = 0" for w
      using iffD1 [OF iff a, rule_format, of w] that by simp
    show "\<forall>va \<in> set (span addr n). page_grants mm r va"
    proof
      fix va assume "va \<in> set (span addr n)"
      then obtain i where i: "i < unat n" "va = addr + of_nat i" by (auto simp: span_def)
      have "page_grants mm r (PAGE_BASE va)"
      proof (rule all)
        show "PAGE_BASE addr \<le> PAGE_BASE va" using i sum [OF i(1)] by (intro PAGE_BASE_mono) (simp add: word_le_nat_alt)
        show "PAGE_BASE va \<le> PAGE_BASE (addr + n - 1)"
          using i n sum [OF i(1)] last by (intro PAGE_BASE_mono) (simp add: word_le_nat_alt)
      qed (rule PAGE_BASE_mod)
      then show "page_grants mm r va" by (simp add: page_grants_page)
    qed
  next
    assume all: "\<forall>va \<in> set (span addr n). page_grants mm r va"
    show "pages_grant mm r (PAGE_BASE addr) (PAGE_BASE (addr + n - 1))"
      unfolding iff
    proof (intro allI impI, elim conjE)
      fix w assume w: "PAGE_BASE addr \<le> w" "w \<le> PAGE_BASE (addr + n - 1)" "unat w mod 4096 = 0"
      show "page_grants mm r w"
      proof (cases "w \<le> addr")
        case True
        obtain b where b: "unat w = 4096 * b" using w(3) by (auto simp: mod_eq_0_iff_dvd dvd_def)
        have "unat (PAGE_BASE addr) = 4096 * (unat addr div 4096)"
          by (rule unat_PAGE_BASE_mult)
        moreover have "b \<le> unat addr div 4096"
          using True b by (simp add: word_le_nat_alt less_eq_div_iff_mult_less_eq mult.commute)
        ultimately have "w = PAGE_BASE addr" using w(1) b by (simp add: word_le_nat_alt word_unat_eq_iff)
        moreover have "addr \<in> set (span addr n)" using n by (force simp: span_def)
        ultimately show ?thesis using all by (simp add: page_grants_page)
      next
        case False
        let ?i = "unat w - unat addr"
        have "?i < unat n"
          using w(2) False n PAGE_BASE_le [of "addr + n - 1"] last by (simp add: word_le_nat_alt)
        moreover have "w = addr + of_nat ?i" using False by (simp add: word_le_nat_alt of_nat_diff)
        ultimately have "w \<in> set (span addr n)" by (auto simp: span_def)
        with all show ?thesis by blast
      qed
    qed
  qed
qed

section \<open>Copying in\<close>

lemma user_space_end: "unat USER_SPACE_END = 2 ^ 47"
  by (simp add: USER_SPACE_END_def)

lemma is_user_address_iff: "is_user_address addr \<longleftrightarrow> unat addr < 2 ^ 47"
  by (simp add: is_user_address_def word_less_nat_alt user_space_end del: power_numeral)

lemma user_range_ok_iff: "user_range_ok addr n \<longleftrightarrow> addr \<noteq> 0 \<and> n \<noteq> 0 \<and> unat addr + unat n \<le> 2 ^ 47"
proof (cases "addr = 0 \<or> n = 0 \<or> n > USER_SPACE_END")
  case True
  then show ?thesis by (auto simp: user_range_ok_def word_less_nat_alt user_space_end)
next
  case False
  then have n: "unat n \<le> 2 ^ 47" "0 < unat n" by (simp_all add: word_less_nat_alt user_space_end unat_gt_0 not_less)
  then have "unat (USER_SPACE_END - n) = 2 ^ 47 - unat n"
    using unat_sub [of n USER_SPACE_END] by (simp add: word_le_nat_alt user_space_end)
  then have le: "addr > USER_SPACE_END - n \<longleftrightarrow> \<not> unat addr + unat n \<le> 2 ^ 47"
    using n by (auto simp: word_less_nat_alt)
  have "is_user_address addr \<and> is_user_address (addr + n - 1)" if "unat addr + unat n \<le> 2 ^ 47"
  proof -
    have "unat (addr + n - 1) = unat addr + unat n - 1" using span_last that False by blast
    with that n show ?thesis by (simp add: is_user_address_iff)
  qed
  with False le show ?thesis by (auto simp: user_range_ok_def)
qed

lemma or_absorb: "(x OR y) AND x = x" for x y :: u64
  by (rule bit_eqI) (auto simp: bit_simps)

lemma grants_present:
  assumes "page_grants mm r va" and "r AND PAGE_PRESENT = PAGE_PRESENT"
  shows "user_read mm True va = Some (user_byte mm va)"
proof -
  obtain leaf huge upper where w: "page_walk mm va = Some (leaf, huge, upper)" "leaf AND r = r"
    using assms(1) by (auto simp: page_grants_def split: option.splits)
  have "leaf AND PAGE_PRESENT = (leaf AND r) AND PAGE_PRESENT" by (metis assms(2) and.assoc w(2))
  then have "leaf AND PAGE_PRESENT \<noteq> 0" using assms(2) w(2) by (simp add: PAGE_PRESENT_def)
  with w show ?thesis by (simp add: user_read_def user_byte_def)
qed

lemma read_all_granted:
  "\<forall>va \<in> set vas. page_grants mm r va \<Longrightarrow> r AND PAGE_PRESENT = PAGE_PRESENT \<Longrightarrow>
   read_all mm vas = Some (map (user_byte mm) vas)"
  by (induction vas) (simp_all add: grants_present [of mm r])

lemma copy_from_user_eq:
  "copy_from_user mm src n =
     (if src \<noteq> 0 \<and> n \<noteq> 0 \<and> unat src + unat n \<le> 2 ^ 47 \<and>
         list_all (page_grants mm (PAGE_PRESENT OR PAGE_USER)) (span src n)
      then COPY_SUCCESS (map (user_byte mm) (span src n)) else COPY_EFAULT)"
proof (cases "user_range_ok src n")
  case True
  then have ok: "src \<noteq> 0" "n \<noteq> 0" "unat src + unat n \<le> 2 ^ 47" by (simp_all add: user_range_ok_iff)
  have acc: "user_range_is_accessible mm src n False \<longleftrightarrow>
      list_all (page_grants mm (PAGE_PRESENT OR PAGE_USER)) (span src n)"
    using span_grant_iff [OF ok(2,3), where mm = mm] by (simp add: user_range_is_accessible_def list_all_iff)
  have "read_all mm (span src n) = Some (map (user_byte mm) (span src n))"
    if "list_all (page_grants mm (PAGE_PRESENT OR PAGE_USER)) (span src n)"
    using that by (intro read_all_granted [OF _ or_absorb]) (simp add: list_all_iff)
  with True ok acc show ?thesis by (simp add: copy_from_user_def)
next
  case False
  then show ?thesis unfolding user_range_ok_iff by (auto simp: copy_from_user_def user_range_ok_iff)
qed

text \<open>
  C13: \<^verbatim>\<open>copy_from_user\<close> never faults, whatever pointer and length a process passes and
  whatever its page tables hold. It succeeds exactly if the range is non-empty, starts above
  zero, ends at or below the user boundary without wrapping, and every byte lies on a page
  whose leaf entry is present and user-accessible; then the bytes are those the processor
  finds there.
\<close>

theorem copy_from_user_exact:
  "copy_from_user mm src n =
     (if src \<noteq> 0 \<and> n \<noteq> 0 \<and> unat src + unat n \<le> 2 ^ 47 \<and>
         list_all (page_grants mm (PAGE_PRESENT OR PAGE_USER)) (span src n)
      then COPY_SUCCESS (map (user_byte mm) (span src n)) else COPY_EFAULT)"
  by (rule copy_from_user_eq)

section \<open>Strings\<close>

lemma same_page:
  fixes x :: u64
  assumes "is_user_address x" and "PAGE_OFFSET (x + 1) \<noteq> 0"
  shows "PAGE_BASE (x + 1) = PAGE_BASE x"
proof -
  have u: "unat (x + 1) = Suc (unat x)"
    using assms(1) by (simp add: is_user_address_iff unat_word_ariths)
  then have "Suc (unat x) mod 4096 \<noteq> 0" using assms(2) by (simp add: PAGE_OFFSET_zero)
  then have "Suc (unat x) div 4096 = unat x div 4096" by (simp add: div_Suc)
  then show ?thesis by (simp add: word_unat_eq_iff unat_PAGE_BASE_mult u)
qed

lemma accessible_read:
  "user_page_is_accessible mm va \<Longrightarrow> user_read mm True va = Some (user_byte mm va)"
  by (rule grants_present [OF _ or_absorb [of PAGE_PRESENT PAGE_USER]])
    (simp add: user_page_is_accessible_def page_grants_page)

text \<open>
  What a careful reader of a user string would return, given the addresses it may look at:
  the bytes before the first zero, unless an inaccessible page comes first.
\<close>

definition string_outcome :: "'a mmu_scheme \<Rightarrow> u64 list \<Rightarrow> u8 list copy_outcome" where
  "string_outcome mm vas =
     (let readable = takeWhile (user_page_is_accessible mm) vas;
          bytes = takeWhile (\<lambda>c. c \<noteq> 0) (map (user_byte mm) readable)
      in if length bytes < length readable \<or> length readable = length vas then COPY_SUCCESS bytes else COPY_EFAULT)"

lemma string_outcome_simps:
  "string_outcome mm [] = COPY_SUCCESS []"
  "\<not> user_page_is_accessible mm va \<Longrightarrow> string_outcome mm (va # vas) = COPY_EFAULT"
  "user_page_is_accessible mm va \<Longrightarrow> user_byte mm va = 0 \<Longrightarrow> string_outcome mm (va # vas) = COPY_SUCCESS []"
  "user_page_is_accessible mm va \<Longrightarrow> user_byte mm va \<noteq> 0 \<Longrightarrow> string_outcome mm (va # vas) =
     (case string_outcome mm vas of COPY_SUCCESS s \<Rightarrow> COPY_SUCCESS (user_byte mm va # s)
      | COPY_EFAULT \<Rightarrow> COPY_EFAULT | Page_Fault \<Rightarrow> Page_Fault)"
  by (simp_all add: string_outcome_def Let_def)

lemma copy_string_exact:
  assumes "PAGE_OFFSET (src + of_nat copied) \<noteq> 0 \<Longrightarrow> ac \<and> user_page_is_accessible mm (src + of_nat copied)"
  shows "copy_string mm src copied left ac =
    string_outcome mm (takeWhile is_user_address (map (\<lambda>i. src + of_nat i) [copied..<copied + left]))"
  using assms
proof (induction left arbitrary: copied ac)
  case (Suc left)
  let ?cur = "src + of_nat copied" and ?next = "src + of_nat (Suc copied)"
  have upt: "[copied..<copied + Suc left] = copied # [Suc copied..<Suc copied + left]" by (simp add: upt_conv_Cons)
  show ?case
  proof (cases "\<not> is_user_address ?cur \<or> PAGE_OFFSET ?cur = 0 \<and> \<not> user_page_is_accessible mm ?cur")
    case True
    then show ?thesis unfolding upt by (auto simp: Let_def string_outcome_simps)
  next
    case False
    let ?ac = "PAGE_OFFSET ?cur = 0 \<or> ac"
    have acc: "user_page_is_accessible mm ?cur" "?ac" using False Suc.prems by blast+
    have next_eq: "?next = ?cur + 1" by (simp add: algebra_simps)
    have IH: "copy_string mm src (Suc copied) left ?ac =
        string_outcome mm (takeWhile is_user_address (map (\<lambda>i. src + of_nat i) [Suc copied..<Suc copied + left]))"
    proof (rule Suc.IH)
      show "PAGE_OFFSET ?next \<noteq> 0 \<Longrightarrow> ?ac \<and> user_page_is_accessible mm ?next"
        using acc False same_page [of ?cur] unfolding next_eq user_page_is_accessible_def by auto
    qed
    have step: "copy_string mm src copied (Suc left) ac =
        (if user_byte mm ?cur = 0 then COPY_SUCCESS []
         else case copy_string mm src (Suc copied) left ?ac of COPY_SUCCESS s \<Rightarrow> COPY_SUCCESS (user_byte mm ?cur # s)
           | COPY_EFAULT \<Rightarrow> COPY_EFAULT | Page_Fault \<Rightarrow> Page_Fault)"
      using False acc accessible_read [OF acc(1)] by (simp add: Let_def)
    show ?thesis unfolding step upt IH using False acc(1) by (simp add: string_outcome_simps del: upt_Suc)
  qed
qed (simp add: string_outcome_simps)

text \<open>
  C14: \<^verbatim>\<open>copy_user_string\<close> checks a page only when it steps onto its first byte. A string
  that starts on a page boundary is therefore handled exactly, whatever is mapped. Of the
  addresses from its start, at most one fewer than the limit and none outside user space,
  those before the first inaccessible page are read: the outcome is success with precisely
  the bytes before the first zero, or with all bytes if there is no zero and every address
  was accessible, and \<^verbatim>\<open>COPY_EFAULT\<close> otherwise; a page fault does not occur. A string that
  starts inside a page is read from that page without any check: if the page is absent the
  kernel takes a page fault in ring 0, and under SMAP it does so on every user page, mapped
  or not.
\<close>

theorem copy_user_string_first_page:
  shows "(PAGE_OFFSET src = 0 \<longrightarrow> copy_user_string mm src max_bytes =
      (if src = 0 \<or> max_bytes = 0 \<or> \<not> is_user_address src then COPY_EFAULT
       else let candidates = takeWhile is_user_address (map (\<lambda>i. src + of_nat i) [0..<max_bytes - 1]);
                readable = takeWhile (user_page_is_accessible mm) candidates;
                bytes = takeWhile (\<lambda>c. c \<noteq> 0) (map (user_byte mm) readable)
            in if length bytes < length readable \<or> length readable = length candidates then COPY_SUCCESS bytes
               else COPY_EFAULT)) \<and>
    (PAGE_OFFSET src \<noteq> 0 \<and> is_user_address src \<and> 1 < max_bytes \<longrightarrow>
      (user_read mm True src = None \<longrightarrow> copy_user_string mm src max_bytes = Page_Fault) \<and>
      (smap mm \<and> page_walk mm src = Some (leaf, huge, upper) \<and> leaf AND upper AND PAGE_USER \<noteq> 0 \<longrightarrow>
        copy_user_string mm src max_bytes = Page_Fault))"
proof (intro conjI impI)
  assume "PAGE_OFFSET src = 0"
  then have "copy_string mm src 0 left False =
      string_outcome mm (takeWhile is_user_address (map (\<lambda>i. src + of_nat i) [0..<left]))" for left
    using copy_string_exact [of src 0 False mm left] by simp
  then show "copy_user_string mm src max_bytes =
      (if src = 0 \<or> max_bytes = 0 \<or> \<not> is_user_address src then COPY_EFAULT
       else let candidates = takeWhile is_user_address (map (\<lambda>i. src + of_nat i) [0..<max_bytes - 1]);
                readable = takeWhile (user_page_is_accessible mm) candidates;
                bytes = takeWhile (\<lambda>c. c \<noteq> 0) (map (user_byte mm) readable)
            in if length bytes < length readable \<or> length readable = length candidates then COPY_SUCCESS bytes
               else COPY_EFAULT)"
    by (simp only: copy_user_string_def string_outcome_def Let_def) simp
next
  assume "PAGE_OFFSET src \<noteq> 0 \<and> is_user_address src \<and> 1 < max_bytes"
  then have start: "PAGE_OFFSET src \<noteq> 0" "src \<noteq> 0" "is_user_address src" and "1 < max_bytes"
    by (auto simp: PAGE_OFFSET_def)
  obtain left where l: "max_bytes = Suc (Suc left)"
    using \<open>1 < max_bytes\<close> by (metis One_nat_def less_imp_Suc_add add_Suc)
  show "copy_user_string mm src max_bytes = Page_Fault" if "user_read mm True src = None"
  proof -
    have "user_read mm False src = None" using that by (auto simp: user_read_def split: option.splits if_splits)
    with start show ?thesis by (simp add: copy_user_string_def l)
  qed
  show "copy_user_string mm src max_bytes = Page_Fault"
    if "smap mm \<and> page_walk mm src = Some (leaf, huge, upper) \<and> leaf AND upper AND PAGE_USER \<noteq> 0"
    using that start by (simp add: copy_user_string_def l user_read_def)
qed

text \<open>
  A machine with one mapped user page at address 4096: the four table levels are at
  physical addresses 0x1000 to 0x4000 and the page is the frame at 0x8000.
\<close>

definition one_page :: mmu where
  "one_page = \<lparr>cr3 = 0x1000,
     entries = (\<lambda>_. 0)(0x1000 := 0x2007, 0x2000 := 0x3007, 0x3000 := 0x4007, 0x4008 := 0x8007),
     pmem = (\<lambda>_. 0)(0x8000 := 65, 0x8001 := 66), smap = True\<rparr>"

lemmas one_page_eval = page_walk_def table_entry_def one_page_def PAGE_BASE_def PAGE_OFFSET_def page_simps
  ADDR_MASK_def Let_def

lemma one_page_walks:
  "page_walk one_page 0x1000 = Some (0x8007, False, 7)" "page_walk one_page 0x1001 = Some (0x8007, False, 7)"
  "page_walk one_page 0x1002 = Some (0x8007, False, 7)" "page_walk one_page 0x5001 = Some (0, False, 7)"
  by (simp_all add: one_page_eval)

lemma one_page_data: "smap one_page" "pmem one_page 0x8000 = 65" "pmem one_page 0x8001 = 66" "pmem one_page 0x8002 = 0"
  by (simp_all add: one_page_def)

theorem copy_user_string_first_page_witness:
  "copy_user_string one_page 0x1000 4 = COPY_SUCCESS [65, 66] \<and>
   copy_user_string one_page 0x1001 10 = Page_Fault \<and> copy_user_string one_page 0x5001 10 = Page_Fault"
proof (intro conjI)
  show "copy_user_string one_page 0x1000 4 = COPY_SUCCESS [65, 66]"
    using copy_user_string_first_page [of "0x1000" one_page 4]
    by (simp add: is_user_address_def USER_SPACE_END_def one_page_walks user_byte_def upt_conv_Cons
        user_page_is_accessible_def page_grants_def PAGE_BASE_def PAGE_OFFSET_def page_simps translate_def ADDR_MASK_def
        one_page_data Let_def)
  show "copy_user_string one_page 0x1001 10 = Page_Fault"
    using copy_user_string_first_page [of "0x1001" one_page 10 "0x8007" False 7]
    by (simp add: PAGE_OFFSET_def is_user_address_def USER_SPACE_END_def one_page_walks page_simps one_page_data)
  show "copy_user_string one_page 0x5001 10 = Page_Fault"
    using copy_user_string_first_page [of "0x5001" one_page 10]
    by (simp add: PAGE_OFFSET_def is_user_address_def USER_SPACE_END_def one_page_walks user_read_def)
qed

section \<open>Copying out and in again\<close>

definition phys_of :: "'a mmu_scheme \<Rightarrow> u64 \<Rightarrow> u64" where
  "phys_of mm va = (case page_walk mm va of None \<Rightarrow> 0 | Some (leaf, huge, _) \<Rightarrow> translate leaf huge va)"

definition writable :: "'a mmu_scheme \<Rightarrow> u64 \<Rightarrow> bool" where
  "writable mm va \<longleftrightarrow> (\<exists>leaf huge upper. page_walk mm va = Some (leaf, huge, upper) \<and>
     leaf AND PAGE_PRESENT \<noteq> 0 \<and> leaf AND upper AND PAGE_WRITE \<noteq> 0)"

lemma page_walk_pmem [simp]: "page_walk (mm\<lparr>pmem := f\<rparr>) va = page_walk mm va"
  by (simp add: page_walk_def table_entry_def Let_def)

lemma phys_of_pmem [simp]: "phys_of (mm\<lparr>pmem := f\<rparr>) = phys_of mm"
  by (simp add: phys_of_def fun_eq_iff)

lemma page_grants_pmem [simp]: "page_grants (mm\<lparr>pmem := f\<rparr>) = page_grants mm"
  by (simp add: page_grants_def fun_eq_iff)

lemma writable_pmem [simp]: "writable (mm\<lparr>pmem := f\<rparr>) = writable mm"
  by (simp add: writable_def fun_eq_iff)

lemma user_write_ok: "writable mm va \<Longrightarrow> user_write va b mm = Some (mm\<lparr>pmem := (pmem mm)(phys_of mm va := b)\<rparr>)"
  by (auto simp: writable_def user_write_def phys_of_def)

lemma user_byte_phys: "writable mm va \<Longrightarrow> user_byte mm va = pmem mm (phys_of mm va)"
  by (auto simp: writable_def user_byte_def phys_of_def)

lemma and_or_superset:
  fixes x a b :: u64
  assumes "x AND (a OR b) = a OR b"
  shows "x AND a = a \<and> x AND b = b"
proof -
  have "bit (x AND (a OR b)) n = bit (a OR b) n" for n using assms by simp
  then show ?thesis by (auto simp: bit_eq_iff bit_simps)
qed

lemma granted_flags:
  assumes "page_grants mm (PAGE_PRESENT OR PAGE_USER OR PAGE_WRITE) va"
  obtains leaf huge upper where "page_walk mm va = Some (leaf, huge, upper)"
    "leaf AND PAGE_PRESENT = PAGE_PRESENT" "leaf AND PAGE_WRITE = PAGE_WRITE"
    "leaf AND (PAGE_PRESENT OR PAGE_USER) = PAGE_PRESENT OR PAGE_USER"
proof -
  obtain leaf huge upper where w: "page_walk mm va = Some (leaf, huge, upper)" and
      l: "leaf AND ((PAGE_PRESENT OR PAGE_USER) OR PAGE_WRITE) = (PAGE_PRESENT OR PAGE_USER) OR PAGE_WRITE"
    using assms by (auto simp: page_grants_def or.assoc split: option.splits)
  from and_or_superset [OF l] have *: "leaf AND (PAGE_PRESENT OR PAGE_USER) = PAGE_PRESENT OR PAGE_USER"
    "leaf AND PAGE_WRITE = PAGE_WRITE" by simp_all
  with and_or_superset [OF *(1)] w show thesis by (intro that) simp_all
qed

lemma grants_writable:
  assumes "page_grants mm (PAGE_PRESENT OR PAGE_USER OR PAGE_WRITE) va"
    and "\<And>leaf huge upper. page_walk mm va = Some (leaf, huge, upper) \<Longrightarrow> upper AND PAGE_WRITE = PAGE_WRITE"
  shows "writable mm va"
  using assms(1)
proof (rule granted_flags)
  fix leaf huge upper
  assume w: "page_walk mm va = Some (leaf, huge, upper)" and p: "leaf AND PAGE_PRESENT = PAGE_PRESENT"
    and l: "leaf AND PAGE_WRITE = PAGE_WRITE"
  have "leaf AND upper AND PAGE_WRITE = PAGE_WRITE" using l assms(2) [OF w] by (simp add: and.assoc)
  with w p show ?thesis unfolding writable_def by (auto simp: page_simps)
qed

lemma page_grants_weaken:
  "page_grants mm (PAGE_PRESENT OR PAGE_USER OR PAGE_WRITE) va \<Longrightarrow> page_grants mm (PAGE_PRESENT OR PAGE_USER) va"
  by (erule granted_flags) (simp add: page_grants_def)

lemma write_all_ok:
  assumes "length vas = length bytes" and "\<forall>va \<in> set vas. writable mm va" and "distinct (map (phys_of mm) vas)"
  shows "\<exists>f. write_all (zip vas bytes) mm = Some (mm\<lparr>pmem := f\<rparr>) \<and>
    (\<forall>p. p \<notin> phys_of mm ` set vas \<longrightarrow> f p = pmem mm p) \<and> map (\<lambda>va. f (phys_of mm va)) vas = bytes"
  using assms
proof (induction vas bytes arbitrary: mm rule: list_induct2')
  case (1 mm)
  show ?case by (rule exI [of _ "pmem mm"]) simp
next
  case (4 va vas b bytes)
  let ?mm = "mm\<lparr>pmem := (pmem mm)(phys_of mm va := b)\<rparr>"
  have w: "\<forall>v \<in> set vas. writable ?mm v" using "4.prems"(2) by (simp add: writable_def)
  have d: "distinct (map (phys_of ?mm) vas)" using "4.prems"(3) by simp
  obtain f where f: "write_all (zip vas bytes) ?mm = Some (?mm\<lparr>pmem := f\<rparr>)"
    "\<forall>p. p \<notin> phys_of mm ` set vas \<longrightarrow> f p = pmem ?mm p" "map (\<lambda>va. f (phys_of mm va)) vas = bytes"
    using "4.IH" [OF _ w d] "4.prems"(1) by auto
  have "f (phys_of mm va) = b" using f(2) "4.prems"(3) by simp
  with f "4.prems" show ?case
    by (intro exI [of _ f]) (simp add: user_write_ok)
qed simp_all

text \<open>Adjacent ranges are one range.\<close>

lemma span_append:
  fixes addr m n :: u64
  assumes "unat m + unat n < 2 ^ 64"
  shows "span addr (m + n) = span addr m @ span (addr + m) n"
proof -
  have "unat (m + n) = unat m + unat n" using assms by (simp add: unat_word_ariths)
  then have "[0..<unat (m + n)] = [0..<unat m] @ map (\<lambda>i. i + unat m) [0..<unat n]"
    using upt_add_eq_append [of 0 "unat m" "unat n"] map_add_upt [of "unat m" "unat n"] by (simp add: add.commute)
  then show ?thesis by (simp add: span_def comp_def add.assoc add.commute [of _ m])
qed

text \<open>A destination that can be written: inside user space, granted on every level, without aliases.\<close>

definition user_buffer :: "'a mmu_scheme \<Rightarrow> u64 \<Rightarrow> u64 \<Rightarrow> bool" where
  "user_buffer mm dst n \<longleftrightarrow> dst \<noteq> 0 \<and> unat dst + unat n \<le> 2 ^ 47 \<and>
     list_all (page_grants mm (PAGE_PRESENT OR PAGE_USER OR PAGE_WRITE)) (span dst n) \<and>
     list_all (writable mm) (span dst n) \<and> distinct (map (phys_of mm) (span dst n))"

lemma copy_to_user_writes:
  assumes buf: "user_buffer mm dst n" and len: "length bytes = unat n" and "bytes \<noteq> []"
  shows "\<exists>f. copy_to_user cow mm dst bytes = COPY_SUCCESS (mm\<lparr>pmem := f\<rparr>) \<and>
    (\<forall>p. p \<notin> phys_of mm ` set (span dst n) \<longrightarrow> f p = pmem mm p) \<and> map (\<lambda>va. f (phys_of mm va)) (span dst n) = bytes"
proof -
  have n: "of_nat (length bytes) = n" "n \<noteq> 0" using len assms(3) by auto
  have ok: "user_range_ok dst n" "unat dst + unat n \<le> 2 ^ 47" using buf n(2) by (simp_all add: user_buffer_def user_range_ok_iff)
  have "user_range_is_accessible mm dst n True"
    using span_grant_iff [OF n(2) ok(2), where mm = mm] buf by (simp add: user_buffer_def user_range_is_accessible_def list_all_iff or.assoc)
  then have store: "copy_to_user cow mm dst bytes =
      (case write_all (zip (span dst n) bytes) mm of None \<Rightarrow> Page_Fault | Some mm' \<Rightarrow> COPY_SUCCESS mm')"
    using ok n(1) by (simp add: copy_to_user_def)
  have "length (span dst n) = length bytes" by (simp add: span_def len)
  from write_all_ok [OF this, of mm] buf obtain f where "write_all (zip (span dst n) bytes) mm = Some (mm\<lparr>pmem := f\<rparr>)"
      "\<forall>p. p \<notin> phys_of mm ` set (span dst n) \<longrightarrow> f p = pmem mm p" "map (\<lambda>va. f (phys_of mm va)) (span dst n) = bytes"
    by (auto simp: user_buffer_def list_all_iff)
  with store show ?thesis by (intro exI [of _ f]) simp
qed

lemma copy_from_user_buffer:
  assumes buf: "user_buffer mm dst n" and "n \<noteq> 0"
  shows "copy_from_user (mm\<lparr>pmem := f\<rparr>) dst n = COPY_SUCCESS (map (\<lambda>va. f (phys_of mm va)) (span dst n))"
proof -
  have "user_byte (mm\<lparr>pmem := f\<rparr>) va = f (phys_of mm va)" if "va \<in> set (span dst n)" for va
    using buf that user_byte_phys [of "mm\<lparr>pmem := f\<rparr>" va] by (auto simp: user_buffer_def list_all_iff writable_def)
  moreover have "list_all (page_grants mm (PAGE_PRESENT OR PAGE_USER)) (span dst n)"
    using buf by (auto simp: user_buffer_def list_all_iff intro: page_grants_weaken)
  ultimately show ?thesis
    using buf assms(2) by (simp add: copy_from_user_eq user_buffer_def)
qed

lemma user_buffer_append:
  assumes buf: "user_buffer mm dst (m + n)" and "unat m + unat n < 2 ^ 47"
  shows "user_buffer mm dst m \<and> user_buffer mm (dst + m) n \<and>
    phys_of mm ` set (span dst m) \<inter> phys_of mm ` set (span (dst + m) n) = {}"
proof -
  have sum: "unat (m + n) = unat m + unat n" using assms(2) by (simp add: unat_word_ariths)
  have "span dst (m + n) = span dst m @ span (dst + m) n" using assms(2) by (intro span_append) simp
  moreover have "unat (dst + m) = unat dst + unat m"
    using buf sum by (simp add: user_buffer_def unat_word_ariths)
  moreover from this have "dst + m \<noteq> 0" using buf by (auto simp: user_buffer_def unat_eq_zero)
  ultimately show ?thesis using buf by (auto simp: user_buffer_def sum)
qed

text \<open>
  C15: what \<^verbatim>\<open>copy_to_user\<close> stores, \<^verbatim>\<open>copy_from_user\<close> reads back. For a range inside user
  space on pages whose leaf entries are present, user and writable, where no upper-level
  entry denies writing and no two addresses of the range share a byte of memory, the copy
  out succeeds without the copy-on-write detour, leaves the page tables alone, and the copy
  in returns the same bytes.
\<close>

theorem user_copy_roundtrip:
  assumes "dst \<noteq> 0" and "bytes \<noteq> []" and "unat dst + length bytes \<le> 2 ^ 47"
    and "list_all (page_grants mm (PAGE_PRESENT OR PAGE_USER OR PAGE_WRITE)) (span dst (of_nat (length bytes)))"
    and "\<And>va leaf huge upper. page_walk mm va = Some (leaf, huge, upper) \<Longrightarrow> upper AND PAGE_WRITE = PAGE_WRITE"
    and "inj_on (phys_of mm) (set (span dst (of_nat (length bytes))))"
  shows "\<exists>mm'. copy_to_user cow mm dst bytes = COPY_SUCCESS mm' \<and> entries mm' = entries mm \<and>
    copy_from_user mm' dst (of_nat (length bytes)) = COPY_SUCCESS bytes"
proof -
  let ?n = "of_nat (length bytes) :: u64"
  have n: "unat ?n = length bytes" using assms(3) by (simp add: unsigned_of_nat take_bit_eq_mod)
  then have "?n \<noteq> 0" using assms(2) by (metis length_0_conv unat_0)
  have "distinct (span dst ?n)"
    using span_unat [of dst ?n] assms(3) n by (auto simp: span_def distinct_map inj_on_def) (metis add_left_cancel)
  then have buf: "user_buffer mm dst ?n"
    using assms n by (auto simp: user_buffer_def list_all_iff distinct_map intro: grants_writable)
  obtain f where "copy_to_user cow mm dst bytes = COPY_SUCCESS (mm\<lparr>pmem := f\<rparr>)" "map (\<lambda>va. f (phys_of mm va)) (span dst ?n) = bytes"
    using copy_to_user_writes [OF buf n [symmetric] assms(2)] by blast
  with copy_from_user_buffer [OF buf \<open>?n \<noteq> 0\<close>, of f] show ?thesis by (intro exI [of _ "mm\<lparr>pmem := f\<rparr>"]) simp
qed

lemma walk_upper_writable:
  assumes "\<And>p. entries mm p AND PAGE_PRESENT \<noteq> 0 \<Longrightarrow> entries mm p AND PAGE_WRITE = PAGE_WRITE"
    and "page_walk mm va = Some (leaf, huge, upper)"
  shows "upper AND PAGE_WRITE = PAGE_WRITE"
  using assms(2) unfolding page_walk_def Let_def table_entry_def
  by (auto simp: and.assoc assms(1) split: if_splits)

theorem user_copy_roundtrip_witness:
  "\<exists>mm'. copy_to_user (\<lambda>_ mm. mm) one_page 0x1000 [1, 2] = COPY_SUCCESS mm' \<and> copy_from_user mm' 0x1000 2 = COPY_SUCCESS [1, 2]"
proof -
  have span: "span 0x1000 2 = [0x1000, 0x1001]" by (simp add: span_def upt_rec)
  have "entries one_page p AND PAGE_PRESENT \<noteq> 0 \<Longrightarrow> entries one_page p AND PAGE_WRITE = PAGE_WRITE" for p
    by (simp add: one_page_def page_simps split: if_splits)
  note upper = walk_upper_writable [of one_page, OF this]
  have grants: "list_all (page_grants one_page (PAGE_PRESENT OR PAGE_USER OR PAGE_WRITE)) (span 0x1000 2)"
    by (simp add: span page_grants_def one_page_walks page_simps)
  have inj: "inj_on (phys_of one_page) (set (span 0x1000 2))"
    by (simp add: span phys_of_def one_page_walks translate_def ADDR_MASK_def PAGE_OFFSET_def)
  show ?thesis
    using user_copy_roundtrip [of "0x1000" "[1, 2]" one_page "\<lambda>_ mm. mm"] grants inj upper by auto
qed

end
