(* ===== verification/Msg_Queue.thy ===== *)
theory Msg_Queue
  imports User_Copy
begin

unbundle bit_operations_syntax

text \<open>
  System V message queues, \<^verbatim>\<open>kernel/ipc/msgqueue.c\<close> with \<^verbatim>\<open>include/ipc.h\<close>.

  Queues live in a heap \<open>queues\<close> from pointers to structures; a pointer that is not in its
  domain has been freed. The two static tables are lists of cells: \<open>id_table\<close> of optional
  pointers, \<open>key_table\<close> of empty, dead and pointer cells. The chain of messages of a queue
  with its tail pointer is a list, so the tail append and the unlinking of the code are
  list operations; message type and size keep their widths. Each stretch of code between
  taking and releasing \<^verbatim>\<open>msg_lock\<close> is one function, and a system call is the composition of
  its stretches. Results of \<^verbatim>\<open>kmalloc\<close> are parameters, user memory is that of \<open>User_Copy\<close>,
  \<open>ticks\<close> is the timer. The identifier of an existing queue, which \<^verbatim>\<open>msgget\<close> reads after it
  has released the lock, is read under it here, and \<^verbatim>\<open>msgctl\<close> frees a removed queue in the step
  that unlinks it. A receive ignores \<^verbatim>\<open>MSG_COPY\<close>, as the code does. Blocking is not implemented
  by the code, and console output is left out.
\<close>

section \<open>Data\<close>

type_synonym qptr = nat

record msg_message =
  mtype :: u64
  msize :: u64
  mtext :: "u8 list"

record msg_queue =
  mq_id :: int
  mq_key :: u32
  mq_msgs :: "msg_message list"
  msg_count :: u32
  total_bytes :: u64
  max_msgs :: u32
  max_bytes :: u64
  creator_uid :: u32
  creator_gid :: u32
  owner_pid :: u32
  mq_mode :: u32
  create_time :: u64
  send_time :: u64
  recv_time :: u64

datatype key_cell = MQ_HASH_EMPTY | MQ_HASH_DEAD | MQ_Ptr qptr

record mq_state =
  queues :: "qptr \<Rightarrow> msg_queue option"
  id_table :: "qptr option list"
  key_table :: "key_cell list"
  next_msg_id :: nat

record ipc_proc =
  ip_pid :: u32
  ip_uid :: u32
  ip_gid :: u32

definition IPC_PRIVATE :: u32 where "IPC_PRIVATE = 0"
definition IPC_CREAT :: u32 where "IPC_CREAT = 0x0200"
definition IPC_EXCL :: u32 where "IPC_EXCL = 0x0400"
definition IPC_RMID :: u32 where "IPC_RMID = 0x1000"
definition IPC_STAT :: u32 where "IPC_STAT = 0x2000"
definition IPC_SET :: u32 where "IPC_SET = 0x3000"
definition IPC_R :: u32 where "IPC_R = 0x100"
definition IPC_W :: u32 where "IPC_W = 0x080"
definition MSG_NOERROR :: u32 where "MSG_NOERROR = 0x1000"
definition MSGMAX :: u64 where "MSGMAX = 8192"
definition MSGMNB :: u64 where "MSGMNB = 16384"
definition MQ_TABLE_SIZE :: nat where "MQ_TABLE_SIZE = 256"
definition MQ_HASH_SIZE :: nat where "MQ_HASH_SIZE = 512"
definition MQ_HASH_MASK :: u32 where "MQ_HASH_MASK = 511"

definition IPC_SUCCESS :: int where "IPC_SUCCESS = 0"
definition IPC_ENOENT :: int where "IPC_ENOENT = -2"
definition IPC_E2BIG :: int where "IPC_E2BIG = -7"
definition IPC_EAGAIN :: int where "IPC_EAGAIN = -11"
definition IPC_ENOMEM :: int where "IPC_ENOMEM = -12"
definition IPC_EACCES :: int where "IPC_EACCES = -13"
definition IPC_EFAULT :: int where "IPC_EFAULT = -14"
definition IPC_EEXIST :: int where "IPC_EEXIST = -17"
definition IPC_EINVAL :: int where "IPC_EINVAL = -22"
definition IPC_ENOMSG :: int where "IPC_ENOMSG = -42"

lemmas ipc_flags [mq_simps] = IPC_PRIVATE_def IPC_CREAT_def IPC_EXCL_def IPC_RMID_def IPC_STAT_def
  IPC_SET_def IPC_R_def IPC_W_def MSG_NOERROR_def MSGMAX_def MSGMNB_def

lemmas ipc_codes [mq_simps] = IPC_SUCCESS_def IPC_ENOENT_def IPC_E2BIG_def IPC_EAGAIN_def IPC_ENOMEM_def
  IPC_EACCES_def IPC_EFAULT_def IPC_EEXIST_def IPC_EINVAL_def IPC_ENOMSG_def

section \<open>The key table\<close>

definition mq_key_hash :: "u32 \<Rightarrow> u32" where
  "mq_key_hash key =
     (let k = key;
          k = (k XOR drop_bit 16 k) * 0x45d9f3b;
          k = (k XOR drop_bit 16 k) * 0x45d9f3b;
          k = k XOR drop_bit 16 k
      in k AND MQ_HASH_MASK)"

text \<open>The slots in the order the probing loops visit them.\<close>

definition probe_slots :: "u32 \<Rightarrow> nat list" where
  "probe_slots key = map (\<lambda>i. unat ((mq_key_hash key + of_nat i) AND MQ_HASH_MASK)) [0..<MQ_HASH_SIZE]"

fun insert_probe :: "nat list \<Rightarrow> qptr \<Rightarrow> key_cell list \<Rightarrow> key_cell list" where
  "insert_probe [] q table = table"
| "insert_probe (i # slots) q table =
     (case table ! i of MQ_Ptr _ \<Rightarrow> insert_probe slots q table | _ \<Rightarrow> table[i := MQ_Ptr q])"

definition key_table_insert :: "u32 \<Rightarrow> qptr \<Rightarrow> key_cell list \<Rightarrow> key_cell list" where
  "key_table_insert key q table =
     (if key = IPC_PRIVATE then table else insert_probe (probe_slots key) q table)"

fun remove_probe :: "nat list \<Rightarrow> qptr \<Rightarrow> key_cell list \<Rightarrow> key_cell list" where
  "remove_probe [] q table = table"
| "remove_probe (i # slots) q table =
     (if table ! i = MQ_HASH_EMPTY then table
      else if table ! i = MQ_Ptr q then table[i := MQ_HASH_DEAD]
      else remove_probe slots q table)"

definition key_table_remove :: "u32 \<Rightarrow> qptr \<Rightarrow> key_cell list \<Rightarrow> key_cell list" where
  "key_table_remove key q table =
     (if key = IPC_PRIVATE then table else remove_probe (probe_slots key) q table)"

text \<open>\<open>keys p\<close> is \<^verbatim>\<open>e->key\<close> read through a table pointer.\<close>

fun find_probe :: "(qptr \<Rightarrow> u32 option) \<Rightarrow> nat list \<Rightarrow> u32 \<Rightarrow> key_cell list \<Rightarrow> qptr option" where
  "find_probe keys [] key table = None"
| "find_probe keys (i # slots) key table =
     (case table ! i of
        MQ_HASH_EMPTY \<Rightarrow> None
      | MQ_HASH_DEAD \<Rightarrow> find_probe keys slots key table
      | MQ_Ptr e \<Rightarrow> if keys e = Some key then Some e else find_probe keys slots key table)"

definition queue_key :: "mq_state \<Rightarrow> qptr \<Rightarrow> u32 option" where
  "queue_key s q = map_option mq_key (queues s q)"

definition msg_find_by_key :: "u32 \<Rightarrow> mq_state \<Rightarrow> qptr option" where
  "msg_find_by_key key s =
     (if key = IPC_PRIVATE then None else find_probe (queue_key s) (probe_slots key) key (key_table s))"

definition msg_find_by_id :: "int \<Rightarrow> mq_state \<Rightarrow> qptr option" where
  "msg_find_by_id i s =
     (if i \<le> 0 \<or> i > int MQ_TABLE_SIZE then None else id_table s ! (nat i - 1))"

definition msg_init :: mq_state where
  "msg_init = \<lparr>queues = (\<lambda>_. None), id_table = replicate MQ_TABLE_SIZE None,
     key_table = replicate MQ_HASH_SIZE MQ_HASH_EMPTY, next_msg_id = 1\<rparr>"

definition msg_check_permission :: "msg_queue \<Rightarrow> u32 \<Rightarrow> u32 \<Rightarrow> bool \<Rightarrow> bool" where
  "msg_check_permission q uid gid write =
     (if uid = 0 then True
      else if uid = creator_uid q then True
      else if gid = creator_gid q then
        (if write then mq_mode q AND drop_bit 3 IPC_W \<noteq> 0 else mq_mode q AND drop_bit 3 IPC_R \<noteq> 0)
      else (if write then mq_mode q AND drop_bit 6 IPC_W \<noteq> 0 else mq_mode q AND drop_bit 6 IPC_R \<noteq> 0))"

section \<open>msgget\<close>

text \<open>
  The search for a free identifier: \<open>i\<close> runs from \<open>next_msg_id\<close> around the table until it is
  back at \<open>start\<close>. \<open>fuel\<close> bounds the number of slots; the table size is enough.
\<close>

fun find_free_id :: "nat \<Rightarrow> nat \<Rightarrow> qptr option list \<Rightarrow> nat \<Rightarrow> nat + nat" where
  "find_free_id 0 start table i = Inl i"
| "find_free_id (Suc fuel) start table i =
     (if table ! (i - 1) = None then Inr i
      else let j = (if i + 1 > MQ_TABLE_SIZE then 1 else i + 1)
           in if j = start then Inl j else find_free_id fuel start table j)"

text \<open>First stretch: a final result, or a reserved identifier.\<close>

definition msgget_reserve :: "u32 \<Rightarrow> u32 \<Rightarrow> mq_state \<Rightarrow> (int + nat) \<times> mq_state" where
  "msgget_reserve k flags s =
     (let reserve =
        (let start = (if next_msg_id s > MQ_TABLE_SIZE then 1 else next_msg_id s)
         in case find_free_id MQ_TABLE_SIZE start (id_table s) start of
              Inl i \<Rightarrow> (Inl IPC_ENOMEM, s\<lparr>next_msg_id := i\<rparr>)
            | Inr i \<Rightarrow> (Inr i, s\<lparr>next_msg_id := i\<rparr>))
      in if k = IPC_PRIVATE then reserve
         else case msg_find_by_key k s of
                Some existing \<Rightarrow>
                  (if flags AND IPC_EXCL \<noteq> 0 then (Inl IPC_EEXIST, s)
                   else (Inl (mq_id (the (queues s existing))), s))
              | None \<Rightarrow> if flags AND IPC_CREAT = 0 then (Inl IPC_ENOENT, s) else reserve)"

definition new_queue :: "nat \<Rightarrow> u32 \<Rightarrow> u32 \<Rightarrow> ipc_proc \<Rightarrow> u64 \<Rightarrow> msg_queue" where
  "new_queue reserved_id k flags current ticks =
     \<lparr>mq_id = int reserved_id, mq_key = k, mq_msgs = [], msg_count = 0, total_bytes = 0,
      max_msgs = 100, max_bytes = MSGMNB, creator_uid = ip_uid current, creator_gid = ip_gid current,
      owner_pid = ip_pid current, mq_mode = flags AND 0x1FF, create_time = ticks, send_time = 0, recv_time = 0\<rparr>"

text \<open>Last stretch: \<open>q\<close> is the pointer \<^verbatim>\<open>kmalloc\<close> returned.\<close>

definition msgget_publish :: "qptr \<Rightarrow> nat \<Rightarrow> u32 \<Rightarrow> u32 \<Rightarrow> ipc_proc \<Rightarrow> u64 \<Rightarrow> mq_state \<Rightarrow> int \<times> mq_state" where
  "msgget_publish q reserved_id k flags current ticks s =
     (if id_table s ! (reserved_id - 1) \<noteq> None then (IPC_ENOMEM, s)
      else let publish =
             (int reserved_id,
              s\<lparr>queues := (queues s)(q \<mapsto> new_queue reserved_id k flags current ticks),
                 id_table := (id_table s)[reserved_id - 1 := Some q],
                 key_table := key_table_insert k q (key_table s),
                 next_msg_id := (if reserved_id + 1 > MQ_TABLE_SIZE then 1 else reserved_id + 1)\<rparr>)
           in if k = IPC_PRIVATE then publish
              else case msg_find_by_key k s of
                     Some racing \<Rightarrow> (if flags AND IPC_EXCL \<noteq> 0 then IPC_EEXIST else mq_id (the (queues s racing)), s)
                   | None \<Rightarrow> publish)"

text \<open>The whole call without interference; \<open>alloc\<close> is the result of \<^verbatim>\<open>kmalloc\<close>.\<close>

definition sys_msgget :: "qptr option \<Rightarrow> u64 \<Rightarrow> u64 \<Rightarrow> ipc_proc \<Rightarrow> u64 \<Rightarrow> mq_state \<Rightarrow> int \<times> mq_state" where
  "sys_msgget alloc key msgflg current ticks s =
     (let k = ucast key; flags = ucast msgflg
      in case msgget_reserve k flags s of
           (Inl result, s') \<Rightarrow> (result, s')
         | (Inr reserved_id, s') \<Rightarrow>
             (case alloc of None \<Rightarrow> (IPC_ENOMEM, s')
              | Some q \<Rightarrow> msgget_publish q reserved_id k flags current ticks s'))"

section \<open>msgsnd\<close>

definition msg_enqueue :: "msg_message \<Rightarrow> int \<Rightarrow> ipc_proc \<Rightarrow> u64 \<Rightarrow> mq_state \<Rightarrow> int \<times> mq_state" where
  "msg_enqueue node i current ticks s =
     (case msg_find_by_id i s of None \<Rightarrow> (IPC_EINVAL, s)
      | Some p \<Rightarrow>
          (let q = the (queues s p)
           in if \<not> msg_check_permission q (ip_uid current) (ip_gid current) True then (IPC_EACCES, s)
              else if max_msgs q \<le> msg_count q \<or> max_bytes q < total_bytes q + msize node then (IPC_EAGAIN, s)
              else (IPC_SUCCESS, s\<lparr>queues := (queues s)(p \<mapsto>
                     q\<lparr>mq_msgs := mq_msgs q @ [node], msg_count := msg_count q + 1,
                        total_bytes := total_bytes q + msize node, send_time := ticks\<rparr>)\<rparr>)))"

text \<open>The little-endian bytes of the type field.\<close>

definition mtype_of_bytes :: "u8 list \<Rightarrow> u64" where
  "mtype_of_bytes bs = (\<Sum>i<8. push_bit (8 * i) (ucast (bs ! i)))"

definition bytes_of_mtype :: "u64 \<Rightarrow> u8 list" where
  "bytes_of_mtype t = map (\<lambda>i. ucast (drop_bit (8 * i) t)) [0..<8]"

datatype 'a sysret = Returns int 'a | Kernel_Fault

definition sys_msgsnd :: "bool \<Rightarrow> mmu \<Rightarrow> u64 \<Rightarrow> u64 \<Rightarrow> u64 \<Rightarrow> ipc_proc \<Rightarrow> u64 \<Rightarrow> mq_state \<Rightarrow> mq_state sysret" where
  "sys_msgsnd mem mm msqid msgp msgsz current ticks s =
     (if msgp = 0 \<or> msgsz > MSGMAX then Returns IPC_EINVAL s
      else case copy_from_user mm msgp 8 of
             Page_Fault \<Rightarrow> Kernel_Fault
           | COPY_EFAULT \<Rightarrow> Returns IPC_EFAULT s
           | COPY_SUCCESS header \<Rightarrow>
               (let t = mtype_of_bytes header
                in if sint t \<le> 0 then Returns IPC_EINVAL s
                   else if \<not> mem then Returns IPC_ENOMEM s
                   else case copy_from_user mm (msgp + 8) msgsz of
                          Page_Fault \<Rightarrow> Kernel_Fault
                        | COPY_EFAULT \<Rightarrow> Returns IPC_EFAULT s
                        | COPY_SUCCESS text \<Rightarrow>
                            (let (result, s') = msg_enqueue \<lparr>mtype = t, msize = msgsz, mtext = text\<rparr>
                                   (sint (ucast msqid :: u32)) current ticks s
                             in Returns result s')))"

section \<open>msgrcv\<close>

definition msg_match :: "u64 \<Rightarrow> msg_message \<Rightarrow> bool" where
  "msg_match t m =
     (if t = 0 then True
      else if 0 < sint t then mtype m = t
      else sint (mtype m) \<le> sint (- t))"

fun split_match :: "(msg_message \<Rightarrow> bool) \<Rightarrow> msg_message list \<Rightarrow> (msg_message list \<times> msg_message \<times> msg_message list) option" where
  "split_match P [] = None"
| "split_match P (m # ms) =
     (if P m then Some ([], m, ms)
      else map_option (\<lambda>(prev, m', rest). (m # prev, m', rest)) (split_match P ms))"

text \<open>
  The stretch under the lock: the error, or the type and the bytes copied into the bounce
  buffer of \<open>cap\<close> bytes. Writing past the buffer is an outcome of its own.
\<close>

datatype dequeue_result = Dq_Error int | Dq_Overflow | Dq_Message u64 "u8 list"

definition msg_dequeue :: "nat \<Rightarrow> int \<Rightarrow> u64 \<Rightarrow> u64 \<Rightarrow> u32 \<Rightarrow> ipc_proc \<Rightarrow> u64 \<Rightarrow> mq_state \<Rightarrow> dequeue_result \<times> mq_state" where
  "msg_dequeue cap i msgsz t flags current ticks s =
     (case msg_find_by_id i s of None \<Rightarrow> (Dq_Error IPC_EINVAL, s)
      | Some p \<Rightarrow>
          (let q = the (queues s p)
           in if \<not> msg_check_permission q (ip_uid current) (ip_gid current) False then (Dq_Error IPC_EACCES, s)
              else case split_match (msg_match t) (mq_msgs q) of
                     None \<Rightarrow> (Dq_Error IPC_ENOMSG, s)
                   | Some (prev, m, rest) \<Rightarrow>
                       if msgsz < msize m \<and> flags AND MSG_NOERROR = 0 then (Dq_Error IPC_E2BIG, s)
                       else let copy_size = min (msize m) msgsz;
                                s' = s\<lparr>queues := (queues s)(p \<mapsto>
                                  q\<lparr>mq_msgs := prev @ rest, msg_count := msg_count q - 1,
                                     total_bytes := total_bytes q - msize m, recv_time := ticks\<rparr>)\<rparr>
                            in if cap < unat copy_size then (Dq_Overflow, s')
                               else (Dq_Message (mtype m) (take (unat copy_size) (mtext m)), s')))"

definition sys_msgrcv :: "bool \<Rightarrow> (u64 \<Rightarrow> mmu \<Rightarrow> mmu) \<Rightarrow> mmu \<Rightarrow> u64 \<Rightarrow> u64 \<Rightarrow> u64 \<Rightarrow> u64 \<Rightarrow> u64 \<Rightarrow> ipc_proc \<Rightarrow> u64 \<Rightarrow>
    mq_state \<Rightarrow> (mq_state \<times> mmu) sysret" where
  "sys_msgrcv mem cow mm msqid msgp msgsz msgtyp msgflg current ticks s =
     (if msgp = 0 then Returns IPC_EINVAL (s, mm)
      else let cap = (if msgsz < MSGMAX then msgsz else MSGMAX)
           in if 0 < cap \<and> \<not> mem then Returns IPC_ENOMEM (s, mm)
              else case msg_dequeue (unat cap) (sint (ucast msqid :: u32)) msgsz msgtyp (ucast msgflg) current ticks s of
                     (Dq_Error e, s') \<Rightarrow> Returns e (s', mm)
                   | (Dq_Overflow, s') \<Rightarrow> Kernel_Fault
                   | (Dq_Message t text, s') \<Rightarrow>
                       (case copy_to_user cow mm msgp (bytes_of_mtype t) of
                          Page_Fault \<Rightarrow> Kernel_Fault
                        | COPY_EFAULT \<Rightarrow> Returns IPC_EFAULT (s', mm)
                        | COPY_SUCCESS mm1 \<Rightarrow>
                            if text = [] then Returns 0 (s', mm1)
                            else case copy_to_user cow mm1 (msgp + 8) text of
                                   Page_Fault \<Rightarrow> Kernel_Fault
                                 | COPY_EFAULT \<Rightarrow> Returns IPC_EFAULT (s', mm1)
                                 | COPY_SUCCESS mm2 \<Rightarrow> Returns (int (length text)) (s', mm2)))"

section \<open>msgctl and process exit\<close>

definition msg_unlink :: "qptr \<Rightarrow> msg_queue \<Rightarrow> mq_state \<Rightarrow> mq_state" where
  "msg_unlink p q s =
     s\<lparr>id_table := (id_table s)[nat (mq_id q) - 1 := None],
        key_table := key_table_remove (mq_key q) p (key_table s)\<rparr>"

definition mq_free :: "qptr \<Rightarrow> mq_state \<Rightarrow> mq_state" where
  "mq_free p s = s\<lparr>queues := (queues s)(p := None)\<rparr>"

definition sys_msgctl :: "u64 \<Rightarrow> u64 \<Rightarrow> ipc_proc \<Rightarrow> mq_state \<Rightarrow> int \<times> mq_state" where
  "sys_msgctl msqid cmd current s =
     (case msg_find_by_id (sint (ucast msqid :: u32)) s of None \<Rightarrow> (IPC_EINVAL, s)
      | Some p \<Rightarrow>
          (let q = the (queues s p); command = ucast cmd
           in if command = IPC_RMID then
                (if ip_uid current \<noteq> 0 \<and> ip_uid current \<noteq> creator_uid q then (IPC_EACCES, s)
                 else (IPC_SUCCESS, mq_free p (msg_unlink p q s)))
              else if command = IPC_STAT \<or> command = IPC_SET then (IPC_SUCCESS, s)
              else (IPC_EINVAL, s)))"

definition MSG_CLEANUP_MAX :: nat where "MSG_CLEANUP_MAX = 32"

text \<open>
  The loop under the lock over the slots of \<open>id_table\<close>: unlinks every queue of the process
  and records the first 32 for freeing.
\<close>

fun cleanup_scan :: "u32 \<Rightarrow> nat list \<Rightarrow> qptr list \<Rightarrow> mq_state \<Rightarrow> qptr list \<times> mq_state" where
  "cleanup_scan pid [] work s = (work, s)"
| "cleanup_scan pid (i # slots) work s =
     (case id_table s ! i of None \<Rightarrow> cleanup_scan pid slots work s
      | Some p \<Rightarrow>
          (let q = the (queues s p)
           in if owner_pid q \<noteq> pid then cleanup_scan pid slots work s
              else cleanup_scan pid slots
                     (if length work < MSG_CLEANUP_MAX then work @ [p] else work)
                     (s\<lparr>id_table := (id_table s)[i := None],
                         key_table := key_table_remove (mq_key q) p (key_table s)\<rparr>)))"

definition msg_cleanup_process :: "u32 \<Rightarrow> mq_state \<Rightarrow> mq_state" where
  "msg_cleanup_process pid s =
     (let (work, s') = cleanup_scan pid [0..<MQ_TABLE_SIZE] [] s in fold mq_free work s')"

end
