(* ===== verification/Msg_Table.thy ===== *)
theory Msg_Table
  imports Msg_Queue
begin

unbundle bit_operations_syntax

text \<open>
  The open-addressing key table of the message queues against its contract: an index from
  keys to queue pointers. The contract is the locale \<open>key_index\<close>; its interpretation on
  the code's probing loops is \<open>mq_index\<close>.
\<close>

section \<open>The contract of an index\<close>

text \<open>
  \<open>held\<close> are the pointers in the index and \<open>keys\<close> gives the key each carries. A look-up
  finds exactly the held pointer with the key.
\<close>

locale key_index =
  fixes ok :: "('p \<Rightarrow> 'k option) \<Rightarrow> 't \<Rightarrow> bool"
    and held :: "'t \<Rightarrow> 'p set"
    and find :: "('p \<Rightarrow> 'k option) \<Rightarrow> 'k \<Rightarrow> 't \<Rightarrow> 'p option"
    and add :: "'k \<Rightarrow> 'p \<Rightarrow> 't \<Rightarrow> 't"
    and del :: "'k \<Rightarrow> 'p \<Rightarrow> 't \<Rightarrow> 't"
    and capacity :: nat
    and usable :: "'k \<Rightarrow> bool"
  assumes index_find: "ok keys t \<Longrightarrow> usable k \<Longrightarrow> find keys k t = Some p \<longleftrightarrow> p \<in> held t \<and> keys p = Some k"
    and index_finite: "finite (held t)"
    and index_add_ok: "ok keys t \<Longrightarrow> usable k \<Longrightarrow> p \<notin> held t \<Longrightarrow> card (held t) < capacity \<Longrightarrow>
      (\<And>p'. p' \<in> held t \<Longrightarrow> keys p' \<noteq> Some k) \<Longrightarrow> ok (keys(p \<mapsto> k)) (add k p t)"
    and index_add_held: "ok keys t \<Longrightarrow> usable k \<Longrightarrow> card (held t) < capacity \<Longrightarrow> held (add k p t) = insert p (held t)"
    and index_del_ok: "ok keys t \<Longrightarrow> usable k \<Longrightarrow> keys p = Some k \<Longrightarrow> ok keys (del k p t)"
    and index_del_held: "ok keys t \<Longrightarrow> usable k \<Longrightarrow> keys p = Some k \<Longrightarrow> held (del k p t) = held t - {p}"
    and index_cong: "ok keys t \<Longrightarrow> (\<And>p. p \<in> held t \<Longrightarrow> keys' p = keys p) \<Longrightarrow> ok keys' t"
begin

lemma index_find_None: "ok keys t \<Longrightarrow> usable k \<Longrightarrow> find keys k t = None \<longleftrightarrow> (\<forall>p \<in> held t. keys p \<noteq> Some k)"
  using index_find [of keys t k] by (cases "find keys k t") auto

lemma index_find_add:
  assumes "ok keys t" and "usable k" and "p \<notin> held t" and "card (held t) < capacity" and "find keys k t = None"
    and "usable k'"
  shows "find (keys(p \<mapsto> k)) k' (add k p t) = (if k' = k then Some p else find keys k' t)"
proof -
  have ok': "ok (keys(p \<mapsto> k)) (add k p t)"
    using assms by (intro index_add_ok) (auto simp: index_find_None)
  have held': "held (add k p t) = insert p (held t)" using assms by (intro index_add_held)
  show ?thesis
  proof (cases "find keys k' t")
    case None
    then have none: "\<forall>p \<in> held t. keys p \<noteq> Some k'" using index_find_None [OF assms(1,6)] by simp
    show ?thesis
    proof (cases "k' = k")
      case True
      then show ?thesis using index_find [OF ok' assms(6), of p] held' by simp
    next
      case False
      then have "find (keys(p \<mapsto> k)) k' (add k p t) = None"
        using index_find_None [OF ok' assms(6)] held' none by simp
      with None False show ?thesis by simp
    qed
  next
    case (Some p')
    then have p': "p' \<in> held t" "keys p' = Some k'" using index_find [OF assms(1,6)] by simp_all
    then have "k' \<noteq> k" "p' \<noteq> p" using assms(3,5) index_find_None [OF assms(1,2)] by auto
    with p' held' index_find [OF ok' assms(6), of p'] Some show ?thesis by simp
  qed
qed

lemma index_find_del:
  assumes "ok keys t" and "usable k" and "keys p = Some k" and "p \<in> held t" and "usable k'"
  shows "find keys k' (del k p t) = (if k' = k then None else find keys k' t)"
proof -
  have unique: "p' = p" if "p' \<in> held t" "keys p' = Some k" for p'
    using index_find [OF assms(1,2)] assms(3,4) that by (metis option.inject)
  note ok' = index_del_ok [OF assms(1-3)] and held' = index_del_held [OF assms(1-3)]
  show ?thesis
  proof (cases "k' = k")
    case True
    then show ?thesis using index_find_None [OF ok' assms(5)] held' unique by auto
  next
    case other: False
    show ?thesis
    proof (cases "find keys k' t")
      case None
      then show ?thesis using other index_find_None [OF ok' assms(5)] index_find_None [OF assms(1,5)] held' by simp
    next
      case (Some p')
      then have "p' \<in> held t" "keys p' = Some k'" using index_find [OF assms(1,5)] by simp_all
      moreover have "p' \<noteq> p" using calculation(2) other assms(3) by force
      ultimately show ?thesis using other Some index_find [OF ok' assms(5), of p'] held' by simp
    qed
  qed
qed

end

section \<open>The probing sequence\<close>

lemma mask_mod: "unat (x AND MQ_HASH_MASK) = unat x mod 512"
proof -
  have "x AND MQ_HASH_MASK = take_bit 9 x"
    by (simp add: MQ_HASH_MASK_def take_bit_eq_mask mask_eq_exp_minus_1)
  then have "unat (x AND MQ_HASH_MASK) = take_bit 9 (unat x)" by (simp only: unsigned_take_bit_eq)
  then show ?thesis by (simp add: take_bit_eq_mod)
qed

lemma probe_slots_mod: "probe_slots k = map (\<lambda>i. (unat (mq_key_hash k) + i) mod 512) [0..<512]"
proof -
  have "unat ((mq_key_hash k + of_nat i) AND MQ_HASH_MASK) = (unat (mq_key_hash k) + i) mod 512" if "i < 512" for i
  proof -
    have "unat (mq_key_hash k) < 512" by (simp add: mq_key_hash_def Let_def mask_mod)
    with that show ?thesis by (simp add: mask_mod unat_word_ariths unsigned_of_nat take_bit_eq_mod)
  qed
  then show ?thesis by (simp add: probe_slots_def MQ_HASH_SIZE_def)
qed

lemma probe_slots_length [simp]: "length (probe_slots k) = 512"
  by (simp add: probe_slots_mod)

lemma probe_slots_distinct: "distinct (probe_slots k)"
proof -
  have inj: "i = j" if a: "i < 512" "j < 512" "(h + i) mod 512 = (h + j) mod 512" for h i j :: nat
  proof -
    obtain q r where "h + i + 512 * q = h + j + 512 * r" using nat_mod_eq_iff [THEN iffD1, OF a(3)] by blast
    then have "(i + 512 * q) mod 512 = (j + 512 * r) mod 512" by simp
    with a show ?thesis by simp
  qed
  have "inj_on (\<lambda>i. (unat (mq_key_hash k) + i) mod 512) {0..<512}"
    by (rule inj_onI, rule inj) auto
  then show ?thesis unfolding probe_slots_mod distinct_map by simp
qed

lemma probe_slots_set: "set (probe_slots k) = {..<512}"
proof (rule card_subset_eq)
  show "card (set (probe_slots k)) = card {..<512::nat}" by (simp add: distinct_card [OF probe_slots_distinct])
qed (auto simp: probe_slots_mod)

section \<open>The table\<close>

definition table_held :: "key_cell list \<Rightarrow> qptr set" where
  "table_held t = {p. MQ_Ptr p \<in> set t}"

text \<open>\<open>reaches t k p\<close>: probing for \<open>k\<close> comes to \<open>p\<close> before an empty cell.\<close>

definition reaches :: "key_cell list \<Rightarrow> u32 \<Rightarrow> qptr \<Rightarrow> bool" where
  "reaches t k p \<longleftrightarrow> (\<exists>pre i post. probe_slots k = pre @ i # post \<and> t ! i = MQ_Ptr p \<and>
     (\<forall>j \<in> set pre. t ! j \<noteq> MQ_HASH_EMPTY))"

definition table_ok :: "(qptr \<Rightarrow> u32 option) \<Rightarrow> key_cell list \<Rightarrow> bool" where
  "table_ok keys t \<longleftrightarrow> length t = 512 \<and>
     (\<forall>i j p. i < 512 \<longrightarrow> j < 512 \<longrightarrow> t ! i = MQ_Ptr p \<longrightarrow> t ! j = MQ_Ptr p \<longrightarrow> i = j) \<and>
     (\<forall>p \<in> table_held t. \<exists>k. keys p = Some k \<and> reaches t k p) \<and>
     (\<forall>p \<in> table_held t. \<forall>p' \<in> table_held t. keys p = keys p' \<longrightarrow> p = p')"

lemma table_heldI: "i < 512 \<Longrightarrow> length t = 512 \<Longrightarrow> t ! i = MQ_Ptr p \<Longrightarrow> p \<in> table_held t"
  by (metis mem_Collect_eq nth_mem table_held_def)

lemma table_heldE:
  assumes "p \<in> table_held t" and "length t = 512"
  obtains i where "i < 512" "t ! i = MQ_Ptr p"
  using assms by (auto simp: table_held_def in_set_conv_nth)

lemma finite_table_held: "finite (table_held t)"
proof -
  have "table_held t = (\<Union>c \<in> set t. case c of MQ_Ptr p \<Rightarrow> {p} | _ \<Rightarrow> {})"
    by (auto simp: table_held_def split: key_cell.splits)
  then show ?thesis by (auto split: key_cell.splits)
qed

lemma slot_less: "probe_slots k = pre @ i # post \<Longrightarrow> i < 512"
  using probe_slots_set [of k] by auto

text \<open>What the three loops do on a sequence of slots.\<close>

lemma find_probe_sound:
  "find_probe keys slots k t = Some p \<Longrightarrow> \<exists>i \<in> set slots. t ! i = MQ_Ptr p \<and> keys p = Some k"
  by (induction slots) (auto split: key_cell.splits if_splits)

lemma find_probe_reached:
  assumes "\<forall>j \<in> set pre. t ! j \<noteq> MQ_HASH_EMPTY" and "t ! i = MQ_Ptr p" and "keys p = Some k"
  shows "find_probe keys (pre @ i # post) k t \<noteq> None"
  using assms by (induction pre) (auto split: key_cell.splits)

lemma insert_probe_first:
  assumes "\<forall>j \<in> set pre. \<exists>p. t ! j = MQ_Ptr p" and "\<nexists>p. t ! i = MQ_Ptr p"
  shows "insert_probe (pre @ i # post) q t = t[i := MQ_Ptr q]"
  using assms by (induction pre) (auto split: key_cell.splits)

lemma remove_probe_first:
  assumes "\<forall>j \<in> set pre. t ! j \<noteq> MQ_HASH_EMPTY \<and> t ! j \<noteq> MQ_Ptr q" and "t ! i = MQ_Ptr q"
  shows "remove_probe (pre @ i # post) q t = t[i := MQ_HASH_DEAD]"
  using assms by (induction pre) auto

lemma remove_probe_absent: "\<forall>j \<in> set slots. t ! j \<noteq> MQ_Ptr q \<Longrightarrow> remove_probe slots q t = t"
  by (induction slots) auto

lemma table_find:
  assumes "table_ok keys t"
  shows "find_probe keys (probe_slots k) k t = Some p \<longleftrightarrow> p \<in> table_held t \<and> keys p = Some k"
proof -
  have sound: "p \<in> table_held t \<and> keys p = Some k" if "find_probe keys (probe_slots k) k t = Some p" for p
    using find_probe_sound [OF that] assms probe_slots_set [of k] by (auto simp: table_ok_def intro: table_heldI)
  show ?thesis
  proof
    assume p: "p \<in> table_held t \<and> keys p = Some k"
    then obtain pre i post where r: "probe_slots k = pre @ i # post" "t ! i = MQ_Ptr p"
        "\<forall>j \<in> set pre. t ! j \<noteq> MQ_HASH_EMPTY"
      using assms by (fastforce simp: table_ok_def reaches_def)
    then obtain p' where p': "find_probe keys (probe_slots k) k t = Some p'"
      using find_probe_reached [OF r(3,2), of keys k post] p unfolding r(1) by blast
    with sound p assms have "p' = p" by (metis table_ok_def)
    with p' show "find_probe keys (probe_slots k) k t = Some p" by simp
  qed (rule sound)
qed

text \<open>A free cell exists while the table holds fewer pointers than cells.\<close>

lemma table_free_cell:
  assumes "length t = 512" and "card (table_held t) < 512"
    and "\<forall>i j p. i < 512 \<longrightarrow> j < 512 \<longrightarrow> t ! i = MQ_Ptr p \<longrightarrow> t ! j = MQ_Ptr p \<longrightarrow> i = j"
  shows "\<exists>i < 512. \<nexists>p. t ! i = MQ_Ptr p"
proof (rule ccontr)
  assume "\<not> (\<exists>i < 512. \<nexists>p. t ! i = MQ_Ptr p)"
  then have all: "\<exists>p. t ! i = MQ_Ptr p" if "i < 512" for i using that by blast
  define f where "f i = (case t ! i of MQ_Ptr p \<Rightarrow> p | _ \<Rightarrow> 0)" for i
  have f: "t ! i = MQ_Ptr (f i)" if "i < 512" for i using all [OF that] by (auto simp: f_def)
  have "inj_on f {..<512}"
  proof (rule inj_onI)
    fix i j assume "i \<in> {..<512}" "j \<in> {..<512}" "f i = f j"
    then show "i = j" using f [of i] f [of j] assms(3) [rule_format, of i j "f i"] by simp
  qed
  moreover have "f ` {..<512} \<subseteq> table_held t" using f assms(1) by (auto intro: table_heldI)
  ultimately have "512 \<le> card (table_held t)"
    using card_mono [OF finite_table_held, of "f ` {..<512}" t] by (simp add: card_image)
  with assms(2) show False by simp
qed

lemma table_first_free:
  assumes "table_ok keys t" and "card (table_held t) < 512"
  obtains pre i post where "probe_slots k = pre @ i # post" "\<forall>j \<in> set pre. \<exists>p. t ! j = MQ_Ptr p" "\<nexists>p. t ! i = MQ_Ptr p"
proof -
  have "\<exists>i \<in> set (probe_slots k). \<nexists>p. t ! i = MQ_Ptr p"
    using table_free_cell [of t] assms unfolding probe_slots_set table_ok_def by auto
  from split_list_first_prop [OF this] obtain pre i post where
    "probe_slots k = pre @ i # post" "\<nexists>p. t ! i = MQ_Ptr p" "\<forall>j \<in> set pre. \<not> (\<nexists>p. t ! j = MQ_Ptr p)" by blast
  then show thesis by (intro that [of pre i post]) auto
qed

text \<open>A path stays a path if no cell becomes empty.\<close>

lemma reaches_update:
  assumes "reaches t k p" and "length t = 512" and "t ! i \<noteq> MQ_Ptr p" and "c \<noteq> MQ_HASH_EMPTY" and "i < 512"
  shows "reaches (t[i := c]) k p"
proof -
  obtain pre j post where r: "probe_slots k = pre @ j # post" "t ! j = MQ_Ptr p"
      "\<forall>j \<in> set pre. t ! j \<noteq> MQ_HASH_EMPTY" using assms(1) by (auto simp: reaches_def)
  have "t[i := c] ! j = MQ_Ptr p" using r(2) assms(3) by (cases "j = i") simp_all
  moreover have "\<forall>j \<in> set pre. t[i := c] ! j \<noteq> MQ_HASH_EMPTY"
    using r(3) assms(2,4,5) by (simp add: nth_list_update)
  ultimately show ?thesis using r(1) unfolding reaches_def by blast
qed

lemma held_update:
  assumes "length t = 512" and "i < 512" and "\<forall>j < 512. t ! j = t ! i \<longrightarrow> j = i \<or> (\<nexists>p. t ! i = MQ_Ptr p)"
  shows "table_held (t[i := c]) = (table_held t - {p. t ! i = MQ_Ptr p}) \<union> {p. c = MQ_Ptr p}"
proof -
  have "MQ_Ptr p \<in> set (t[i := c]) \<longleftrightarrow> (MQ_Ptr p \<in> set t \<and> t ! i \<noteq> MQ_Ptr p) \<or> c = MQ_Ptr p" for p
  proof -
    have "MQ_Ptr p \<in> set (t[i := c]) \<longleftrightarrow> (\<exists>j < 512. t[i := c] ! j = MQ_Ptr p)"
      using assms(1) by (auto simp: in_set_conv_nth)
    also have "\<dots> \<longleftrightarrow> (\<exists>j < 512. j \<noteq> i \<and> t ! j = MQ_Ptr p) \<or> c = MQ_Ptr p"
      using assms(1,2) by (metis nth_list_update)
    also have "(\<exists>j < 512. j \<noteq> i \<and> t ! j = MQ_Ptr p) \<longleftrightarrow> MQ_Ptr p \<in> set t \<and> t ! i \<noteq> MQ_Ptr p"
      using assms by (metis in_set_conv_nth)
    finally show ?thesis .
  qed
  then show ?thesis by (auto simp: table_held_def)
qed

lemma cell_unique: "table_ok keys t \<Longrightarrow> i < 512 \<Longrightarrow> j < 512 \<Longrightarrow> t ! i = MQ_Ptr p \<Longrightarrow> t ! j = MQ_Ptr p \<Longrightarrow> i = j"
  unfolding table_ok_def by blast

lemma key_insert_cell:
  assumes "table_ok keys t" and "k \<noteq> IPC_PRIVATE" and "card (table_held t) < 512"
  obtains pre i post where "probe_slots k = pre @ i # post" "\<forall>j \<in> set pre. t ! j \<noteq> MQ_HASH_EMPTY" "i < 512"
    "\<nexists>p. t ! i = MQ_Ptr p" "key_table_insert k q t = t[i := MQ_Ptr q]"
proof -
  obtain pre i post where r: "probe_slots k = pre @ i # post" "\<forall>j \<in> set pre. \<exists>p. t ! j = MQ_Ptr p" "\<nexists>p. t ! i = MQ_Ptr p"
    using table_first_free [OF assms(1,3)] by blast
  moreover have "\<forall>j \<in> set pre. t ! j \<noteq> MQ_HASH_EMPTY" using r(2) by force
  moreover have "key_table_insert k q t = t[i := MQ_Ptr q]"
    using insert_probe_first [OF r(2,3)] assms(2) by (simp add: key_table_insert_def r(1))
  ultimately show thesis using slot_less that by blast
qed

lemma key_insert_held:
  assumes "table_ok keys t" and "k \<noteq> IPC_PRIVATE" and "card (table_held t) < 512"
  shows "table_held (key_table_insert k q t) = insert q (table_held t)"
proof -
  obtain pre i post where i: "i < 512" "\<nexists>p. t ! i = MQ_Ptr p" "key_table_insert k q t = t[i := MQ_Ptr q]"
    by (rule key_insert_cell [OF assms, of q]) blast
  have "length t = 512" using assms(1) by (simp add: table_ok_def)
  with held_update [OF this i(1), of "MQ_Ptr q"] i(2) show ?thesis unfolding i(3) by auto
qed

lemma table_okI:
  assumes "length t = 512"
    and "\<And>i j p. i < 512 \<Longrightarrow> j < 512 \<Longrightarrow> t ! i = MQ_Ptr p \<Longrightarrow> t ! j = MQ_Ptr p \<Longrightarrow> i = j"
    and "\<And>p. p \<in> table_held t \<Longrightarrow> \<exists>k. keys p = Some k \<and> reaches t k p"
    and "\<And>p p'. p \<in> table_held t \<Longrightarrow> p' \<in> table_held t \<Longrightarrow> keys p = keys p' \<Longrightarrow> p = p'"
  shows "table_ok keys t"
  using assms unfolding table_ok_def by blast

lemma key_insert_ok:
  assumes "table_ok keys t" and "k \<noteq> IPC_PRIVATE" and "q \<notin> table_held t" and "card (table_held t) < 512"
    and "\<And>p. p \<in> table_held t \<Longrightarrow> keys p \<noteq> Some k"
  shows "table_ok (keys(q \<mapsto> k)) (key_table_insert k q t)"
proof (rule table_okI)
  obtain pre i post where r: "probe_slots k = pre @ i # post" "\<forall>j \<in> set pre. t ! j \<noteq> MQ_HASH_EMPTY"
    and i: "i < 512" "\<nexists>p. t ! i = MQ_Ptr p" "key_table_insert k q t = t[i := MQ_Ptr q]"
    by (rule key_insert_cell [OF assms(1,2,4), of q]) blast
  have len: "length t = 512" using assms(1) by (simp add: table_ok_def)
  note held = key_insert_held [OF assms(1,2,4), of q]
  show "length (key_table_insert k q t) = 512" using len i(3) by simp
  show "a = b" if "a < 512" "b < 512" "key_table_insert k q t ! a = MQ_Ptr p" "key_table_insert k q t ! b = MQ_Ptr p" for a b p
  proof (cases "p = q")
    case True
    have "c = i" if "c < 512" "key_table_insert k q t ! c = MQ_Ptr q" for c
      using that assms(3) len i(1) table_heldI [of c t q] by (auto simp: i(3) nth_list_update split: if_splits)
    with that True show ?thesis by blast
  next
    case False
    then have "t ! c = MQ_Ptr p" if "c < 512" "key_table_insert k q t ! c = MQ_Ptr p" for c
      using that len i(1) by (auto simp: i(3) nth_list_update split: if_splits)
    with that cell_unique [OF assms(1)] show ?thesis by blast
  qed
  show "\<exists>k'. (keys(q \<mapsto> k)) p = Some k' \<and> reaches (key_table_insert k q t) k' p"
    if "p \<in> table_held (key_table_insert k q t)" for p
  proof (cases "p = q")
    case True
    have "\<forall>j \<in> set pre. t[i := MQ_Ptr q] ! j \<noteq> MQ_HASH_EMPTY" using r(2) len i(1) by (simp add: nth_list_update)
    then have "reaches (t[i := MQ_Ptr q]) k q" using r(1) i(1) len unfolding reaches_def by fastforce
    with True show ?thesis by (simp add: i(3))
  next
    case False
    with that held have "p \<in> table_held t" by simp
    then obtain k' where "keys p = Some k'" "reaches t k' p" using assms(1) by (auto simp: table_ok_def)
    with False i len reaches_update [of t k' p i "MQ_Ptr q"] show ?thesis by auto
  qed
  show "p = p'" if "p \<in> table_held (key_table_insert k q t)" "p' \<in> table_held (key_table_insert k q t)"
    "(keys(q \<mapsto> k)) p = (keys(q \<mapsto> k)) p'" for p p'
    using that assms(1,5) unfolding held table_ok_def by (metis fun_upd_apply insertE)
qed

lemma key_remove_cell:
  assumes "table_ok keys t" and "k \<noteq> IPC_PRIVATE" and "keys q = Some k" and "q \<in> table_held t"
  obtains i where "i < 512" "t ! i = MQ_Ptr q" "key_table_remove k q t = t[i := MQ_HASH_DEAD]"
proof -
  obtain pre i post where r: "probe_slots k = pre @ i # post" "t ! i = MQ_Ptr q" "\<forall>j \<in> set pre. t ! j \<noteq> MQ_HASH_EMPTY"
    using assms by (fastforce simp: table_ok_def reaches_def)
  have i: "i < 512" and "set pre \<subseteq> {..<512}" using slot_less [OF r(1)] probe_slots_set [of k] r(1) by auto
  moreover have "i \<notin> set pre" using probe_slots_distinct [of k] r(1) by auto
  ultimately have "t ! j \<noteq> MQ_Ptr q" if "j \<in> set pre" for j
    using that cell_unique [OF assms(1) _ i _ r(2), of j] by auto
  with r(3) have "\<forall>j \<in> set pre. t ! j \<noteq> MQ_HASH_EMPTY \<and> t ! j \<noteq> MQ_Ptr q" by blast
  from remove_probe_first [OF this r(2)] have "key_table_remove k q t = t[i := MQ_HASH_DEAD]"
    using assms(2) by (simp add: key_table_remove_def r(1))
  with i r(2) show thesis by (intro that)
qed

lemma key_remove_absent:
  assumes "table_ok keys t" and "q \<notin> table_held t"
  shows "key_table_remove k q t = t"
  using assms remove_probe_absent [of "probe_slots k" t q] table_heldI [of _ t q]
  by (auto simp: key_table_remove_def table_ok_def probe_slots_set)

lemma key_remove_held:
  assumes "table_ok keys t" and "k \<noteq> IPC_PRIVATE" and "keys q = Some k"
  shows "table_held (key_table_remove k q t) = table_held t - {q}"
proof (cases "q \<in> table_held t")
  case True
  obtain i where i: "i < 512" "t ! i = MQ_Ptr q" "key_table_remove k q t = t[i := MQ_HASH_DEAD]"
    by (rule key_remove_cell [OF assms True])
  have len: "length t = 512" using assms(1) by (simp add: table_ok_def)
  have "\<forall>j < 512. t ! j = t ! i \<longrightarrow> j = i" using cell_unique [OF assms(1) _ i(1)] i(2) by simp
  with held_update [OF len i(1), of MQ_HASH_DEAD] i(2) show ?thesis unfolding i(3) by auto
next
  case False
  with key_remove_absent [OF assms(1)] show ?thesis by simp
qed

lemma key_remove_ok:
  assumes "table_ok keys t" and "k \<noteq> IPC_PRIVATE" and "keys q = Some k"
  shows "table_ok keys (key_table_remove k q t)"
proof (cases "q \<in> table_held t")
  case True
  obtain i where i: "i < 512" "t ! i = MQ_Ptr q" "key_table_remove k q t = t[i := MQ_HASH_DEAD]"
    by (rule key_remove_cell [OF assms True])
  have len: "length t = 512" using assms(1) by (simp add: table_ok_def)
  note held = key_remove_held [OF assms]
  show ?thesis
  proof (rule table_okI)
    show "length (key_table_remove k q t) = 512" using len i(3) by simp
    show "a = b" if "a < 512" "b < 512" "key_table_remove k q t ! a = MQ_Ptr p" "key_table_remove k q t ! b = MQ_Ptr p" for a b p
      using that len i(1) cell_unique [OF assms(1), of a b p] by (auto simp: i(3) nth_list_update split: if_splits)
    show "\<exists>k'. keys p = Some k' \<and> reaches (key_table_remove k q t) k' p" if "p \<in> table_held (key_table_remove k q t)" for p
    proof -
      have "p \<in> table_held t" "p \<noteq> q" using that held by simp_all
      then obtain k' where "keys p = Some k'" "reaches t k' p" using assms(1) by (auto simp: table_ok_def)
      with \<open>p \<noteq> q\<close> i len reaches_update [of t k' p i MQ_HASH_DEAD] show ?thesis by auto
    qed
    show "p = p'" if "p \<in> table_held (key_table_remove k q t)" "p' \<in> table_held (key_table_remove k q t)" "keys p = keys p'" for p p'
      using that assms(1) unfolding held table_ok_def by blast
  qed
next
  case False
  with key_remove_absent [OF assms(1)] assms(1) show ?thesis by simp
qed

lemma table_ok_cong:
  assumes "table_ok keys t" and "\<And>p. p \<in> table_held t \<Longrightarrow> keys' p = keys p"
  shows "table_ok keys' t"
  using assms unfolding table_ok_def by simp

text \<open>The code's table meets the contract, with 512 cells and every key but the private one.\<close>

interpretation mq_index: key_index table_ok table_held "\<lambda>keys k t. find_probe keys (probe_slots k) k t"
  key_table_insert key_table_remove 512 "\<lambda>k. k \<noteq> IPC_PRIVATE"
proof unfold_locales
  show "find_probe keys (probe_slots k) k t = Some p \<longleftrightarrow> p \<in> table_held t \<and> keys p = Some k"
    if "table_ok keys t" for keys t k p using table_find [OF that] .
  show "table_ok keys' t" if "table_ok keys t" "\<And>p. p \<in> table_held t \<Longrightarrow> keys' p = keys p" for keys keys' t
    using table_ok_cong that by blast
qed (simp_all add: finite_table_held key_insert_ok key_insert_held key_remove_ok key_remove_held)

lemma empty_table_ok: "table_ok keys (replicate MQ_HASH_SIZE MQ_HASH_EMPTY)"
  and empty_table_held: "table_held (replicate MQ_HASH_SIZE MQ_HASH_EMPTY) = {}"
  by (simp_all add: table_ok_def table_held_def MQ_HASH_SIZE_def)

end
