(* ===== verification/Msg_Invariant.thy ===== *)
theory Msg_Invariant
  imports Msg_Table
begin

unbundle bit_operations_syntax

text \<open>
  The invariant of the message queues and that every critical section keeps it. \<open>mq_reach\<close>
  are the states of all interleavings of the sections by any number of processors, with
  every result of the allocator and with frees that come late.
\<close>

section \<open>The invariant\<close>

definition message_ok :: "msg_message \<Rightarrow> bool" where
  "message_ok m \<longleftrightarrow> msize m = of_nat (length (mtext m)) \<and> length (mtext m) \<le> 8192 \<and> 0 < sint (mtype m)"

definition queued_bytes :: "msg_message list \<Rightarrow> nat" where
  "queued_bytes ms = sum_list (map (\<lambda>m. length (mtext m)) ms)"

definition queue_ok :: "msg_queue \<Rightarrow> bool" where
  "queue_ok q \<longleftrightarrow> max_msgs q = 100 \<and> max_bytes q = MSGMNB \<and> (\<forall>m \<in> set (mq_msgs q). message_ok m) \<and>
     length (mq_msgs q) \<le> 100 \<and> msg_count q = of_nat (length (mq_msgs q)) \<and>
     queued_bytes (mq_msgs q) \<le> 16384 \<and> total_bytes q = of_nat (queued_bytes (mq_msgs q))"

text \<open>The queues the identifier table leads to.\<close>

definition published :: "mq_state \<Rightarrow> qptr set" where
  "published s = {p. Some p \<in> set (id_table s)}"

definition mq_ok :: "mq_state \<Rightarrow> bool" where
  "mq_ok s \<longleftrightarrow> length (id_table s) = 256 \<and> 1 \<le> next_msg_id s \<and> next_msg_id s \<le> 256 \<and>
     (\<forall>i < 256. \<forall>p. id_table s ! i = Some p \<longrightarrow> (\<exists>q. queues s p = Some q \<and> mq_id q = int i + 1 \<and> queue_ok q)) \<and>
     table_ok (queue_key s) (key_table s) \<and>
     table_held (key_table s) = {p \<in> published s. queue_key s p \<noteq> Some IPC_PRIVATE}"

lemma queue_key_update [simp]:
  "queue_key (s\<lparr>next_msg_id := i\<rparr>) = queue_key s" "queue_key (s\<lparr>id_table := xs\<rparr>) = queue_key s"
  "queue_key (s\<lparr>key_table := ys\<rparr>) = queue_key s"
  by (simp_all add: queue_key_def fun_eq_iff)

lemma publishedE:
  assumes "mq_ok s" and "p \<in> published s"
  obtains i q where "i < 256" "id_table s ! i = Some p" "queues s p = Some q" "mq_id q = int i + 1" "queue_ok q"
  using assms by (fastforce simp: mq_ok_def published_def in_set_conv_nth)

lemma id_slot:
  assumes "mq_ok s" and "i < 256" and "id_table s ! i = Some p"
  obtains q where "queues s p = Some q" "mq_id q = int i + 1" "queue_ok q" "p \<in> published s"
proof -
  have "p \<in> published s" using assms by (metis (mono_tags) mem_Collect_eq mq_ok_def nth_mem published_def)
  with assms show thesis using that unfolding mq_ok_def by blast
qed

lemma find_by_id:
  assumes "mq_ok s" and "msg_find_by_id i s = Some p"
  obtains q where "queues s p = Some q" "mq_id q = i" "queue_ok q" "p \<in> published s" "1 \<le> i" "i \<le> 256"
    "id_table s ! (nat i - 1) = Some p"
proof -
  have i: "1 \<le> i" "i \<le> 256" "id_table s ! (nat i - 1) = Some p"
    using assms(2) by (auto simp: msg_find_by_id_def MQ_TABLE_SIZE_def split: if_splits)
  then have "nat i - 1 < 256" by linarith
  moreover have "int (nat i - 1) + 1 = i" using i(1) by simp
  ultimately show thesis using id_slot [OF assms(1) _ i(3)] i that by metis
qed

lemma published_key: "p \<in> published s \<Longrightarrow> mq_ok s \<Longrightarrow> \<exists>k. queue_key s p = Some k"
  by (rule publishedE [of s p]) (auto simp: queue_key_def)

lemma find_by_key_iff:
  assumes "mq_ok s"
  shows "msg_find_by_key k s = Some p \<longleftrightarrow> k \<noteq> IPC_PRIVATE \<and> p \<in> published s \<and> queue_key s p = Some k"
  using assms mq_index.index_find [of "queue_key s" "key_table s" k p]
  by (auto simp: msg_find_by_key_def mq_ok_def)

lemma card_held:
  assumes "mq_ok s"
  shows "card (table_held (key_table s)) < 512"
proof -
  have "table_held (key_table s) \<subseteq> published s" using assms by (auto simp: mq_ok_def)
  moreover have "published s \<subseteq> the ` set (id_table s)" by (force simp: published_def)
  ultimately have "card (table_held (key_table s)) \<le> card (the ` set (id_table s))" by (intro card_mono) auto
  also have "\<dots> \<le> card (set (id_table s))" by (rule card_image_le) simp
  also have "\<dots> \<le> 256" using card_length [of "id_table s"] assms by (simp add: mq_ok_def)
  finally show ?thesis by simp
qed

section \<open>Sections that leave the tables alone\<close>

text \<open>Replacing a published queue by one with the same identifier and key.\<close>

lemma update_queue_ok:
  assumes "mq_ok s" and "queues s p = Some q" and "mq_id q' = mq_id q" and "mq_key q' = mq_key q" and "queue_ok q \<Longrightarrow> queue_ok q'"
  shows "mq_ok (s\<lparr>queues := (queues s)(p \<mapsto> q')\<rparr>)"
proof -
  have keys: "queue_key (s\<lparr>queues := (queues s)(p \<mapsto> q')\<rparr>) = queue_key s"
    using assms(2,4) by (auto simp: queue_key_def)
  show ?thesis
    using assms unfolding mq_ok_def keys published_def by auto
qed

lemma queued_bytes_append [simp]: "queued_bytes (xs @ ys) = queued_bytes xs + queued_bytes ys"
  by (simp add: queued_bytes_def)

lemma queued_bytes_Cons [simp]: "queued_bytes (m # ys) = length (mtext m) + queued_bytes ys" "queued_bytes [] = 0"
  by (simp_all add: queued_bytes_def)

lemma enqueue_room:
  assumes "queue_ok q" and "message_ok m"
  shows "max_msgs q \<le> msg_count q \<or> max_bytes q < total_bytes q + msize m \<longleftrightarrow>
    length (mq_msgs q) = 100 \<or> 16384 < queued_bytes (mq_msgs q) + length (mtext m)"
proof -
  have "max_msgs q \<le> msg_count q \<longleftrightarrow> length (mq_msgs q) = 100"
    using assms by (auto simp: queue_ok_def word_le_nat_alt unsigned_of_nat take_bit_eq_mod)
  moreover have "max_bytes q < total_bytes q + msize m \<longleftrightarrow> 16384 < queued_bytes (mq_msgs q) + length (mtext m)"
  proof -
    have "total_bytes q + msize m = of_nat (queued_bytes (mq_msgs q) + length (mtext m))"
      using assms by (simp add: queue_ok_def message_ok_def)
    then have "unat (total_bytes q + msize m) = queued_bytes (mq_msgs q) + length (mtext m)"
      using assms by (simp add: queue_ok_def message_ok_def unsigned_of_nat take_bit_eq_mod del: of_nat_add)
    then show ?thesis using assms by (simp add: queue_ok_def word_less_nat_alt MSGMNB_def)
  qed
  ultimately show ?thesis by simp
qed

lemma enqueue_ok:
  assumes "mq_ok s" and "message_ok m"
  shows "mq_ok (snd (msg_enqueue m i current ticks s))"
proof (cases "msg_find_by_id i s")
  case None
  with assms show ?thesis by (simp add: msg_enqueue_def)
next
  case (Some p)
  obtain q where q: "queues s p = Some q" "queue_ok q" by (rule find_by_id [OF assms(1) Some])
  show ?thesis
  proof (cases "max_msgs q \<le> msg_count q \<or> max_bytes q < total_bytes q + msize m")
    case True
    with assms(1) Some q(1) show ?thesis by (simp add: msg_enqueue_def)
  next
    case False
    let ?q = "q\<lparr>mq_msgs := mq_msgs q @ [m], msg_count := msg_count q + 1,
      total_bytes := total_bytes q + msize m, send_time := ticks\<rparr>"
    have "queue_ok ?q"
      using False enqueue_room [OF q(2) assms(2)] q(2) assms(2) by (auto simp: queue_ok_def message_ok_def)
    then have "mq_ok (s\<lparr>queues := (queues s)(p \<mapsto> ?q)\<rparr>)"
      by (intro update_queue_ok [OF assms(1) q(1)]) simp_all
    with False assms(1) Some q(1) show ?thesis by (simp add: msg_enqueue_def Let_def)
  qed
qed

lemma split_match_Some:
  "split_match P ms = Some (prev, m, rest) \<Longrightarrow> ms = prev @ m # rest \<and> P m \<and> (\<forall>x \<in> set prev. \<not> P x)"
  by (induction ms arbitrary: prev) (auto split: if_splits)

lemma split_match_None: "split_match P ms = None \<longleftrightarrow> (\<forall>x \<in> set ms. \<not> P x)"
  by (induction ms) auto

lemma dequeue_queue_ok:
  assumes "queue_ok q" and "mq_msgs q = prev @ m # rest"
  shows "queue_ok (q\<lparr>mq_msgs := prev @ rest, msg_count := msg_count q - 1,
    total_bytes := total_bytes q - msize m, recv_time := ticks\<rparr>)"
  using assms by (simp add: queue_ok_def message_ok_def)

lemma dequeue_ok:
  assumes "mq_ok s"
  shows "mq_ok (snd (msg_dequeue cap i msgsz t flags current ticks s))"
proof (cases "msg_find_by_id i s")
  case None
  with assms show ?thesis by (simp add: msg_dequeue_def)
next
  case (Some p)
  obtain q where q: "queues s p = Some q" "queue_ok q" by (rule find_by_id [OF assms Some])
  show ?thesis
  proof (cases "split_match (msg_match t) (mq_msgs q)")
    case None
    with assms Some q(1) show ?thesis by (simp add: msg_dequeue_def)
  next
    case (Some r)
    obtain prev m rest where r: "r = (prev, m, rest)" by (cases r)
    let ?q = "q\<lparr>mq_msgs := prev @ rest, msg_count := msg_count q - 1,
      total_bytes := total_bytes q - msize m, recv_time := ticks\<rparr>"
    have "queue_ok ?q" using dequeue_queue_ok [OF q(2)] split_match_Some Some r by blast
    then have "mq_ok (s\<lparr>queues := (queues s)(p \<mapsto> ?q)\<rparr>)"
      by (intro update_queue_ok [OF assms q(1)]) simp_all
    with Some r \<open>msg_find_by_id i s = Some p\<close> assms q(1) show ?thesis by (simp add: msg_dequeue_def Let_def)
  qed
qed

section \<open>Sections that change the tables\<close>

text \<open>The search ends in range, and on a free slot if it reports one.\<close>

lemma find_free_id_range:
  assumes "1 \<le> start" and "start \<le> 256" and "1 \<le> i" and "i \<le> 256"
  shows "case find_free_id fuel start table i of Inl j \<Rightarrow> 1 \<le> j \<and> j \<le> 256
    | Inr j \<Rightarrow> 1 \<le> j \<and> j \<le> 256 \<and> table ! (j - 1) = None"
  using assms
proof (induction fuel start table i rule: find_free_id.induct)
  case (2 fuel start table i)
  show ?case
  proof (cases "table ! (i - 1) = None")
    case True
    with "2.prems" show ?thesis by simp
  next
    case False
    let ?j = "if i + 1 > MQ_TABLE_SIZE then 1 else i + 1"
    have j: "1 \<le> ?j" "?j \<le> 256" using "2.prems" by (simp_all add: MQ_TABLE_SIZE_def)
    show ?thesis
    proof (cases "?j = start")
      case True
      have "find_free_id (Suc fuel) start table i = Inl start"
        by (simp only: find_free_id.simps Let_def False True if_False if_True refl)
      with "2.prems" show ?thesis by simp
    next
      case other: False
      have "find_free_id (Suc fuel) start table i = find_free_id fuel start table ?j"
        by (simp only: find_free_id.simps Let_def False other if_False)
      with "2.IH" [OF False refl other] "2.prems" j show ?thesis by presburger
    qed
  qed
qed simp

lemma mq_ok_next: "mq_ok s \<Longrightarrow> 1 \<le> i \<Longrightarrow> i \<le> 256 \<Longrightarrow> mq_ok (s\<lparr>next_msg_id := i\<rparr>)"
  by (simp add: mq_ok_def published_def)

lemma reserve_ok:
  assumes "mq_ok s"
  shows "mq_ok (snd (msgget_reserve k flags s)) \<and>
    (\<forall>i. fst (msgget_reserve k flags s) = Inr i \<longrightarrow> 1 \<le> i \<and> i \<le> 256 \<and> id_table s ! (i - 1) = None) \<and>
    queues (snd (msgget_reserve k flags s)) = queues s \<and> id_table (snd (msgget_reserve k flags s)) = id_table s \<and>
    key_table (snd (msgget_reserve k flags s)) = key_table s"
proof -
  let ?start = "if next_msg_id s > MQ_TABLE_SIZE then 1 else next_msg_id s"
  have "1 \<le> ?start" "?start \<le> 256" using assms by (simp_all add: mq_ok_def MQ_TABLE_SIZE_def)
  from find_free_id_range [OF this this, where fuel = MQ_TABLE_SIZE and table = "id_table s"] assms mq_ok_next [OF assms]
  show ?thesis by (auto simp: msgget_reserve_def Let_def split: sum.splits option.splits)
qed

lemma set_list_update_None:
  assumes "xs ! i = None" and "i < length xs"
  shows "{p. Some p \<in> set (xs[i := Some q])} = insert q {p. Some p \<in> set xs}"
proof -
  have "Some p \<in> set (xs[i := Some q]) \<longleftrightarrow> p = q \<or> Some p \<in> set xs" for p
    using assms by (auto simp: in_set_conv_nth nth_list_update) (metis option.distinct(1))+
  then show ?thesis by auto
qed

lemma publish_ok:
  assumes "mq_ok s" and "queues s q = None" and "1 \<le> i" and "i \<le> 256"
  shows "mq_ok (snd (msgget_publish q i k flags current ticks s))"
proof -
  let ?q = "new_queue i k flags current ticks"
  let ?s = "s\<lparr>queues := (queues s)(q \<mapsto> ?q), id_table := (id_table s)[i - 1 := Some q],
    key_table := key_table_insert k q (key_table s), next_msg_id := (if i + 1 > MQ_TABLE_SIZE then 1 else i + 1)\<rparr>"
  have "mq_ok ?s" if free: "id_table s ! (i - 1) = None" and none: "k \<noteq> IPC_PRIVATE \<Longrightarrow> msg_find_by_key k s = None"
  proof -
    have q: "q \<notin> published s" using assms(1,2) by (auto elim: publishedE)
    then have notheld: "q \<notin> table_held (key_table s)" using assms(1) by (simp add: mq_ok_def)
    have keys: "queue_key ?s = (queue_key s)(q \<mapsto> k)" by (auto simp: queue_key_def new_queue_def)
    have pub: "published ?s = insert q (published s)"
      using set_list_update_None [of "id_table s" "i - 1" q] free assms by (simp add: published_def mq_ok_def)
    have ok: "table_ok (queue_key s) (key_table s)" and held: "table_held (key_table s) = {p \<in> published s. queue_key s p \<noteq> Some IPC_PRIVATE}"
      using assms(1) by (simp_all add: mq_ok_def)
    have tab: "table_ok (queue_key ?s) (key_table ?s) \<and>
        table_held (key_table ?s) = {p \<in> published ?s. queue_key ?s p \<noteq> Some IPC_PRIVATE}"
    proof (cases "k = IPC_PRIVATE")
      case True
      have "table_ok ((queue_key s)(q \<mapsto> k)) (key_table s)"
        using notheld by (intro mq_index.index_cong [OF ok]) auto
      with True q held show ?thesis unfolding keys pub by (auto simp: key_table_insert_def)
    next
      case False
      then have "p \<in> table_held (key_table s) \<Longrightarrow> queue_key s p \<noteq> Some k" for p
        using none [OF False] find_by_key_iff [OF assms(1), of k p] held by auto
      then have "table_ok ((queue_key s)(q \<mapsto> k)) (key_table_insert k q (key_table s))"
        using mq_index.index_add_ok [OF ok False notheld card_held [OF assms(1)]] by blast
      with mq_index.index_add_held [OF ok False card_held [OF assms(1)], of q] False q held
      show ?thesis unfolding keys pub by auto
    qed
    have "\<exists>r. queues ?s p = Some r \<and> mq_id r = int j + 1 \<and> queue_ok r" if "j < 256" "id_table ?s ! j = Some p" for j p
    proof (cases "j = i - 1")
      case True
      with that assms show ?thesis
        by (auto simp: mq_ok_def new_queue_def queue_ok_def queued_bytes_def of_nat_diff)
    next
      case False
      then have "id_table s ! j = Some p" using that by simp
      from id_slot [OF assms(1) that(1) this] obtain r where
        "queues s p = Some r" "mq_id r = int j + 1" "queue_ok r" "p \<in> published s" by blast
      with q show ?thesis by auto
    qed
    with tab assms show ?thesis unfolding mq_ok_def [of ?s] by (simp add: mq_ok_def MQ_TABLE_SIZE_def)
  qed
  then show ?thesis using assms(1)
    by (auto simp: msgget_publish_def Let_def split: option.splits)
qed

lemma nat_int_slot [simp]: "nat (int i + 1) = Suc i"
  by linarith

lemma unlink_published:
  assumes "mq_ok s" and "queues s p = Some q" and "p \<in> published s"
  shows "published (msg_unlink p q s) = published s - {p}"
proof -
  obtain i where i: "i < 256" "id_table s ! i = Some p" "mq_id q = int i + 1"
    using assms by (auto elim: publishedE)
  have slot: "j = i" if "j < 256" "id_table s ! j = Some p" for j
    using id_slot [OF assms(1) that] assms(2) i(3) by (metis add_right_cancel of_nat_eq_iff option.inject)
  have len: "length (id_table s) = 256" using assms(1) by (simp add: mq_ok_def)
  have tab: "id_table (msg_unlink p q s) = (id_table s)[i := None]" by (simp add: msg_unlink_def i(3))
  have "Some r \<in> set ((id_table s)[i := None]) \<longleftrightarrow> Some r \<in> set (id_table s) \<and> r \<noteq> p" for r
  proof -
    have "Some r \<in> set ((id_table s)[i := None]) \<longleftrightarrow> (\<exists>j < 256. j \<noteq> i \<and> id_table s ! j = Some r)"
      using len i(1) by (auto simp: in_set_conv_nth nth_list_update)
    also have "\<dots> \<longleftrightarrow> (\<exists>j < 256. id_table s ! j = Some r) \<and> r \<noteq> p"
      using slot i(1,2) by (metis option.inject)
    finally show ?thesis using len by (auto simp: in_set_conv_nth)
  qed
  then show ?thesis by (auto simp: published_def tab)
qed

lemma unlink_ok:
  assumes "mq_ok s" and "queues s p = Some q" and "p \<in> published s"
  shows "mq_ok (msg_unlink p q s)"
proof -
  let ?s = "msg_unlink p q s"
  have keys: "queue_key ?s = queue_key s" and heap: "queues ?s = queues s" by (simp_all add: msg_unlink_def)
  have k: "queue_key s p = Some (mq_key q)" using assms(2) by (simp add: queue_key_def)
  have ok: "table_ok (queue_key s) (key_table s)" and held: "table_held (key_table s) = {p \<in> published s. queue_key s p \<noteq> Some IPC_PRIVATE}"
    using assms(1) by (simp_all add: mq_ok_def)
  have tab: "table_ok (queue_key ?s) (key_table ?s) \<and>
      table_held (key_table ?s) = {p \<in> published ?s. queue_key ?s p \<noteq> Some IPC_PRIVATE}"
  proof (cases "mq_key q = IPC_PRIVATE")
    case True
    then have "key_table ?s = key_table s" by (simp add: msg_unlink_def key_table_remove_def)
    with True ok held k unlink_published [OF assms] show ?thesis unfolding keys by auto
  next
    case False
    have "key_table ?s = key_table_remove (mq_key q) p (key_table s)" by (simp add: msg_unlink_def)
    with mq_index.index_del_ok [OF ok False k] mq_index.index_del_held [OF ok False k] held unlink_published [OF assms]
    show ?thesis unfolding keys by auto
  qed
  have "\<exists>r. queues ?s p' = Some r \<and> mq_id r = int j + 1 \<and> queue_ok r" if "j < 256" "id_table ?s ! j = Some p'" for j p'
  proof -
    have "id_table s ! j = Some p'" using that by (auto simp: msg_unlink_def nth_list_update split: if_splits)
      (metis nth_list_update_eq nth_list_update_neq list_update_beyond not_less option.distinct(1))
    from id_slot [OF assms(1) that(1) this] show ?thesis unfolding heap by blast
  qed
  with tab assms(1) show ?thesis unfolding mq_ok_def [of ?s] by (simp add: mq_ok_def msg_unlink_def)
qed

lemma free_ok:
  assumes "mq_ok s" and "p \<notin> published s"
  shows "mq_ok (mq_free p s)"
proof -
  have keys: "queue_key (mq_free p s) = (queue_key s)(p := None)" by (auto simp: queue_key_def mq_free_def)
  have ok: "table_ok (queue_key s) (key_table s)" and held: "table_held (key_table s) = {p \<in> published s. queue_key s p \<noteq> Some IPC_PRIVATE}"
    using assms(1) by (simp_all add: mq_ok_def)
  have "table_ok (queue_key (mq_free p s)) (key_table s)"
    using assms(2) held unfolding keys by (intro mq_index.index_cong [OF ok]) auto
  moreover have "table_held (key_table s) = {r \<in> published s. queue_key (mq_free p s) r \<noteq> Some IPC_PRIVATE}"
    using held assms(2) unfolding keys by auto
  moreover have "\<exists>r. queues (mq_free p s) p' = Some r \<and> mq_id r = int j + 1 \<and> queue_ok r"
    if "j < 256" "id_table s ! j = Some p'" for j p'
    using id_slot [OF assms(1) that] assms(2) by (auto simp: mq_free_def)
  ultimately show ?thesis
    using assms(1) unfolding mq_ok_def [of "mq_free p s"] by (simp add: mq_ok_def mq_free_def published_def)
qed

text \<open>One iteration of the clean-up loop is an unlinking, or nothing.\<close>

lemma cleanup_step:
  assumes "mq_ok s" and "i < 256" and "id_table s ! i = Some p" and "queues s p = Some q"
  shows "s\<lparr>id_table := (id_table s)[i := None], key_table := key_table_remove (mq_key q) p (key_table s)\<rparr> = msg_unlink p q s"
proof -
  have "mq_id q = int i + 1" using id_slot [OF assms(1-3)] assms(4) by (metis option.inject)
  then show ?thesis by (simp add: msg_unlink_def)
qed

lemma cleanup_ok:
  assumes "mq_ok s" and "set slots \<subseteq> {..<256}"
  shows "mq_ok (snd (cleanup_scan pid slots work s))"
  using assms
proof (induction pid slots work s rule: cleanup_scan.induct)
  case (2 pid i slots work s)
  show ?case
  proof (cases "id_table s ! i")
    case None
    with 2 show ?thesis by simp
  next
    case (Some p)
    have i: "i < 256" using "2.prems" by simp
    from id_slot [OF "2.prems"(1) i Some] obtain q where q: "queues s p = Some q" "p \<in> published s" by blast
    show ?thesis
    proof (cases "owner_pid q = pid")
      case True
      have "mq_ok (msg_unlink p q s)" using unlink_ok "2.prems"(1) q by blast
      with Some True q "2.IH"(3) [OF Some refl] "2.prems" cleanup_step [OF "2.prems"(1) i Some q(1)]
      show ?thesis by (simp add: Let_def)
    next
      case False
      with Some q "2.IH"(2) [OF Some refl] "2.prems" show ?thesis by (simp add: Let_def)
    qed
  qed
qed simp

section \<open>All interleavings\<close>

text \<open>
  \<open>mq_step\<close> is one critical section of some processor. A publication uses whatever
  identifier was reserved earlier and a pointer the allocator has just returned, and a
  queue is freed at any time after it was unlinked.
\<close>

inductive mq_step :: "mq_state \<Rightarrow> mq_state \<Rightarrow> bool" where
  reserve: "mq_step s (snd (msgget_reserve k flags s))"
| publish: "queues s q = None \<Longrightarrow> 1 \<le> i \<Longrightarrow> i \<le> 256 \<Longrightarrow> mq_step s (snd (msgget_publish q i k flags current ticks s))"
| enqueue: "message_ok m \<Longrightarrow> mq_step s (snd (msg_enqueue m j current ticks s))"
| dequeue: "mq_step s (snd (msg_dequeue cap j msgsz t flags current ticks s))"
| unlink: "msg_find_by_id j s = Some p \<Longrightarrow> queues s p = Some q \<Longrightarrow> mq_step s (msg_unlink p q s)"
| free: "p \<notin> published s \<Longrightarrow> mq_step s (mq_free p s)"
| cleanup: "mq_step s (snd (cleanup_scan pid [0..<MQ_TABLE_SIZE] [] s))"

inductive mq_reach :: "mq_state \<Rightarrow> bool" where
  init: "mq_reach msg_init"
| step: "mq_reach s \<Longrightarrow> mq_step s s' \<Longrightarrow> mq_reach s'"

inductive_cases mq_stepE: "mq_step s s'"

lemma init_ok: "mq_ok msg_init"
proof -
  have "published msg_init = {}" by (auto simp: published_def msg_init_def)
  moreover have "key_table msg_init = replicate MQ_HASH_SIZE MQ_HASH_EMPTY" by (simp add: msg_init_def)
  ultimately show ?thesis
    by (simp add: mq_ok_def empty_table_ok empty_table_held) (simp add: msg_init_def MQ_TABLE_SIZE_def)
qed

lemma step_ok: "mq_step s s' \<Longrightarrow> mq_ok s \<Longrightarrow> mq_ok s'"
proof (induction rule: mq_step.induct)
  case (unlink j s p q)
  then show ?case by (metis find_by_id unlink_ok)
next
  case (cleanup s pid)
  then show ?case by (intro cleanup_ok) (auto simp: MQ_TABLE_SIZE_def)
qed (simp_all add: reserve_ok publish_ok enqueue_ok dequeue_ok free_ok)

lemma reach_ok: "mq_reach s \<Longrightarrow> mq_ok s"
  by (induction rule: mq_reach.induct) (simp_all add: init_ok step_ok)

end
