(* ===== verification/Msg_Refine.thy ===== *)
theory Msg_Refine
  imports Msg_Invariant
begin

unbundle bit_operations_syntax

text \<open>
  What the message queues promise, and that the tables, chains and counters of
  \<open>Msg_Queue\<close> implement it. The specification is a map from identifiers to queues, a queue
  being its attributes and the list of its messages, together with the identifier at which
  the next search starts; it has neither pointers nor hash table nor counters of messages.
  \<open>view\<close> and \<open>view_all\<close> read the specification's state off the kernel's. A receive removes its
  message whatever the flags: like the code, the specification knows no \<^verbatim>\<open>MSG_COPY\<close>.
\<close>

section \<open>The specification\<close>

record vqueue =
  v_key :: u32
  v_uid :: u32
  v_gid :: u32
  v_mode :: u32
  v_owner :: u32
  v_msgs :: "(u64 \<times> u8 list) list"

type_synonym vstate = "int \<Rightarrow> vqueue option"

text \<open>Mode bits 5 and 4 are read and write for the group, 2 and 1 for everybody else.\<close>

definition v_allows :: "vqueue \<Rightarrow> ipc_proc \<Rightarrow> bool \<Rightarrow> bool" where
  "v_allows q current write \<longleftrightarrow> ip_uid current = 0 \<or> ip_uid current = v_uid q \<or>
     bit (v_mode q) (if ip_gid current = v_gid q then (if write then 4 else 5) else (if write then 1 else 2))"

definition v_bytes :: "(u64 \<times> u8 list) list \<Rightarrow> nat" where
  "v_bytes ms = sum_list (map (length \<circ> snd) ms)"

definition v_send :: "u64 \<Rightarrow> u8 list \<Rightarrow> int \<Rightarrow> ipc_proc \<Rightarrow> vstate \<Rightarrow> int \<times> vstate" where
  "v_send t text i current V =
     (case V i of None \<Rightarrow> (IPC_EINVAL, V)
      | Some q \<Rightarrow>
          if \<not> v_allows q current True then (IPC_EACCES, V)
          else if length (v_msgs q) = 100 \<or> 16384 < v_bytes (v_msgs q) + length text then (IPC_EAGAIN, V)
          else (IPC_SUCCESS, V(i \<mapsto> q\<lparr>v_msgs := v_msgs q @ [(t, text)]\<rparr>)))"

definition v_wants :: "int \<Rightarrow> u64 \<times> u8 list \<Rightarrow> bool" where
  "v_wants t m \<longleftrightarrow> t = 0 \<or> (0 < t \<and> sint (fst m) = t) \<or> (t < 0 \<and> sint (fst m) \<le> - t)"

definition v_receive :: "int \<Rightarrow> nat \<Rightarrow> int \<Rightarrow> bool \<Rightarrow> ipc_proc \<Rightarrow> vstate \<Rightarrow> dequeue_result \<times> vstate" where
  "v_receive i limit t noerror current V =
     (case V i of None \<Rightarrow> (Dq_Error IPC_EINVAL, V)
      | Some q \<Rightarrow>
          if \<not> v_allows q current False then (Dq_Error IPC_EACCES, V)
          else case find (v_wants t) (v_msgs q) of
                 None \<Rightarrow> (Dq_Error IPC_ENOMSG, V)
               | Some m \<Rightarrow>
                   if limit < length (snd m) \<and> \<not> noerror then (Dq_Error IPC_E2BIG, V)
                   else (Dq_Message (fst m) (take limit (snd m)),
                         V(i \<mapsto> q\<lparr>v_msgs := remove1 m (v_msgs q)\<rparr>)))"

text \<open>The queue of a key, sought among all identifiers.\<close>

definition v_lookup :: "u32 \<Rightarrow> vstate \<Rightarrow> int option" where
  "v_lookup k V = (if k = IPC_PRIVATE then None else find (\<lambda>i. map_option v_key (V i) = Some k) [1..256])"

definition v_new :: "u32 \<Rightarrow> u32 \<Rightarrow> ipc_proc \<Rightarrow> vqueue" where
  "v_new k flags current = \<lparr>v_key = k, v_uid = ip_uid current, v_gid = ip_gid current,
     v_mode = flags AND 0x1FF, v_owner = ip_pid current, v_msgs = []\<rparr>"

definition v_create :: "int \<Rightarrow> u32 \<Rightarrow> u32 \<Rightarrow> ipc_proc \<Rightarrow> vstate \<Rightarrow> int \<times> vstate" where
  "v_create i k flags current V =
     (if V i \<noteq> None then (IPC_ENOMEM, V)
      else case v_lookup k V of
             Some j \<Rightarrow> (if flags AND IPC_EXCL \<noteq> 0 then IPC_EEXIST else j, V)
           | None \<Rightarrow> (i, V(i \<mapsto> v_new k flags current)))"

text \<open>
  The first section of \<^verbatim>\<open>msgget\<close>: the queue that has the key, an error, or the first unused
  identifier, counted from \<open>c\<close> and around, at which the next search starts as well.
\<close>

definition v_reserve :: "u32 \<Rightarrow> u32 \<Rightarrow> vstate \<Rightarrow> nat \<Rightarrow> (int + nat) \<times> nat" where
  "v_reserve k flags V c =
     (case v_lookup k V of
        Some j \<Rightarrow> (Inl (if flags AND IPC_EXCL \<noteq> 0 then IPC_EEXIST else j), c)
      | None \<Rightarrow>
          if k \<noteq> IPC_PRIVATE \<and> flags AND IPC_CREAT = 0 then (Inl IPC_ENOENT, c)
          else case find (\<lambda>i. V (int i) = None) ([c..<257] @ [1..<c]) of
                 None \<Rightarrow> (Inl IPC_ENOMEM, c)
               | Some i \<Rightarrow> (Inr i, i))"

definition v_control :: "int \<Rightarrow> u32 \<Rightarrow> ipc_proc \<Rightarrow> vstate \<Rightarrow> int \<times> vstate" where
  "v_control i command current V =
     (case V i of None \<Rightarrow> (IPC_EINVAL, V)
      | Some q \<Rightarrow>
          if command = IPC_RMID then
            (if ip_uid current \<noteq> 0 \<and> ip_uid current \<noteq> v_uid q then (IPC_EACCES, V) else (IPC_SUCCESS, V(i := None)))
          else if command = IPC_STAT \<or> command = IPC_SET then (IPC_SUCCESS, V) else (IPC_EINVAL, V))"

definition v_exit :: "u32 \<Rightarrow> vstate \<Rightarrow> vstate" where
  "v_exit pid V = (\<lambda>i. case V i of None \<Rightarrow> None | Some q \<Rightarrow> if v_owner q = pid then None else Some q)"

section \<open>The view of a state\<close>

definition vmsg :: "msg_message \<Rightarrow> u64 \<times> u8 list" where
  "vmsg m = (mtype m, mtext m)"

definition vqueue_of :: "msg_queue \<Rightarrow> vqueue" where
  "vqueue_of q = \<lparr>v_key = mq_key q, v_uid = creator_uid q, v_gid = creator_gid q, v_mode = mq_mode q,
     v_owner = owner_pid q, v_msgs = map vmsg (mq_msgs q)\<rparr>"

definition view :: "mq_state \<Rightarrow> vstate" where
  "view s i = (case msg_find_by_id i s of None \<Rightarrow> None | Some p \<Rightarrow> map_option vqueue_of (queues s p))"

definition view_all :: "mq_state \<Rightarrow> vstate \<times> nat" where
  "view_all s = (view s, next_msg_id s)"

lemma vqueue_of_sel [simp]:
  "v_key (vqueue_of q) = mq_key q" "v_uid (vqueue_of q) = creator_uid q" "v_gid (vqueue_of q) = creator_gid q"
  "v_mode (vqueue_of q) = mq_mode q" "v_owner (vqueue_of q) = owner_pid q" "v_msgs (vqueue_of q) = map vmsg (mq_msgs q)"
  by (simp_all add: vqueue_of_def)

lemma view_None: "mq_ok s \<Longrightarrow> view s i = None \<longleftrightarrow> msg_find_by_id i s = None"
  by (auto simp: view_def split: option.splits elim: find_by_id)

lemma view_Some: "msg_find_by_id i s = Some p \<Longrightarrow> queues s p = Some q \<Longrightarrow> view s i = Some (vqueue_of q)"
  by (simp add: view_def)

lemma view_SomeE:
  assumes "mq_ok s" and "view s i = Some v"
  obtains p q where "msg_find_by_id i s = Some p" "queues s p = Some q" "v = vqueue_of q" "mq_id q = i" "p \<in> published s"
    "queue_ok q" "1 \<le> i" "i \<le> 256"
  using assms by (auto simp: view_def split: option.splits elim!: find_by_id)

text \<open>A queue is found under its own identifier only.\<close>

lemma find_by_id_inj:
  assumes "mq_ok s" and "msg_find_by_id i s = Some p" and "msg_find_by_id j s = Some p"
  shows "i = j"
  using find_by_id [OF assms(1,2)] find_by_id [OF assms(1,3)] by (metis option.inject)

lemma view_update:
  assumes "mq_ok s" and "msg_find_by_id i s = Some p"
  shows "view (s\<lparr>queues := (queues s)(p \<mapsto> q)\<rparr>) = (view s)(i \<mapsto> vqueue_of q)"
proof
  fix j
  show "view (s\<lparr>queues := (queues s)(p \<mapsto> q)\<rparr>) j = ((view s)(i \<mapsto> vqueue_of q)) j"
    using find_by_id_inj [OF assms, of j] assms(2)
    by (cases "j = i") (auto simp: view_def msg_find_by_id_def split: option.splits if_splits)
qed

lemma published_iff: "mq_ok s \<Longrightarrow> p \<in> published s \<longleftrightarrow> (\<exists>i. msg_find_by_id i s = Some p)"
proof
  assume "mq_ok s" "p \<in> published s"
  then obtain i where "i < 256" "id_table s ! i = Some p" by (auto elim: publishedE)
  then have "msg_find_by_id (int i + 1) s = Some p" by (simp add: msg_find_by_id_def MQ_TABLE_SIZE_def)
  then show "\<exists>i. msg_find_by_id i s = Some p" ..
qed (auto elim: find_by_id)

section \<open>Permissions and messages\<close>

lemma and_drop_bit_single:
  "x AND drop_bit 3 IPC_W \<noteq> 0 \<longleftrightarrow> bit x 4" "x AND drop_bit 3 IPC_R \<noteq> 0 \<longleftrightarrow> bit x 5"
  "x AND drop_bit 6 IPC_W \<noteq> 0 \<longleftrightarrow> bit x 1" "x AND drop_bit 6 IPC_R \<noteq> 0 \<longleftrightarrow> bit x 2"
proof -
  have "drop_bit 3 IPC_W = 2 ^ 4" "drop_bit 3 IPC_R = 2 ^ 5" "drop_bit 6 IPC_W = 2 ^ 1" "drop_bit 6 IPC_R = 2 ^ 2"
    by (simp_all add: IPC_W_def IPC_R_def)
  then show "x AND drop_bit 3 IPC_W \<noteq> 0 \<longleftrightarrow> bit x 4" "x AND drop_bit 3 IPC_R \<noteq> 0 \<longleftrightarrow> bit x 5"
    "x AND drop_bit 6 IPC_W \<noteq> 0 \<longleftrightarrow> bit x 1" "x AND drop_bit 6 IPC_R \<noteq> 0 \<longleftrightarrow> bit x 2"
    by (simp_all only: and_exp_eq_0_iff_not_bit not_not)
qed

lemma permission_view:
  "msg_check_permission q (ip_uid c) (ip_gid c) write \<longleftrightarrow> v_allows (vqueue_of q) c write"
  by (simp add: msg_check_permission_def v_allows_def and_drop_bit_single)

lemma v_bytes_view: "v_bytes (map vmsg ms) = queued_bytes ms"
  by (induction ms) (simp_all add: v_bytes_def queued_bytes_def vmsg_def)

lemma sint_uminus:
  fixes t :: u64
  assumes "t \<noteq> 0x8000000000000000"
  shows "sint (- t) = - sint t"
proof -
  have "- (2 ^ 63) \<le> sint t" "sint t < 2 ^ 63" using sint_range_size [of t] by (simp_all add: word_size)
  moreover have "sint t \<noteq> - (2 ^ 63)"
  proof
    assume *: "sint t = - (2 ^ 63)"
    have "t = word_of_int (sint t)" by simp
    also have "\<dots> = 0x8000000000000000" unfolding * by simp
    finally show False using assms by simp
  qed
  ultimately show ?thesis by (simp add: sint_word_ariths signed_take_bit_int_eq_self_iff)
qed

lemma match_view:
  assumes "t \<noteq> 0x8000000000000000"
  shows "msg_match t m \<longleftrightarrow> v_wants (sint t) (vmsg m)"
proof -
  have "mtype m = t \<longleftrightarrow> sint (mtype m) = sint t" by (auto intro: signed_word_eqI)
  moreover have "t = 0 \<longleftrightarrow> sint t = 0" using signed_word_eqI [of t 0] by auto
  ultimately show ?thesis
    using sint_uminus [OF assms] by (auto simp: msg_match_def v_wants_def vmsg_def)
qed

lemma split_match_find:
  "split_match P ms = Some (prev, m, rest) \<Longrightarrow> find P ms = Some m \<and> remove1 (vmsg m) (map vmsg ms) = map vmsg (prev @ rest)"
  if "\<And>m m'. vmsg m = vmsg m' \<Longrightarrow> P m = P m'"
proof -
  assume "split_match P ms = Some (prev, m, rest)"
  then have *: "ms = prev @ m # rest" "P m" "\<forall>x \<in> set prev. \<not> P x" using split_match_Some by blast+
  then have "vmsg m \<notin> vmsg ` set prev" using that by blast
  moreover have "find P ms = Some m" using * by (induction prev arbitrary: ms) auto
  ultimately show ?thesis using *(1) by (simp add: remove1_append)
qed

lemma find_map_vmsg: "find Q (map vmsg ms) = map_option vmsg (find (Q \<circ> vmsg) ms)"
  by (induction ms) simp_all

section \<open>Each section refines its specification\<close>

lemma enqueue_view:
  assumes ok: "mq_ok s" and m: "message_ok m"
  shows "map_prod id view (msg_enqueue m i current ticks s) = v_send (mtype m) (mtext m) i current (view s)"
proof (cases "msg_find_by_id i s")
  case None
  with ok show ?thesis by (simp add: msg_enqueue_def v_send_def view_None [THEN iffD2])
next
  case (Some p)
  obtain q where q: "queues s p = Some q" "queue_ok q" by (rule find_by_id [OF ok Some])
  have v: "view s i = Some (vqueue_of q)" using Some q(1) by (rule view_Some)
  have new: "vqueue_of (q\<lparr>mq_msgs := mq_msgs q @ [m], msg_count := c, total_bytes := b, send_time := ticks\<rparr>) =
      (vqueue_of q)\<lparr>v_msgs := map vmsg (mq_msgs q) @ [(mtype m, mtext m)]\<rparr>" for c b
    by (simp add: vqueue_of_def vmsg_def)
  show ?thesis
    using enqueue_room [OF q(2) m] q(1) v Some view_update [OF ok Some]
    by (simp add: msg_enqueue_def v_send_def Let_def permission_view v_bytes_view new)
qed

lemma dequeue_view:
  assumes ok: "mq_ok s" and t: "t \<noteq> 0x8000000000000000" and room: "min 8192 (unat msgsz) \<le> cap"
  shows "map_prod id view (msg_dequeue cap i msgsz t flags current ticks s) =
    v_receive i (unat msgsz) (sint t) (flags AND MSG_NOERROR \<noteq> 0) current (view s)"
proof (cases "msg_find_by_id i s")
  case None
  with ok show ?thesis by (simp add: msg_dequeue_def v_receive_def view_None [THEN iffD2])
next
  case (Some p)
  obtain q where q: "queues s p = Some q" "queue_ok q" by (rule find_by_id [OF ok Some])
  have v: "view s i = Some (vqueue_of q)" using Some q(1) by (rule view_Some)
  have match: "msg_match t = v_wants (sint t) \<circ> vmsg" using match_view [OF t] by (simp add: fun_eq_iff)
  have found: "find (v_wants (sint t)) (v_msgs (vqueue_of q)) = map_option vmsg (find (msg_match t) (mq_msgs q))"
    by (simp add: find_map_vmsg match)
  show ?thesis
  proof (cases "split_match (msg_match t) (mq_msgs q)")
    case None
    then have "find (msg_match t) (mq_msgs q) = None" by (simp add: split_match_None find_None_iff)
    with None Some q(1) v found show ?thesis by (simp add: msg_dequeue_def v_receive_def permission_view)
  next
    case split: (Some r)
    obtain prev m rest where r: "r = (prev, m, rest)" by (cases r)
    have fm: "find (msg_match t) (mq_msgs q) = Some m" and rm: "remove1 (vmsg m) (map vmsg (mq_msgs q)) = map vmsg (prev @ rest)"
      using split_match_find [of "msg_match t" "mq_msgs q" prev m rest] split r by (simp_all add: match)
    have "m \<in> set (mq_msgs q)" using split_match_Some [OF split [unfolded r]] by simp
    then have m: "message_ok m" using q(2) by (simp add: queue_ok_def)
    then have sz: "unat (msize m) = length (mtext m)" "length (mtext m) \<le> 8192"
      by (simp_all add: message_ok_def unsigned_of_nat take_bit_eq_mod)
    have big: "msgsz < msize m \<longleftrightarrow> unat msgsz < length (mtext m)" by (simp add: word_less_nat_alt sz)
    have copied: "unat (min (msize m) msgsz) = min (length (mtext m)) (unat msgsz)"
      using big sz by (simp add: min_def word_le_nat_alt)
    have "\<not> (cap < length (mtext m) \<and> cap < unat msgsz)" using sz(2) room by linarith
    moreover have "vqueue_of (q\<lparr>mq_msgs := prev @ rest, msg_count := c, total_bytes := b, recv_time := ticks\<rparr>) =
      (vqueue_of q)\<lparr>v_msgs := remove1 (vmsg m) (v_msgs (vqueue_of q))\<rparr>" for c b
      using rm by (simp add: vqueue_of_def)
    moreover have "take (min (length (mtext m)) n) (mtext m) = take n (mtext m)" for n by (simp add: min_def)
    ultimately show ?thesis
      using Some q(1) v found fm split r view_update [OF ok Some] big copied
      by (auto simp: msg_dequeue_def v_receive_def permission_view Let_def vmsg_def)
  qed
qed

text \<open>The probing of the key table finds what a search through all identifiers finds.\<close>

lemma lookup_view:
  assumes "mq_ok s"
  shows "v_lookup k (view s) = map_option (\<lambda>p. mq_id (the (queues s p))) (msg_find_by_key k s)"
proof (cases "msg_find_by_key k s")
  case None
  have "map_option v_key (view s i) \<noteq> Some k" if "k \<noteq> IPC_PRIVATE" for i
  proof
    assume "map_option v_key (view s i) = Some k"
    then obtain v where "view s i = Some v" "v_key v = k" by auto
    from this(1) obtain p q where "queues s p = Some q" "v = vqueue_of q" "p \<in> published s" by (rule view_SomeE [OF assms])
    with \<open>v_key v = k\<close> that find_by_key_iff [OF assms, of k p] None show False by (simp add: queue_key_def)
  qed
  then show ?thesis using None by (simp add: v_lookup_def find_None_iff)
next
  case (Some p)
  then have p: "k \<noteq> IPC_PRIVATE" "p \<in> published s" "queue_key s p = Some k" by (simp_all add: find_by_key_iff [OF assms])
  obtain i where i: "msg_find_by_id i s = Some p" using p(2) published_iff [OF assms] by blast
  obtain q where q: "queues s p = Some q" "mq_id q = i" "1 \<le> i" "i \<le> 256" by (rule find_by_id [OF assms i])
  have vi: "map_option v_key (view s i) = Some k" using view_Some [OF i q(1)] p(3) q(1) by (simp add: queue_key_def)
  have only: "j = i" if vj: "map_option v_key (view s j) = Some k" for j
  proof -
    obtain v where "view s j = Some v" "v_key v = k" using vj by auto
    from this(1) obtain p' q' where j: "msg_find_by_id j s = Some p'" "queues s p' = Some q'" "v = vqueue_of q'" "p' \<in> published s"
      by (rule view_SomeE [OF assms])
    then have "msg_find_by_key k s = Some p'"
      using p(1) \<open>v_key v = k\<close> by (simp add: find_by_key_iff [OF assms] queue_key_def)
    with Some find_by_id_inj [OF assms i] j(1) show ?thesis by simp
  qed
  have "find (\<lambda>j. map_option v_key (view s j) = Some k) [1..256] \<noteq> None"
    using vi q(3,4) by (auto simp: find_None_iff)
  then obtain j where j: "find (\<lambda>j. map_option v_key (view s j) = Some k) [1..256] = Some j" by blast
  then have "map_option v_key (view s j) = Some k" by (auto simp: find_Some_iff)
  then have "j = i" by (rule only)
  with j Some p(1) q show ?thesis by (simp add: v_lookup_def)
qed

lemma find_by_id_slot: "1 \<le> i \<Longrightarrow> i \<le> 256 \<Longrightarrow> msg_find_by_id (int i) s = id_table s ! (i - 1)"
  by (simp add: msg_find_by_id_def MQ_TABLE_SIZE_def)

lemma publish_view:
  assumes ok: "mq_ok s" and new: "queues s p = None" and i: "1 \<le> i" "i \<le> 256"
  shows "map_prod id view (msgget_publish p i k flags current ticks s) = v_create (int i) k flags current (view s)"
proof -
  let ?s = "s\<lparr>queues := (queues s)(p \<mapsto> new_queue i k flags current ticks), id_table := (id_table s)[i - 1 := Some p],
    key_table := key_table_insert k p (key_table s), next_msg_id := (if i + 1 > MQ_TABLE_SIZE then 1 else i + 1)\<rparr>"
  have len: "length (id_table s) = 256" using ok by (simp add: mq_ok_def)
  have "view ?s j = ((view s)(int i \<mapsto> v_new k flags current)) j" for j
  proof (cases "j = int i")
    case True
    have "msg_find_by_id j ?s = Some p" using True i len by (simp add: find_by_id_slot)
    with True show ?thesis by (simp add: view_def vqueue_of_def new_queue_def v_new_def)
  next
    case False
    then have "msg_find_by_id j ?s = msg_find_by_id j s"
      using i by (auto simp: msg_find_by_id_def nth_list_update)
    moreover have "msg_find_by_id j s \<noteq> Some p" using new find_by_id [OF ok] by fastforce
    ultimately show ?thesis using False by (auto simp: view_def split: option.splits)
  qed
  then have pub: "view ?s = (view s)(int i \<mapsto> v_new k flags current)" ..
  have slot: "view s (int i) = None \<longleftrightarrow> id_table s ! (i - 1) = None"
    using view_None [OF ok] find_by_id_slot [OF i] by simp
  have priv: "k = IPC_PRIVATE \<Longrightarrow> msg_find_by_key k s = None" by (simp add: msg_find_by_key_def)
  show ?thesis
    using slot pub priv lookup_view [OF ok, of k]
    by (auto simp: msgget_publish_def v_create_def Let_def split: option.splits)
qed

lemma view_cong: "queues s' = queues s \<Longrightarrow> id_table s' = id_table s \<Longrightarrow> view s' = view s"
  by (rule ext) (simp add: view_def msg_find_by_id_def split: option.split)

text \<open>The search for an identifier is that of the specification.\<close>

lemma mod_wrap: "a < n \<Longrightarrow> b < n \<Longrightarrow> (a + b) mod n = (if a + b < n then a + b else a + b - n)" for n :: nat
  by (auto simp: le_mod_geq)

lemma find_free_id_find:
  assumes "1 \<le> start" and "start \<le> 256" and "i = (start - 1 + k) mod 256 + 1" and "k + fuel = 256"
  shows "find_free_id fuel start table i =
    (case find (\<lambda>i. table ! (i - 1) = None) (map (\<lambda>m. (start - 1 + m) mod 256 + 1) [k..<256]) of
       None \<Rightarrow> Inl start | Some i \<Rightarrow> Inr i)"
  using assms(3,4)
proof (induction fuel arbitrary: i k)
  case 0
  then have k: "k = 256" by simp
  have "i = (start - 1) mod 256 + 1" unfolding 0(1) k by (simp only: mod_add_self2)
  also have "\<dots> = start" using assms(1,2) by simp
  finally show ?case using k by simp
next
  case (Suc fuel)
  let ?j = "if i + 1 > MQ_TABLE_SIZE then 1 else i + 1"
  have j: "?j = (start - 1 + (k + 1)) mod 256 + 1"
  proof -
    obtain r where r: "r = (start - 1 + k) mod 256" "r < 256" by simp
    have "i = r + 1" and "(start - 1 + (k + 1)) mod 256 = (if r = 255 then 0 else r + 1)"
      by (simp_all add: r(1) mod_Suc Suc.prems(1))
    with r(2) show ?thesis by (simp only: MQ_TABLE_SIZE_def) simp
  qed
  have k: "k < 256" and upt: "[k..<256] = k # [k + 1..<256]" using Suc.prems(2) by (simp_all add: upt_rec)
  have last: "k + 1 = 256" if "?j = start"
    using that j k assms(1,2) mod_wrap [of "start - 1" 256 "k + 1"] by (cases "k + 1 = 256") (auto split: if_splits)
  have IH: "find_free_id fuel start table ?j =
    (case find (\<lambda>i. table ! (i - 1) = None) (map (\<lambda>m. (start - 1 + m) mod 256 + 1) [k + 1..<256]) of
       None \<Rightarrow> Inl start | Some i \<Rightarrow> Inr i)"
    using Suc.prems(2) by (intro Suc.IH [OF j]) simp
  have first: "find (\<lambda>i. table ! (i - 1) = None) (map (\<lambda>m. (start - 1 + m) mod 256 + 1) [k..<256]) =
      (if table ! (i - 1) = None then Some i
       else find (\<lambda>i. table ! (i - 1) = None) (map (\<lambda>m. (start - 1 + m) mod 256 + 1) [k + 1..<256]))"
    unfolding upt Suc.prems(1) by simp
  have run: "find_free_id (Suc fuel) start table i =
      (if table ! (i - 1) = None then Inr i else if ?j = start then Inl ?j else find_free_id fuel start table ?j)"
    by (simp only: find_free_id.simps Let_def)
  have rest: "[k + 1..<256] = []" if "?j = start" using last [OF that] by simp
  show ?case unfolding first run using IH rest
    by (cases "table ! (i - 1) = None"; cases "?j = start")
      (simp_all only: if_True if_False option.simps list.map find.simps simp_thms)
qed

lemma id_order:
  assumes "1 \<le> c" and "c \<le> 256"
  shows "map (\<lambda>m. (c - 1 + m) mod 256 + 1) [0..<256] = [c..<257] @ [1..<c]"
proof (rule nth_equalityI)
  show "length (map (\<lambda>m. (c - 1 + m) mod 256 + 1) [0..<256]) = length ([c..<257] @ [1..<c])" using assms by simp
  fix n assume "n < length (map (\<lambda>m. (c - 1 + m) mod 256 + 1) [0..<256])"
  then have n: "n < 256" by simp
  with assms mod_wrap [of "c - 1" 256 n] show "map (\<lambda>m. (c - 1 + m) mod 256 + 1) [0..<256] ! n = ([c..<257] @ [1..<c]) ! n"
    by (auto simp: nth_append simp del: upt_Suc)
qed

lemma find_cong_set: "(\<And>x. x \<in> set xs \<Longrightarrow> P x = Q x) \<Longrightarrow> find P xs = find Q xs"
  by (induction xs) simp_all

lemma reserve_exact:
  assumes ok: "mq_ok s"
  shows "map_prod id next_msg_id (msgget_reserve k flags s) = v_reserve k flags (view s) (next_msg_id s)"
proof -
  let ?c = "next_msg_id s"
  have c: "1 \<le> ?c" "?c \<le> 256" using ok by (simp_all add: mq_ok_def)
  have slot: "id_table s ! (i - 1) = None \<longleftrightarrow> view s (int i) = None" if "i \<in> set ([?c..<257] @ [1..<?c])" for i
    using that c view_None [OF ok, of "int i"] find_by_id_slot [of i s] by auto
  have "find_free_id 256 ?c (id_table s) ?c =
      (case find (\<lambda>i. view s (int i) = None) ([?c..<257] @ [1..<?c]) of None \<Rightarrow> Inl ?c | Some i \<Rightarrow> Inr i)"
  proof -
    have "find (\<lambda>i. id_table s ! (i - 1) = None) ([?c..<257] @ [1..<?c]) = find (\<lambda>i. view s (int i) = None) ([?c..<257] @ [1..<?c])"
      by (rule find_cong_set) (rule slot)
    moreover have "?c = (?c - 1 + 0) mod 256 + 1" using c by simp
    ultimately show ?thesis using find_free_id_find [OF c, of ?c 0 256] by (simp only: id_order [OF c] add_0)
  qed
  moreover have "\<not> 256 < ?c" using c by simp
  moreover have "k = IPC_PRIVATE \<Longrightarrow> msg_find_by_key k s = None" by (simp add: msg_find_by_key_def)
  ultimately show ?thesis
    using lookup_view [OF ok, of k]
    by (auto simp: msgget_reserve_def v_reserve_def MQ_TABLE_SIZE_def Let_def simp del: upt_Suc split: option.splits)
qed

lemma reserve_view: "mq_ok s \<Longrightarrow> view (snd (msgget_reserve k flags s)) = view s"
  using reserve_ok [of s k flags] by (intro view_cong) simp_all

lemma unlink_view:
  assumes "mq_ok s" and "msg_find_by_id i s = Some p" and "queues s p = Some q"
  shows "view (msg_unlink p q s) = (view s)(i := None)"
proof
  fix j
  have i: "mq_id q = i" "1 \<le> i" "i \<le> 256" using find_by_id [OF assms(1,2)] assms(3) by auto
  have len: "length (id_table s) = 256" using assms(1) by (simp add: mq_ok_def)
  have "msg_find_by_id j (msg_unlink p q s) = (if j = i then None else msg_find_by_id j s)"
    using i len by (auto simp: msg_find_by_id_def msg_unlink_def nth_list_update MQ_TABLE_SIZE_def)
  then show "view (msg_unlink p q s) j = ((view s)(i := None)) j"
    by (simp add: view_def msg_unlink_def split: option.splits)
qed

lemma free_view:
  assumes "mq_ok s" and "p \<notin> published s"
  shows "view (mq_free p s) = view s"
proof
  fix i
  have "msg_find_by_id i s \<noteq> Some p" using assms published_iff by blast
  then show "view (mq_free p s) i = view s i"
    by (auto simp: view_def mq_free_def msg_find_by_id_def split: option.splits if_splits)
qed

lemma control_view:
  assumes ok: "mq_ok s"
  shows "map_prod id view (sys_msgctl msqid cmd current s) = v_control (sint (ucast msqid :: u32)) (ucast cmd) current (view s)"
    and "mq_ok (snd (sys_msgctl msqid cmd current s))"
proof -
  let ?i = "sint (ucast msqid :: u32)"
  have "map_prod id view (sys_msgctl msqid cmd current s) = v_control ?i (ucast cmd) current (view s) \<and>
    mq_ok (snd (sys_msgctl msqid cmd current s))"
  proof (cases "msg_find_by_id ?i s")
    case None
    with ok show ?thesis by (simp add: sys_msgctl_def v_control_def view_None [THEN iffD2])
  next
    case (Some p)
    obtain q where q: "queues s p = Some q" "p \<in> published s" by (rule find_by_id [OF ok Some])
    note un = unlink_ok [OF ok q] unlink_published [OF ok q]
    have "view (mq_free p (msg_unlink p q s)) = (view s)(?i := None)" "mq_ok (mq_free p (msg_unlink p q s))"
      using un unlink_view [OF ok Some q(1)] by (simp_all add: free_view free_ok)
    with Some q view_Some [OF Some q(1)] ok show ?thesis
      by (auto simp: sys_msgctl_def v_control_def Let_def)
  qed
  then show "map_prod id view (sys_msgctl msqid cmd current s) = v_control ?i (ucast cmd) current (view s)"
    "mq_ok (snd (sys_msgctl msqid cmd current s))" by simp_all
qed

section \<open>Process exit\<close>

text \<open>The queues of a process in the order of the scan.\<close>

definition owned :: "u32 \<Rightarrow> nat list \<Rightarrow> mq_state \<Rightarrow> qptr list" where
  "owned pid slots s = concat (map (\<lambda>i. case id_table s ! i of None \<Rightarrow> []
     | Some p \<Rightarrow> if owner_pid (the (queues s p)) = pid then [p] else []) slots)"

lemma owned_simps [simp]:
  "owned pid [] s = []"
  "owned pid (i # slots) s = (case id_table s ! i of None \<Rightarrow> []
     | Some p \<Rightarrow> if owner_pid (the (queues s p)) = pid then [p] else []) @ owned pid slots s"
  by (simp_all add: owned_def)

lemma owned_unlink:
  assumes "mq_id q = int i + 1" and "i \<notin> set slots"
  shows "owned pid slots (msg_unlink p q s) = owned pid slots s"
  using assms(2) by (induction slots) (auto simp: msg_unlink_def assms(1) split: option.split)

lemma cleanup_scan_spec:
  assumes "mq_ok s" and "set slots \<subseteq> {..<256}" and "distinct slots"
  shows "view (snd (cleanup_scan pid slots work s)) =
      (\<lambda>i. if i \<in> (\<lambda>j. int j + 1) ` set slots then v_exit pid (view s) i else view s i) \<and>
    queues (snd (cleanup_scan pid slots work s)) = queues s \<and>
    fst (cleanup_scan pid slots work s) = work @ take (32 - length work) (owned pid slots s) \<and>
    published (snd (cleanup_scan pid slots work s)) = published s - set (owned pid slots s)"
  using assms
proof (induction slots arbitrary: work s)
  case (Cons i slots)
  have i: "i < 256" and rest: "set slots \<subseteq> {..<256}" "distinct slots" "i \<notin> set slots" using Cons.prems by simp_all
  have slot: "msg_find_by_id (int i + 1) s = id_table s ! i"
    using find_by_id_slot [of "i + 1" s] i by (simp add: add.commute)
  show ?case
  proof (cases "id_table s ! i")
    case None
    then have "v_exit pid (view s) (int i + 1) = view s (int i + 1)" using slot by (simp add: v_exit_def view_def)
    with None Cons.IH [OF Cons.prems(1) rest(1,2), of work] show ?thesis by (auto simp: fun_eq_iff)
  next
    case (Some p)
    obtain q where q: "queues s p = Some q" "mq_id q = int i + 1" "p \<in> published s" by (rule id_slot [OF Cons.prems(1) i Some])
    have vi: "view s (int i + 1) = Some (vqueue_of q)" using slot Some q(1) by (simp add: view_def)
    show ?thesis
    proof (cases "owner_pid q = pid")
      case False
      then have "v_exit pid (view s) (int i + 1) = view s (int i + 1)" using vi by (simp add: v_exit_def)
      with False Some q(1) Cons.IH [OF Cons.prems(1) rest(1,2), of work] show ?thesis by (auto simp: fun_eq_iff)
    next
      case True
      let ?s = "msg_unlink p q s" and ?w = "if length work < MSG_CLEANUP_MAX then work @ [p] else work"
      have run: "cleanup_scan pid (i # slots) work s = cleanup_scan pid slots ?w ?s"
        using True Some q(1) cleanup_step [OF Cons.prems(1) i Some q(1)] by (simp add: Let_def)
      have "view ?s = (view s)(int i + 1 := None)"
        using unlink_view [OF Cons.prems(1) _ q(1)] slot Some by simp
      then have v: "v_exit pid (view ?s) j = (if j = int i + 1 then None else v_exit pid (view s) j)"
        "view ?s j = (if j = int i + 1 then None else view s j)" for j by (simp_all add: v_exit_def)
      have gone: "v_exit pid (view s) (int i + 1) = None" using vi True by (simp add: v_exit_def)
      have w: "?w @ take (32 - length ?w) xs = work @ take (32 - length work) (p # xs)" for xs
        by (simp add: MSG_CLEANUP_MAX_def take_Cons') 
      have heap: "queues ?s = queues s" by (simp add: msg_unlink_def)
      have own: "owned pid slots ?s = owned pid slots s" by (rule owned_unlink [OF q(2) rest(3)])
      have pub: "published ?s = published s - {p}" by (rule unlink_published [OF Cons.prems(1) q(1,3)])
      have own': "owned pid (i # slots) s = p # owned pid slots s" using Some q(1) True by simp
      show ?thesis
        using Cons.IH [OF unlink_ok [OF Cons.prems(1) q(1,3)] rest(1,2), of ?w]
        unfolding run own own' heap w pub by (auto simp: fun_eq_iff v gone)
    qed
  qed
qed simp

lemma cleanup_view:
  assumes "mq_ok s"
  shows "view (snd (cleanup_scan pid [0..<MQ_TABLE_SIZE] [] s)) = v_exit pid (view s)"
proof -
  have "v_exit pid (view s) i = view s i" if "i \<notin> (\<lambda>j. int j + 1) ` {0..<256}" for i
  proof -
    have "\<not> (1 \<le> i \<and> i \<le> 256)" 
    proof
      assume "1 \<le> i \<and> i \<le> 256"
      then have "i = int (nat (i - 1)) + 1" "nat (i - 1) < 256" by linarith+
      with that show False by (metis atLeastLessThan_iff imageI le0)
    qed
    then have "view s i = None" by (auto simp: view_def msg_find_by_id_def MQ_TABLE_SIZE_def)
    then show ?thesis by (simp add: v_exit_def)
  qed
  moreover have "set [0..<256] \<subseteq> {..<256 :: nat}" by auto
  note cleanup_scan_spec [OF assms this distinct_upt, of pid "[]", THEN conjunct1]
  ultimately show ?thesis unfolding MQ_TABLE_SIZE_def by (auto simp: fun_eq_iff)
qed

end
