(* ===== verification/Msg_Properties.thy ===== *)
theory Msg_Properties
  imports Msg_Refine User_Copy_Properties
begin

unbundle bit_operations_syntax

text \<open>
  Correctness of the message queues: refinement of their specification over all
  interleavings, the outcome of \<^verbatim>\<open>msgget\<close>, messages from the memory of the sender to that of
  the receiver, and what the exit of a process leaves behind.
\<close>

section \<open>Refinement\<close>

text \<open>
  The critical sections as operations. \<open>Reserve\<close> and \<open>Create\<close> are the two sections of
  \<^verbatim>\<open>msgget\<close>, \<open>Free\<close> is a deferred \<^verbatim>\<open>kfree\<close>, \<open>Exit\<close> is the scan of \<^verbatim>\<open>msg_cleanup_process\<close>.
\<close>

datatype mq_call =
    Reserve u32 u32
  | Create qptr nat u32 u32 ipc_proc u64
  | Send msg_message int ipc_proc u64
  | Receive int u64 u64 u32 ipc_proc u64
  | Control u64 u64 ipc_proc
  | Free qptr
  | Exit u32

datatype mq_answer = Done | Answer int | Reserved nat | Delivered dequeue_result

fun mq_do :: "mq_call \<Rightarrow> mq_state \<Rightarrow> mq_answer \<times> mq_state" where
  "mq_do (Reserve k flags) s = map_prod (case_sum Answer Reserved) id (msgget_reserve k flags s)"
| "mq_do (Create p i k flags current ticks) s = map_prod Answer id (msgget_publish p i k flags current ticks s)"
| "mq_do (Send m i current ticks) s = map_prod Answer id (msg_enqueue m i current ticks s)"
| "mq_do (Receive i msgsz t flags current ticks) s =
     map_prod Delivered id
       (msg_dequeue (unat (if msgsz < MSGMAX then msgsz else MSGMAX)) i msgsz t flags current ticks s)"
| "mq_do (Control msqid cmd current) s = map_prod Answer id (sys_msgctl msqid cmd current s)"
| "mq_do (Free p) s = (Done, mq_free p s)"
| "mq_do (Exit pid) s = (Done, snd (cleanup_scan pid [0..<MQ_TABLE_SIZE] [] s))"

text \<open>
  What the callers guarantee: the allocator returns an unused pointer, the identifier was
  reserved, \<^verbatim>\<open>sys_msgsnd\<close> has checked size and type, the negation of the wanted type does not
  overflow, and only unlinked queues are freed.
\<close>

fun mq_pre :: "mq_call \<Rightarrow> mq_state \<Rightarrow> bool" where
  "mq_pre (Create p i k flags current ticks) s \<longleftrightarrow> queues s p = None \<and> 1 \<le> i \<and> i \<le> 256"
| "mq_pre (Send m i current ticks) s \<longleftrightarrow> message_ok m"
| "mq_pre (Receive i msgsz t flags current ticks) s \<longleftrightarrow> t \<noteq> 0x8000000000000000"
| "mq_pre (Free p) s \<longleftrightarrow> p \<notin> published s"
| "mq_pre _ s \<longleftrightarrow> True"

text \<open>The specification of each; only \<open>Reserve\<close> and \<open>Create\<close> look at the start of the search or move it.\<close>

definition on_queues :: "('r \<Rightarrow> mq_answer) \<Rightarrow> (vstate \<Rightarrow> 'r \<times> vstate) \<Rightarrow> vstate \<times> nat \<Rightarrow> mq_answer \<times> vstate \<times> nat" where
  "on_queues answer f = (\<lambda>(V, c). case f V of (r, V') \<Rightarrow> (answer r, V', c))"

fun mq_spec :: "mq_call \<Rightarrow> vstate \<times> nat \<Rightarrow> mq_answer \<times> vstate \<times> nat" where
  "mq_spec (Reserve k flags) (V, c) = (case v_reserve k flags V c of (r, c') \<Rightarrow> (case_sum Answer Reserved r, V, c'))"
| "mq_spec (Create p i k flags current ticks) (V, c) =
     (case v_create (int i) k flags current V of (r, V') \<Rightarrow>
        (Answer r, V', if V (int i) = None \<and> v_lookup k V = None then (if i = 256 then 1 else i + 1) else c))"
| "mq_spec (Send m i current ticks) V = on_queues Answer (v_send (mtype m) (mtext m) i current) V"
| "mq_spec (Receive i msgsz t flags current ticks) V =
     on_queues Delivered (v_receive i (unat msgsz) (sint t) (flags AND MSG_NOERROR \<noteq> 0) current) V"
| "mq_spec (Control msqid cmd current) V =
     on_queues Answer (v_control (sint (ucast msqid :: u32)) (ucast cmd) current) V"
| "mq_spec (Free p) V = (Done, V)"
| "mq_spec (Exit pid) (V, c) = (Done, v_exit pid V, c)"

lemma view_init: "view msg_init = (\<lambda>_. None)"
  by (auto simp: view_def msg_init_def msg_find_by_id_def fun_eq_iff)

lemma view_all_init: "view_all msg_init = ((\<lambda>_. None), 1)"
  by (simp add: view_all_def view_init) (simp add: msg_init_def)

lemma receive_room: "min 8192 (unat msgsz) \<le> unat (if msgsz < MSGMAX then msgsz else MSGMAX)"
  by (simp add: MSGMAX_def)

text \<open>A section that leaves the start of the search alone is specified by its effect on the queues.\<close>

lemma on_queues_view:
  assumes "map_prod id view x = f (view s)" and "next_msg_id (snd x) = next_msg_id s"
  shows "map_prod id view_all (map_prod answer id x) = on_queues answer f (view_all s)"
  using assms by (cases x) (auto simp: view_all_def on_queues_def split: prod.splits)

lemma enqueue_next: "next_msg_id (snd (msg_enqueue m i current ticks s)) = next_msg_id s"
  by (simp add: msg_enqueue_def Let_def split: option.split)

lemma dequeue_next: "next_msg_id (snd (msg_dequeue cap i msgsz t flags current ticks s)) = next_msg_id s"
  by (simp add: msg_dequeue_def Let_def split: option.split)

lemma control_next: "next_msg_id (snd (sys_msgctl msqid cmd current s)) = next_msg_id s"
  by (simp add: sys_msgctl_def mq_free_def msg_unlink_def Let_def split: option.split)

lemma cleanup_next: "next_msg_id (snd (cleanup_scan pid slots ps s)) = next_msg_id s"
  by (induction slots arbitrary: ps s) (simp_all add: Let_def split: option.split)

lemma publish_view_all:
  assumes ok: "mq_ok s" and "queues s p = None" and i: "1 \<le> i" "i \<le> 256"
  shows "map_prod id view_all (mq_do (Create p i k flags current ticks) s) =
    mq_spec (Create p i k flags current ticks) (view_all s)"
proof -
  have "next_msg_id (snd (msgget_publish p i k flags current ticks s)) =
      (if view s (int i) = None \<and> v_lookup k (view s) = None then (if i = 256 then 1 else i + 1) else next_msg_id s)"
    using view_None [OF ok, of "int i"] find_by_id_slot [OF i] lookup_view [OF ok, of k] i(2)
    by (auto simp: msgget_publish_def msg_find_by_key_def MQ_TABLE_SIZE_def Let_def split: option.split)
  with publish_view [OF assms, of k flags current ticks] show ?thesis
    by (cases "msgget_publish p i k flags current ticks s") (auto simp: view_all_def split: prod.splits)
qed

lemma reserve_queues: "queues (snd (msgget_reserve k flags s)) = queues s"
  by (simp add: msgget_reserve_def Let_def split: sum.split option.split)

lemma reserve_view_all:
  assumes "mq_ok s"
  shows "map_prod id view_all (mq_do (Reserve k flags) s) = mq_spec (Reserve k flags) (view_all s)"
  using reserve_exact [OF assms, of k flags] reserve_view [OF assms, of k flags]
  by (cases "msgget_reserve k flags s") (auto simp: view_all_def split: prod.splits)

interpretation mq_sim: simulation mq_do mq_pre mq_ok view_all mq_spec
proof
  fix s :: mq_state and l :: mq_call
  assume ok: "mq_ok s" and pre: "mq_pre l s"
  show "mq_ok (snd (mq_do l s))"
  proof (cases l)
    case (Exit pid)
    have "set [0..<MQ_TABLE_SIZE] \<subseteq> {..<256}" by (auto simp: MQ_TABLE_SIZE_def)
    with Exit cleanup_ok [OF ok] show ?thesis by simp
  qed (use ok pre in \<open>simp_all add: reserve_ok publish_ok enqueue_ok dequeue_ok free_ok control_view(2)\<close>)
  show "map_prod id view_all (mq_do l s) = mq_spec l (view_all s)"
  proof (cases l)
    case (Send m i current ticks)
    with pre show ?thesis
      unfolding Send mq_do.simps mq_spec.simps by (intro on_queues_view enqueue_view [OF ok] enqueue_next) simp
  next
    case (Receive i msgsz t flags current ticks)
    with pre show ?thesis
      unfolding Receive mq_do.simps mq_spec.simps by (intro on_queues_view dequeue_view [OF ok _ receive_room] dequeue_next) simp
  next
    case (Control msqid cmd current)
    then show ?thesis
      unfolding Control mq_do.simps mq_spec.simps by (intro on_queues_view control_view(1) [OF ok] control_next)
  next
    case (Free p)
    with pre free_view [OF ok, of p] show ?thesis by (simp add: view_all_def) (simp add: mq_free_def)
  next
    case (Exit pid)
    with cleanup_view [OF ok, of pid] show ?thesis by (simp add: view_all_def cleanup_next)
  qed (use pre in \<open>simp_all only: mq_pre.simps reserve_view_all [OF ok] publish_view_all [OF ok]\<close>)
qed

text \<open>
  C36: the message queues refine their specification. For every sequence of critical
  sections by any callers in any order, started after \<^verbatim>\<open>msg_init\<close>, all results and the queues
  at the end are those of the specification, which has a map from identifiers to lists of
  messages and the start of the next search. The first section of a \<^verbatim>\<open>msgget\<close> answers the
  queue of the key, \<open>EEXIST\<close>, \<open>ENOENT\<close> or \<open>ENOMEM\<close>, or reserves the first unused identifier; a
  send appends or reports a full queue; a receive takes the first wanted message out,
  whatever its flags, so a \<^verbatim>\<open>MSG_COPY\<close>, documented as not removing it, removes it as well; a
  removal or an exit deletes exactly the named queues; no call touches another queue;
  lookups through the probed hash table never miss a queue or return a deleted one; and the
  bounce buffer of a receive never overflows.
\<close>

theorem mq_refines:
  assumes "ops_enabled mq_pre mq_do calls msg_init"
  shows "map_prod id view_all (run_ops mq_do calls msg_init) = run_ops mq_spec calls ((\<lambda>_. None), 1)"
  using mq_sim.run_refines [OF init_ok assms] by (simp only: view_all_init)

theorem mq_refines_witness:
  "fst (run_ops mq_do
     [Reserve 42 0, Reserve 42 0x3B0,
      Create 7 1 42 0x3B0 \<lparr>ip_pid = 9, ip_uid = 5, ip_gid = 6\<rparr> 0, Reserve 42 0, Reserve 42 0x600, Reserve 43 0x200,
      Send \<lparr>mtype = 3, msize = 2, mtext = [10, 11]\<rparr> 1 \<lparr>ip_pid = 9, ip_uid = 5, ip_gid = 6\<rparr> 0,
      Send \<lparr>mtype = 2, msize = 1, mtext = [12]\<rparr> 1 \<lparr>ip_pid = 10, ip_uid = 0, ip_gid = 0\<rparr> 0,
      Receive 1 64 2 0 \<lparr>ip_pid = 9, ip_uid = 5, ip_gid = 6\<rparr> 0,
      Receive 1 64 0 0 \<lparr>ip_pid = 11, ip_uid = 8, ip_gid = 8\<rparr> 0, Exit 9] msg_init) =
   [Answer IPC_ENOENT, Reserved 1, Answer 1, Answer 1, Answer IPC_EEXIST, Reserved 2, Answer 0, Answer 0,
    Delivered (Dq_Message 2 [12]), Delivered (Dq_Error IPC_EACCES), Done]"
  (is "fst (run_ops mq_do ?calls msg_init) = ?answers")
proof -
  have ids: "[1..256] = 1 # [2..256]" by (subst upto.simps) simp
  have none: "find (\<lambda>i. map_option v_key ([1 \<mapsto> q] i) = Some k) [1..256] = None" if "v_key q \<noteq> k" for k q
    using that by (auto simp: find_None_iff)
  have lookup: "v_lookup 42 (\<lambda>_. None) = None" "v_key q = 42 \<Longrightarrow> v_lookup 42 [1 \<mapsto> q] = Some 1"
      "v_key q = 42 \<Longrightarrow> v_lookup 43 [1 \<mapsto> q] = None" for q
    by (simp_all add: v_lookup_def IPC_PRIVATE_def find_None_iff ids none del: upto_rec_numeral)
  have from1: "[Suc 0..<257] = Suc 0 # [2..<257]" and from2: "[Suc (Suc 0)..<257] = Suc (Suc 0) # [3..<257]"
    by (simp_all add: upt_rec del: upt_Suc)
  have "ops_enabled mq_pre mq_do ?calls msg_init"
    by (simp add: message_ok_def reserve_queues msg_init_def del: mq_do.simps(2-))
  then have "fst (map_prod id view_all (run_ops mq_do ?calls msg_init)) = fst (run_ops mq_spec ?calls ((\<lambda>_. None), 1))"
    by (simp only: mq_refines)
  then have "fst (run_ops mq_do ?calls msg_init) = fst (run_ops mq_spec ?calls ((\<lambda>_. None), 1))" by simp
  also have "\<dots> = ?answers"
    by (simp add: v_reserve_def v_create_def lookup v_send_def v_receive_def v_allows_def v_new_def v_bytes_def v_wants_def
        on_queues_def from1 from2 IPC_SUCCESS_def IPC_PRIVATE_def IPC_CREAT_def IPC_EXCL_def Let_def del: upt_Suc upt_rec_numeral)
  finally show ?thesis .
qed

section \<open>Getting a queue\<close>

lemma dom_view: "mq_ok s \<Longrightarrow> dom (view s) \<subseteq> {1..256}"
  by (auto elim: view_SomeE)

lemma id_order_set: "1 \<le> c \<Longrightarrow> c \<le> 256 \<Longrightarrow> set ([c..<257] @ [1..<c]) = {1..256}"
  by (auto simp del: upt_Suc)

lemma all_taken:
  assumes "mq_ok s"
  shows "(\<forall>i \<in> {1..256 :: nat}. view s (int i) \<noteq> None) \<longleftrightarrow> dom (view s) = {1..256}"
proof -
  have "{1..256} \<subseteq> dom (view s)" if all: "\<forall>i \<in> {1..256 :: nat}. view s (int i) \<noteq> None"
  proof
    fix i :: int assume "i \<in> {1..256}"
    then have "i = int (nat i)" "nat i \<in> {1..256}" by auto
    with all show "i \<in> dom (view s)" by (metis domIff)
  qed
  moreover have "view s (int i) \<noteq> None" if "dom (view s) = {1..256}" "i \<in> {1..256 :: nat}" for i
  proof -
    have "int i \<in> dom (view s)" using that by simp
    then show ?thesis by (simp add: domIff)
  qed
  ultimately show ?thesis using dom_view [OF assms] by blast
qed

lemma reserve_result:
  assumes ok: "mq_ok s"
  shows "case fst (msgget_reserve k flags s) of
      Inr i \<Rightarrow> 1 \<le> i \<and> i \<le> 256 \<and> view s (int i) = None \<and> v_lookup k (view s) = None \<and>
        (k = IPC_PRIVATE \<or> flags AND IPC_CREAT \<noteq> 0) \<and> dom (view s) \<noteq> {1..256}
    | Inl r \<Rightarrow> (case v_lookup k (view s) of
        Some j \<Rightarrow> r = (if flags AND IPC_EXCL \<noteq> 0 then IPC_EEXIST else j)
      | None \<Rightarrow> if k \<noteq> IPC_PRIVATE \<and> flags AND IPC_CREAT = 0 then r = IPC_ENOENT
               else r = IPC_ENOMEM \<and> dom (view s) = {1..256})"
proof -
  let ?c = "next_msg_id s" and ?free = "\<lambda>i :: nat. view s (int i) = None"
  have c: "1 \<le> ?c" "?c \<le> 256" using ok by (simp_all add: mq_ok_def)
  have full: "dom (view s) = {1..256}" if "find ?free ([?c..<257] @ [1..<?c]) = None"
    unfolding all_taken [OF ok, symmetric] using that by (simp only: find_None_iff id_order_set [OF c]) auto
  have free: "1 \<le> i \<and> i \<le> 256 \<and> ?free i \<and> dom (view s) \<noteq> {1..256}" if "find ?free ([?c..<257] @ [1..<?c]) = Some i" for i
  proof -
    have "i \<in> set ([?c..<257] @ [1..<?c])" "?free i" using that by (auto simp: find_Some_iff in_set_conv_nth simp del: upt_Suc set_append)
    then have "i \<in> {1..256}" "?free i" by (simp_all only: id_order_set [OF c])
    with all_taken [OF ok] show ?thesis by (metis atLeastAtMost_iff)
  qed
  have priv: "k = IPC_PRIVATE \<Longrightarrow> v_lookup k (view s) = None" by (simp add: v_lookup_def)
  have "fst (msgget_reserve k flags s) = fst (v_reserve k flags (view s) ?c)"
    using reserve_exact [OF ok, of k flags] by (metis fst_map_prod id_apply)
  then show ?thesis
    using full free priv
    by (auto simp: v_reserve_def simp del: upt_Suc split: option.splits)
qed

text \<open>
  C37: \<^verbatim>\<open>msgget\<close> succeeds whenever it can. In every reachable state, for every key and flags,
  the call, if no other call comes between its two sections, returns the queue that has the key, or \<open>EEXIST\<close> or \<open>ENOENT\<close> as the flags demand;
  otherwise, unless memory or all 256 identifiers are exhausted, the search always ends on a
  free identifier and a new empty queue of the caller appears there, every other queue
  staying as it was.
\<close>

theorem msgget_progress:
  assumes "mq_reach s" and "\<And>p. alloc = Some p \<Longrightarrow> queues s p = None"
  shows "case sys_msgget alloc key msgflg current ticks s of (r, s') \<Rightarrow>
    (case v_lookup (ucast key) (view s) of
       Some i \<Rightarrow> r = (if ucast msgflg AND IPC_EXCL \<noteq> 0 then IPC_EEXIST else i) \<and> view s' = view s
     | None \<Rightarrow>
         if ucast key \<noteq> IPC_PRIVATE \<and> ucast msgflg AND IPC_CREAT = 0 then r = IPC_ENOENT \<and> view s' = view s
         else if alloc = None \<or> dom (view s) = {1..256} then r = IPC_ENOMEM \<and> view s' = view s
         else 1 \<le> r \<and> r \<le> 256 \<and> view s r = None \<and>
              view s' = (view s)(r \<mapsto> v_new (ucast key) (ucast msgflg) current))"
proof -
  have ok: "mq_ok s" using assms(1) by (rule reach_ok)
  let ?k = "ucast key :: u32" and ?f = "ucast msgflg :: u32"
  obtain x s1 where x: "msgget_reserve ?k ?f s = (x, s1)" by (cases "msgget_reserve ?k ?f s")
  have s1: "mq_ok s1" "queues s1 = queues s" "view s1 = view s"
    using reserve_ok [OF ok, of ?k ?f] reserve_view [OF ok, of ?k ?f] x by simp_all
  show ?thesis
  proof (cases x)
    case (Inl r)
    with reserve_result [OF ok, of ?k ?f] x s1(3) show ?thesis
      by (auto simp: sys_msgget_def Let_def split: option.splits if_splits)
  next
    case (Inr i)
    then have i: "1 \<le> i" "i \<le> 256" "view s (int i) = None" "v_lookup ?k (view s) = None"
        "?k = IPC_PRIVATE \<or> ?f AND IPC_CREAT \<noteq> 0" "dom (view s) \<noteq> {1..256}"
      using reserve_result [OF ok, of ?k ?f] x by simp_all
    show ?thesis
    proof (cases alloc)
      case None
      with Inr x s1 i show ?thesis by (auto simp: sys_msgget_def Let_def)
    next
      case (Some p)
      have "map_prod id view (msgget_publish p i ?k ?f current ticks s1) = (int i, (view s)(int i \<mapsto> v_new ?k ?f current))"
        using publish_view [OF s1(1) _ i(1,2), of p] assms(2) [OF Some] s1 i by (simp add: v_create_def)
      then obtain s2 where "msgget_publish p i ?k ?f current ticks s1 = (int i, s2)" "view s2 = (view s)(int i \<mapsto> v_new ?k ?f current)"
        by (cases "msgget_publish p i ?k ?f current ticks s1") simp
      with Some Inr x i show ?thesis by (auto simp: sys_msgget_def Let_def)
    qed
  qed
qed

theorem msgget_progress_witness:
  "case sys_msgget (Some 7) 0x2A 0x3B0 \<lparr>ip_pid = 9, ip_uid = 5, ip_gid = 6\<rparr> 0 msg_init of (r, s') \<Rightarrow>
    1 \<le> r \<and> r \<le> 256 \<and> view s' r = Some \<lparr>v_key = 0x2A, v_uid = 5, v_gid = 6, v_mode = 0x1B0, v_owner = 9, v_msgs = []\<rparr>"
proof -
  have "queues msg_init 7 = None" by (simp add: msg_init_def)
  moreover have "v_lookup 0x2A (\<lambda>_. None) = None" by (simp add: v_lookup_def find_None_iff)
  ultimately show ?thesis
    using msgget_progress [OF mq_reach.init, of "Some 7" "0x2A" "0x3B0" "\<lparr>ip_pid = 9, ip_uid = 5, ip_gid = 6\<rparr>" 0]
    by (auto simp: view_init IPC_PRIVATE_def IPC_CREAT_def v_new_def split: prod.splits)
qed

section \<open>From the memory of the sender to that of the receiver\<close>

text \<open>The type field survives its two conversions.\<close>

definition le_value :: "u8 list \<Rightarrow> nat" where
  "le_value bs = foldr (\<lambda>b n. unat b + 256 * n) bs 0"

lemma le_value_digit: "i < length bs \<Longrightarrow> le_value bs div 256 ^ i mod 256 = unat (bs ! i)"
proof (induction bs arbitrary: i)
  case (Cons b bs)
  have b: "unat b < 256" using unsigned_less [of b] by simp
  have "(unat b + 256 * n) div (256 * 256 ^ j) = n div 256 ^ j" for n j
    using b by (simp add: div_mult2_eq)
  with Cons b show ?case by (cases i) (simp_all add: le_value_def)
qed simp

lemma le_value_less: "le_value bs < 256 ^ length bs"
proof (induction bs)
  case (Cons b bs)
  have "unat b < 256" using unsigned_less [of b] by simp
  with Cons show ?case by (simp add: le_value_def)
qed (simp add: le_value_def)

lemma mtype_le_value:
  assumes "length bs = 8"
  shows "mtype_of_bytes bs = of_nat (le_value bs)"
proof -
  have "(\<Sum>i<length bs. push_bit (8 * i) (ucast (bs ! i) :: u64)) = of_nat (le_value bs)"
  proof (induction bs rule: rev_induct)
    case (snoc b bs)
    have "foldr (\<lambda>b n. unat b + 256 * n) bs m = foldr (\<lambda>b n. unat b + 256 * n) bs 0 + 256 ^ length bs * m" for m
      by (induction bs) (simp_all add: algebra_simps)
    from this [of "unat b"] have "le_value (bs @ [b]) = le_value bs + 256 ^ length bs * unat b" by (simp add: le_value_def)
    moreover have "push_bit (8 * length bs) (ucast b :: u64) = of_nat (256 ^ length bs * unat b)"
      by (simp add: push_bit_eq_mult power_mult)
    ultimately show ?case using snoc by (simp add: nth_append)
  qed (simp add: le_value_def)
  then show ?thesis using assms by (simp add: mtype_of_bytes_def)
qed

lemma bytes_of_mtype_inverse:
  assumes "length bs = 8"
  shows "bytes_of_mtype (mtype_of_bytes bs) = bs"
proof (rule nth_equalityI)
  show "length (bytes_of_mtype (mtype_of_bytes bs)) = length bs" using assms by (simp add: bytes_of_mtype_def)
  fix i assume "i < length (bytes_of_mtype (mtype_of_bytes bs))"
  then have i: "i < 8" by (simp add: bytes_of_mtype_def)
  have "le_value bs < 2 ^ 64" using le_value_less [of bs] assms by simp
  then have u: "unat (of_nat (le_value bs) :: u64) = le_value bs" by (simp add: unsigned_of_nat take_bit_eq_mod)
  have "unat (drop_bit (8 * i) (of_nat (le_value bs) :: u64)) = le_value bs div 2 ^ (8 * i)"
    by (simp only: unat_drop_bit_eq u drop_bit_eq_div [where ?'a = nat])
  then have "unat (ucast (drop_bit (8 * i) (of_nat (le_value bs) :: u64)) :: u8) = le_value bs div 2 ^ (8 * i) mod 256"
    by (simp add: unsigned_ucast_eq take_bit_eq_mod)
  also have "\<dots> = unat (bs ! i)" using le_value_digit [of i bs] i assms by (simp add: power_mult)
  finally show "bytes_of_mtype (mtype_of_bytes bs) ! i = bs ! i"
    using i by (simp add: bytes_of_mtype_def mtype_le_value [OF assms] unsigned_word_eqI)
qed

lemma copied_length: "copy_from_user mm src n = COPY_SUCCESS bytes \<Longrightarrow> length bytes = unat n"
  by (auto simp: copy_from_user_eq span_def split: if_splits)

lemma copy_from_user_append:
  assumes "copy_from_user mm src m = COPY_SUCCESS xs" and "copy_from_user mm (src + m) n = COPY_SUCCESS ys"
    and "unat m + unat n < 2 ^ 47" and "unat src + unat m < 2 ^ 64"
  shows "copy_from_user mm src (m + n) = COPY_SUCCESS (xs @ ys)"
proof -
  have sum: "unat (m + n) = unat m + unat n" "unat (src + m) = unat src + unat m"
    using assms(3,4) by (simp_all add: unat_word_ariths)
  have m: "src \<noteq> 0" "m \<noteq> 0" "list_all (page_grants mm (PAGE_PRESENT OR PAGE_USER)) (span src m)" "xs = map (user_byte mm) (span src m)"
    and n: "list_all (page_grants mm (PAGE_PRESENT OR PAGE_USER)) (span (src + m) n)" "ys = map (user_byte mm) (span (src + m) n)"
      "unat src + (unat m + unat n) \<le> 2 ^ 47"
    using assms(1,2) sum by (auto simp: copy_from_user_eq split: if_splits)
  have "m + n \<noteq> 0" using m(2) sum(1) by (metis add_is_0 unat_eq_zero)
  with m n sum(1) span_append [of m n src] assms(3) show ?thesis by (simp add: copy_from_user_eq)
qed

text \<open>What a successful send has done.\<close>

lemma msgsnd_success:
  assumes "sys_msgsnd mem mm msqid msgp msgsz current ticks s = Returns IPC_SUCCESS s1" and "mq_ok s"
  obtains header body where "copy_from_user mm msgp 8 = COPY_SUCCESS header"
    "copy_from_user mm (msgp + 8) msgsz = COPY_SUCCESS body" "length header = 8" "length body = unat msgsz" "body \<noteq> []"
    "unat msgsz \<le> 8192" "mq_ok s1"
    "v_send (mtype_of_bytes header) body (sint (ucast msqid :: u32)) current (view s) = (IPC_SUCCESS, view s1)"
proof -
  have sz: "unat msgsz \<le> 8192"
    using assms(1) by (auto simp: sys_msgsnd_def MSGMAX_def word_less_nat_alt ipc_codes split: if_splits)
  obtain header where h: "copy_from_user mm msgp 8 = COPY_SUCCESS header"
    using assms(1) by (auto simp: sys_msgsnd_def ipc_codes split: if_splits copy_outcome.splits)
  let ?t = "mtype_of_bytes header"
  have t: "0 < sint ?t"
    using assms(1) h by (auto simp: sys_msgsnd_def ipc_codes Let_def split: if_splits)
  obtain body where c: "copy_from_user mm (msgp + 8) msgsz = COPY_SUCCESS body"
    using assms(1) h by (auto simp: sys_msgsnd_def ipc_codes Let_def split: if_splits copy_outcome.splits)
  let ?m = "\<lparr>mtype = ?t, msize = msgsz, mtext = body\<rparr>"
  have enq: "msg_enqueue ?m (sint (ucast msqid :: u32)) current ticks s = (IPC_SUCCESS, s1)"
    using assms(1) h c by (auto simp: sys_msgsnd_def ipc_codes Let_def split: if_splits prod.splits)
  have len: "length body = unat msgsz" by (rule copied_length [OF c])
  have m: "message_ok ?m" using t len sz by (simp add: message_ok_def)
  have "body \<noteq> []" using c by (auto simp: copy_from_user_eq span_def unat_eq_zero split: if_splits)
  moreover have "mq_ok s1" using enqueue_ok [OF assms(2) m] enq by (metis snd_conv)
  moreover have "v_send ?t body (sint (ucast msqid :: u32)) current (view s) = (IPC_SUCCESS, view s1)"
    using enqueue_view [OF assms(2) m, of "sint (ucast msqid :: u32)" current ticks] enq by simp
  ultimately show thesis using h c copied_length [OF h] len sz by (intro that [of header body]) simp_all
qed

lemma deliver:
  assumes buf: "user_buffer mm dst (8 + n)" and "length header = 8" and "length body = unat n" and "body \<noteq> []" and "unat n \<le> 8192"
  shows "\<exists>mm1 mm2. copy_to_user cow mm dst header = COPY_SUCCESS mm1 \<and> copy_to_user cow mm1 (dst + 8) body = COPY_SUCCESS mm2 \<and>
    entries mm2 = entries mm \<and> copy_from_user mm2 dst (8 + n) = COPY_SUCCESS (header @ body)"
proof -
  have sum: "unat (8 + n) = 8 + unat n" using assms(5) by (simp add: unat_word_ariths)
  have bufs: "user_buffer mm dst 8" "user_buffer mm (dst + 8) n"
      "phys_of mm ` set (span dst 8) \<inter> phys_of mm ` set (span (dst + 8) n) = {}"
    using user_buffer_append [OF buf] assms(5) by simp_all
  have span: "span dst (8 + n) = span dst 8 @ span (dst + 8) n" using assms(5) by (intro span_append) simp
  have "length header = unat (8 :: u64)" "header \<noteq> []" using assms(2) by auto
  from copy_to_user_writes [OF bufs(1) this] obtain f where f: "copy_to_user cow mm dst header = COPY_SUCCESS (mm\<lparr>pmem := f\<rparr>)"
    "map (\<lambda>va. f (phys_of mm va)) (span dst 8) = header" by blast
  let ?mm = "mm\<lparr>pmem := f\<rparr>"
  have "user_buffer ?mm (dst + 8) n" using bufs(2) by (simp add: user_buffer_def)
  from copy_to_user_writes [OF this assms(3,4)] obtain g where
    g: "copy_to_user cow ?mm (dst + 8) body = COPY_SUCCESS (mm\<lparr>pmem := g\<rparr>)"
      "\<forall>p. p \<notin> phys_of mm ` set (span (dst + 8) n) \<longrightarrow> g p = f p" "map (\<lambda>va. g (phys_of mm va)) (span (dst + 8) n) = body"
    by auto
  have "map (\<lambda>va. g (phys_of mm va)) (span dst 8) = header"
    unfolding f(2) [symmetric] using g(2) bufs(3) by (intro map_cong) auto
  moreover have "8 + n \<noteq> 0" using sum by (metis add_is_0 unat_0 zero_neq_numeral)
  ultimately have "copy_from_user (mm\<lparr>pmem := g\<rparr>) dst (8 + n) = COPY_SUCCESS (header @ body)"
    using copy_from_user_buffer [OF buf, of g] g(3) by (simp add: span)
  with f(1) g(1) show ?thesis by (intro exI [of _ ?mm] exI [of _ "mm\<lparr>pmem := g\<rparr>"]) simp
qed

lemma find_last: "P m \<Longrightarrow> \<forall>x \<in> set ms. \<not> P x \<Longrightarrow> find P (ms @ [m]) = Some m \<and> remove1 m (ms @ [m]) = ms"
  by (induction ms) auto

text \<open>
  C38: a message arrives as it was sent. If \<^verbatim>\<open>sys_msgsnd\<close> succeeds, then a \<^verbatim>\<open>sys_msgrcv\<close> by any
  process that may read the queue, whose \<^verbatim>\<open>msgtyp\<close> selects the type sent and none of the
  messages that were in the queue before (on an empty queue, 0 always does), with room for
  the message in writable memory, returns the size, puts type and text into the memory of
  the receiver exactly as they were in that of the sender, leaves its page tables alone, and
  leaves the queue and all others as before the send. The message is consumed whatever the
  flags, also with \<^verbatim>\<open>MSG_COPY\<close>, which is documented as leaving it in the queue.
\<close>

theorem msg_user_roundtrip:
  assumes "mq_reach s"
    and "sys_msgsnd True sender msqid msgp msgsz src ticks s = Returns IPC_SUCCESS s1"
    and "view s (sint (ucast msqid :: u32)) = Some q" and "v_allows q dst False"
    and "copy_from_user sender msgp 8 = COPY_SUCCESS sent_type" and "msgtyp \<noteq> 0x8000000000000000"
    and "v_wants (sint msgtyp) (mtype_of_bytes sent_type, [])" and "\<forall>m \<in> set (v_msgs q). \<not> v_wants (sint msgtyp) m"
    and "user_buffer mm buf (8 + msgsz)"
  shows "\<exists>s2 mm2 bytes. sys_msgrcv True cow mm msqid buf msgsz msgtyp msgflg dst ticks' s1 = Returns (int (unat msgsz)) (s2, mm2) \<and>
    copy_from_user sender msgp (8 + msgsz) = COPY_SUCCESS bytes \<and> copy_from_user mm2 buf (8 + msgsz) = COPY_SUCCESS bytes \<and>
    entries mm2 = entries mm \<and> view s2 = view s"
proof -
  let ?i = "sint (ucast msqid :: u32)"
  have ok: "mq_ok s" by (rule reach_ok [OF assms(1)])
  obtain header body where sent: "copy_from_user sender msgp 8 = COPY_SUCCESS header"
    "copy_from_user sender (msgp + 8) msgsz = COPY_SUCCESS body" "length header = 8" "length body = unat msgsz" "body \<noteq> []"
    "unat msgsz \<le> 8192" "mq_ok s1" "v_send (mtype_of_bytes header) body ?i src (view s) = (IPC_SUCCESS, view s1)"
    by (rule msgsnd_success [OF assms(2) ok])
  let ?t = "mtype_of_bytes header"
  have v1: "view s1 = (view s)(?i \<mapsto> q\<lparr>v_msgs := v_msgs q @ [(?t, body)]\<rparr>)"
    using sent(8) assms(3) by (auto simp: v_send_def ipc_codes split: if_splits)
  have "v_wants (sint msgtyp) (?t, body)" using assms(5,7) sent(1) by (simp add: v_wants_def)
  note last = find_last [OF this assms(8)]
  define cap where "cap = unat (if msgsz < MSGMAX then msgsz else MSGMAX)"
  let ?flags = "ucast msgflg :: u32"
  have "map_prod id view (msg_dequeue cap ?i msgsz msgtyp ?flags dst ticks' s1) =
      v_receive ?i (unat msgsz) (sint msgtyp) (?flags AND MSG_NOERROR \<noteq> 0) dst (view s1)"
    using dequeue_view [OF sent(7) assms(6) receive_room] unfolding cap_def by simp
  also have "\<dots> = (Dq_Message ?t body, view s)"
    using assms(3,4) sent(4) last by (auto simp: v_receive_def v1 v_allows_def)
  finally obtain s2 where s2: "msg_dequeue cap ?i msgsz msgtyp ?flags dst ticks' s1 = (Dq_Message ?t body, s2)" "view s2 = view s"
    by (cases "msg_dequeue cap ?i msgsz msgtyp ?flags dst ticks' s1") simp
  have hdr: "bytes_of_mtype ?t = header" by (rule bytes_of_mtype_inverse [OF sent(3)])
  obtain mm1 mm2 where d: "copy_to_user cow mm buf header = COPY_SUCCESS mm1" "copy_to_user cow mm1 (buf + 8) body = COPY_SUCCESS mm2"
      "entries mm2 = entries mm" "copy_from_user mm2 buf (8 + msgsz) = COPY_SUCCESS (header @ body)"
    using deliver [OF assms(9) sent(3,4,5,6)] by blast
  have "unat msgp + unat (8 :: u64) \<le> 2 ^ 47" using sent(1) by (auto simp: copy_from_user_eq split: if_splits)
  then have "copy_from_user sender msgp (8 + msgsz) = COPY_SUCCESS (header @ body)"
    using sent(6) by (intro copy_from_user_append [OF sent(1,2)]) simp_all
  moreover have "buf \<noteq> 0" using assms(9) by (simp add: user_buffer_def)
  then have "sys_msgrcv True cow mm msqid buf msgsz msgtyp msgflg dst ticks' s1 = Returns (int (unat msgsz)) (s2, mm2)"
    using s2(1) d(1,2) hdr sent(4,5) unfolding cap_def by (simp add: sys_msgrcv_def Let_def)
  ultimately show ?thesis using d(3,4) s2(2) by blast
qed

text \<open>A queue of process 9, and the sender's page: type 16961 and one byte of text.\<close>

definition test_proc :: ipc_proc where
  "test_proc = \<lparr>ip_pid = 9, ip_uid = 5, ip_gid = 6\<rparr>"

definition one_queue :: mq_state where
  "one_queue = snd (msgget_publish 7 1 IPC_PRIVATE 0x1B0 test_proc 0 msg_init)"

lemma one_queue_reach: "mq_reach one_queue"
  unfolding one_queue_def by (intro mq_reach.step [OF mq_reach.init] mq_step.publish) (simp_all add: msg_init_def)

lemma one_queue_view: "view one_queue = [1 \<mapsto> v_new IPC_PRIVATE 0x1B0 test_proc]"
proof -
  have "map_prod id view (msgget_publish 7 1 IPC_PRIVATE 0x1B0 test_proc 0 msg_init) =
      v_create (int 1) IPC_PRIVATE 0x1B0 test_proc (\<lambda>_. None)"
    using publish_view [OF init_ok, of 7 1] by (simp add: view_init) (simp add: msg_init_def)
  then show ?thesis
    unfolding one_queue_def by (cases "msgget_publish 7 1 IPC_PRIVATE 0x1B0 test_proc 0 msg_init") (simp add: v_create_def v_lookup_def)
qed

lemma test_span: "span 0x1000 8 = [0x1000, 0x1001, 0x1002, 0x1003, 0x1004, 0x1005, 0x1006, 0x1007]" "span 0x1008 1 = [0x1008]"
  by (simp_all add: span_def upt_rec)

lemma test_walk: "list_all (\<lambda>va. page_walk one_page va = Some (0x8007, False, 7)) (span 0x1000 8 @ span 0x1008 1)"
  unfolding test_span by (simp add: one_page_eval)

lemma test_buffer: "user_buffer one_page 0x1000 9"
proof -
  have "span 0x1000 9 = span 0x1000 8 @ span 0x1008 1" using span_append [of 8 1 "0x1000"] by simp
  with test_walk show ?thesis
    by (simp add: user_buffer_def test_span page_grants_def page_simps writable_def phys_of_def translate_def ADDR_MASK_def PAGE_OFFSET_def)
      blast
qed

lemma test_header: "copy_from_user one_page 0x1000 8 = COPY_SUCCESS [65, 66, 0, 0, 0, 0, 0, 0]"
  and test_body: "copy_from_user one_page 0x1008 1 = COPY_SUCCESS [0]"
  using test_walk by (simp_all add: copy_from_user_eq test_span page_grants_def page_simps user_byte_def translate_def
      ADDR_MASK_def PAGE_OFFSET_def one_page_def)

theorem msg_user_roundtrip_witness:
  "\<exists>s1 s2 mm2. sys_msgsnd True one_page 1 0x1000 1 test_proc 0 one_queue = Returns IPC_SUCCESS s1 \<and>
    sys_msgrcv True (\<lambda>_ mm. mm) one_page 1 0x1000 1 (- 16961) 0 test_proc 0 s1 = Returns 1 (s2, mm2) \<and>
    copy_from_user mm2 0x1000 9 = COPY_SUCCESS [65, 66, 0, 0, 0, 0, 0, 0, 0]"
proof -
  let ?t = "mtype_of_bytes [65, 66, 0, 0, 0, 0, 0, 0]" and ?m = "\<lparr>mtype = 16961, msize = 1, mtext = [0]\<rparr>"
  have t: "?t = 16961" by (simp add: mtype_le_value le_value_def)
  have q: "view one_queue 1 = Some (v_new IPC_PRIVATE 0x1B0 test_proc)" by (simp add: one_queue_view)
  have "map_prod id view (msg_enqueue ?m 1 test_proc 0 one_queue) = v_send 16961 [0] 1 test_proc (view one_queue)"
    using enqueue_view [OF reach_ok [OF one_queue_reach], of ?m] by (simp add: message_ok_def)
  then have "fst (msg_enqueue ?m 1 test_proc 0 one_queue) = IPC_SUCCESS"
    by (cases "msg_enqueue ?m 1 test_proc 0 one_queue") (simp add: v_send_def q v_new_def v_allows_def v_bytes_def)
  then obtain s1 where s1: "sys_msgsnd True one_page 1 0x1000 1 test_proc 0 one_queue = Returns IPC_SUCCESS s1"
    by (cases "msg_enqueue ?m 1 test_proc 0 one_queue") (simp add: sys_msgsnd_def MSGMAX_def test_header test_body t)
  have all: "copy_from_user one_page 0x1000 9 = COPY_SUCCESS [65, 66, 0, 0, 0, 0, 0, 0, 0]"
    using copy_from_user_append [of one_page "0x1000" 8 _ 1] test_header test_body by simp
  show ?thesis
    using msg_user_roundtrip [OF one_queue_reach s1, of "v_new IPC_PRIVATE 0x1B0 test_proc" test_proc
        "[65, 66, 0, 0, 0, 0, 0, 0]" "- 16961" one_page "0x1000" "\<lambda>_ mm. mm" 0 0]
      q test_buffer test_header all s1
    by (auto simp: v_new_def v_allows_def v_wants_def test_proc_def t)
qed

section \<open>Leaving\<close>

lemma owned_published:
  assumes "mq_ok s"
  shows "set (owned pid [0..<256] s) = {p \<in> published s. owner_pid (the (queues s p)) = pid}"
proof -
  have "published s = {p. \<exists>i < 256. id_table s ! i = Some p}"
    using assms by (auto simp: published_def in_set_conv_nth mq_ok_def)
  then show ?thesis by (auto simp: owned_def split: option.splits if_splits)
qed

lemma fold_mq_free: "fold mq_free ps s = s\<lparr>queues := (\<lambda>p. if p \<in> set ps then None else queues s p)\<rparr>"
  by (induction ps arbitrary: s) (auto simp: mq_free_def fun_eq_iff)

lemma fold_free_view: "mq_ok s \<Longrightarrow> set ps \<inter> published s = {} \<Longrightarrow> view (fold mq_free ps s) = view s"
proof (induction ps arbitrary: s)
  case (Cons p ps)
  have "published (mq_free p s) = published s" by (simp add: mq_free_def published_def)
  with Cons free_ok [of s p] free_view [of s p] show ?case by simp
qed simp

text \<open>
  C39: the exit of a process removes exactly its queues. Afterwards no identifier leads to a
  queue it created, and every queue of another process is as it was. Of the structures
  removed from the tables, only the first 32 in the order of the identifiers are freed: the
  others stay allocated although nothing leads to them.
\<close>

theorem msg_cleanup_exact:
  assumes "mq_reach s"
  shows "view (msg_cleanup_process pid s) = v_exit pid (view s) \<and>
    published (msg_cleanup_process pid s) = {p \<in> published s. owner_pid (the (queues s p)) \<noteq> pid} \<and>
    queues (msg_cleanup_process pid s) =
      (\<lambda>p. if p \<in> set (take 32 (owned pid [0..<256] s)) then None else queues s p)"
proof -
  have ok: "mq_ok s" by (rule reach_ok [OF assms])
  obtain ps s' where scan: "cleanup_scan pid [0..<MQ_TABLE_SIZE] [] s = (ps, s')" by fastforce
  have slots: "set [0..<256] \<subseteq> {..<256 :: nat}" by auto
  from cleanup_scan_spec [OF ok slots distinct_upt, of pid "[]"] scan
  have s': "queues s' = queues s" "ps = take 32 (owned pid [0..<256] s)" "published s' = published s - set (owned pid [0..<256] s)"
    by (simp_all add: MQ_TABLE_SIZE_def)
  have "mq_ok s'" using cleanup_ok [OF ok, of "[0..<MQ_TABLE_SIZE]" pid "[]"] scan slots by (simp add: MQ_TABLE_SIZE_def)
  have "view s' = v_exit pid (view s)" using cleanup_view [OF ok, of pid] scan by simp
  have unpub: "set ps \<inter> published s' = {}" using s'(2,3) set_take_subset by fastforce
  have "view (fold mq_free ps s') = view s'" using \<open>mq_ok s'\<close> unpub by (rule fold_free_view)
  moreover have "published (fold mq_free ps s') = published s'" by (simp add: fold_mq_free published_def)
  ultimately show ?thesis
    using scan s' \<open>view s' = _\<close> owned_published [OF ok, of pid] by (auto simp: msg_cleanup_process_def fold_mq_free)
qed

theorem msg_cleanup_exact_witness:
  "view one_queue 1 \<noteq> None \<and> view (msg_cleanup_process 9 one_queue) 1 = None \<and> view (msg_cleanup_process 8 one_queue) 1 \<noteq> None"
  using msg_cleanup_exact [OF one_queue_reach, of 9] msg_cleanup_exact [OF one_queue_reach, of 8]
  by (simp add: one_queue_view v_exit_def v_new_def test_proc_def)

text \<open>
  A message without text can be received but never sent: \<^verbatim>\<open>copy_from_user\<close> refuses a length
  of zero.
\<close>

lemma msgsnd_empty:
  "\<exists>e. sys_msgsnd mem mm msqid msgp 0 current ticks s = Returns e s \<and> e \<in> {IPC_EINVAL, IPC_ENOMEM, IPC_EFAULT}"
  by (simp add: sys_msgsnd_def copy_from_user_eq Let_def)

end
