(* ===== verification/Spec2Isabelle.thy ===== *)
theory Spec2Isabelle
  imports Pmm_Properties Seccomp_Properties Cap_Properties User_Copy_Properties Msg_Properties
begin

text \<open>
  AutomationOS is a 64-bit x86 operating system in C: a monolithic kernel (\<^verbatim>\<open>src/kernel\<close>), a
  boot loader (\<^verbatim>\<open>src/boot\<close>) and a user space of libraries and programs (\<^verbatim>\<open>src/userspace\<close>). This
  development models the parts of the kernel on which the separation of processes rests:
  who owns a physical frame, what a process may do, and how bytes cross between user memory
  and the kernel. Every definition translates a function, a data type or a named block of
  the C sources; the properties state what it does on every branch.

  \<^bold>\<open>The parts and how they interact.\<close> The physical memory manager hands out 4 KB frames. The
  paging code takes its tables from it and gives virtual addresses a meaning. System calls
  reach user memory only through the copy routines, which walk those tables. The capability
  system decides which objects a process may use, the seccomp filter which system calls it
  may make at all, and the message queues pass data between processes that have been let
  through.

  \<^bold>\<open>Conventions.\<close> State is passed explicitly: a module's static variables are one record, an
  operation returns its result with the new state. Code between taking and releasing a lock
  is one function, so interleavings are sequences of such functions. Machine integers are
  words of their width and wrap; indices that provably stay small are natural numbers. A
  failed allocation, a page fault of the kernel and a read outside an object are values.
  What lies outside a component (\<^verbatim>\<open>kmalloc\<close>, the time stamp counter, the contents of foreign
  memory) is a parameter. All loops are structural recursions or have a termination proof.
  Two carry a counter: the filter machine the code's own iteration cap, which the properties
  show is never reached, and the search for a free queue identifier (\<open>find_free_id\<close>) the table
  size, which the properties show is enough to visit every slot.

  \<^bold>\<open>Theories.\<close>

  \<^descr> \<open>Kernel_Prelude\<close>: integer types, error numbers, named collections of facts, lemmas on
    words and lists, and the locale \<open>simulation\<close> of a module against its specification over
    sequences of operations.

  \<^descr> \<open>Pmm_Bitmap\<close>, \<open>Pmm\<close>: \<^verbatim>\<open>kernel/core/mem/pmm.c\<close>. The frame bitmap with its word-at-a-time run
    search, boot, the per-CPU caches, the contiguous and the huge-page allocator. The static
    variables are the record \<open>pmm\<close>.

  \<^descr> \<open>Pmm_Pool\<close>, \<open>Pmm_Smp\<close>, \<open>Pmm_Contract\<close>: the locale \<open>frame_pool\<close> between the pool and its
    clients, the step relation of all interleavings on any number of processors with the
    invariant that no frame is in two places, and the sequential contract of each operation.

  \<^descr> \<open>Pmm_Properties\<close>: exclusive ownership and exact accounting as long as threads free only
    frames they were given, the exact results of the allocators and of a release at every
    address, the round trip of allocation and release, what boot makes free, and the inputs
    on which memory is refused or handed out twice.

  \<^descr> \<open>User_Copy\<close>, \<open>User_Copy_Properties\<close>: the boundary to user memory in
    \<^verbatim>\<open>kernel/core/mem/vmm.c\<close>. The record \<open>mmu\<close> holds page tables, data and registers. Bulk
    copies never fault the kernel and move exactly the bytes the processor finds; strings
    are handled exactly from a page boundary on and unsafely elsewhere.

  \<^descr> \<open>Capability\<close>, \<open>Cap_Check\<close>, \<open>Cap_Properties\<close>: \<^verbatim>\<open>kernel/core/capability\<close>. Creation, sets with
    their type mask and generation, grant, delegate, revoke, inheritance, exec, the matcher
    of path patterns and the access checks. Sets stay well-typed, the mask agrees with the
    list, the paths a delegation opens are known exactly and lie within the granter's unless
    a star is appended to a pattern without one, executed programs are confined.

  \<^descr> \<open>Seccomp_Bpf\<close>, \<open>Seccomp_Enforce\<close>, \<open>Seccomp_Properties\<close>: \<^verbatim>\<open>kernel/security/seccomp\<close>. The
    validator and the interpreter of filter programs, filter chains, profiles, the audit
    ring, the system call. Validated programs return without leaving their input, the most
    restrictive layer decides, profiles do what their instruction lists say, and a filter
    from user space is installed exactly or leaves nothing behind.

  \<^descr> \<open>Msg_Queue\<close>, \<open>Msg_Table\<close>, \<open>Msg_Invariant\<close>, \<open>Msg_Refine\<close>, \<open>Msg_Properties\<close>:
    \<^verbatim>\<open>kernel/ipc/msgqueue.c\<close>. Key table with open addressing (locale \<open>key_index\<close>), queues,
    the four system calls and process exit. The critical sections refine a map from
    identifiers to message lists over all interleavings, every answer included; a message
    moves unchanged from the sender's memory to the receiver's.

  \<^bold>\<open>Not modelled.\<close>

  \<^item> Console output, performance counters, TLB maintenance and the instruction-level memory
    model; locks are taken to give mutual exclusion.

  \<^item> The kernel heap and the slab allocator: \<^verbatim>\<open>kmalloc\<close> is a parameter of its callers.

  \<^item> Scheduler and context switch, signals, the file systems, the network stack, namespaces
    and resource limits, mandatory access control: separate subsystems that the modelled
    parts do not call.

  \<^item> Device drivers, interrupt and descriptor set-up, the boot loader: port and
    memory-mapped I/O, not functions of program state.

  \<^item> User space: applications, the compositor and libraries; some of it is third-party code
    (\<^verbatim>\<open>stb_image.h\<close>, \<^verbatim>\<open>stb_truetype.h\<close>).
\<close>

end
